(* ===== verification/Prelude.thy ===== *)
theory Prelude
  imports Main "HOL-Library.Word"
begin

text \<open>
  Shared material of the development: the names of the machine types of the source, the
  byte-order conversions of the Rust standard library (\<open>to_le_bytes\<close>, \<open>to_be_bytes\<close> and
  their inverses), saturating arithmetic, and the generic lemmas on lists, exclusive-or and
  words that the component theories use.  Facts that several components rewrite with are
  collected in the \<^theory_text>\<open>named_theorems\<close> below.
\<close>

unbundle bit_operations_syntax

named_theorems byte_simps \<open>conversions between machine words and byte lists\<close>
named_theorems xor_simps \<open>exclusive-or on words as a commutative group of exponent two\<close>

section \<open>Machine types\<close>

type_synonym u8 = "8 word"
type_synonym u16 = "16 word"
type_synonym u32 = "32 word"
type_synonym u64 = "64 word"
type_synonym bytes = "u8 list"

text \<open>A Rust \<open>Result<T, E>\<close> is the sum \<open>'e + 'a\<close>: \<open>Inl\<close> is \<open>Err\<close>, \<open>Inr\<close> is \<open>Ok\<close>.\<close>

type_synonym ('a, 'e) result = "'e + 'a"

definition is_ok :: "('a, 'e) result \<Rightarrow> bool" where
  "is_ok r = (case r of Inl _ \<Rightarrow> False | Inr _ \<Rightarrow> True)"

lemma is_ok_simps [simp]: "is_ok (Inr x)" "\<not> is_ok (Inl e)"
  by (simp_all add: is_ok_def)

section \<open>Byte order\<close>

lemma unat_lt2p: "unat (w :: 'a::len word) < 2 ^ LENGTH('a)"
  by simp

lemma of_nat_unat: "of_nat (unat w) = (w :: 'a::len word)"
  by simp

text \<open>Little-endian digits of a number: \<open>n\<close> bytes, the low byte first.\<close>

fun nat_to_le :: "nat \<Rightarrow> nat \<Rightarrow> bytes" where
  "nat_to_le 0 x = []"
| "nat_to_le (Suc n) x = of_nat x # nat_to_le n (x div 256)"

fun nat_of_le :: "bytes \<Rightarrow> nat" where
  "nat_of_le [] = 0"
| "nat_of_le (b # bs) = unat b + 256 * nat_of_le bs"

lemma length_nat_to_le [simp]: "length (nat_to_le n x) = n"
  by (induction n arbitrary: x) auto

lemma unat_of_nat_u8: "unat (of_nat x :: u8) = x mod 256"
  by (simp add: unat_of_nat)

lemma nat_of_le_to_le: "nat_of_le (nat_to_le n x) = x mod 256 ^ n"
proof (induction n arbitrary: x)
  case 0
  then show ?case by simp
next
  case (Suc n)
  have "nat_of_le (nat_to_le (Suc n) x) = x mod 256 + 256 * (x div 256 mod 256 ^ n)"
    by (simp add: Suc.IH unat_of_nat_u8)
  also have "\<dots> = x mod (256 * 256 ^ n)"
    by (simp add: mod_mult2_eq)
  finally show ?case by simp
qed

lemma nat_of_le_bound: "nat_of_le bs < 256 ^ length bs"
proof (induction bs)
  case Nil
  then show ?case by simp
next
  case (Cons b bs)
  have "unat b < 256" using unat_lt2p[of b] by simp
  with Cons.IH show ?case by simp
qed

lemma nat_to_le_of_le: "nat_to_le (length bs) (nat_of_le bs) = bs"
proof (induction bs)
  case Nil
  then show ?case by simp
next
  case (Cons b bs)
  have "unat b < 256" using unat_lt2p[of b] by simp
  then have d: "(unat b + 256 * nat_of_le bs) div 256 = nat_of_le bs" by simp
  have m: "(of_nat (unat b + 256 * nat_of_le bs) :: u8) = b"
  proof (rule word_unat_eq_iff [THEN iffD2])
    show "unat (of_nat (unat b + 256 * nat_of_le bs) :: u8) = unat b"
      using \<open>unat b < 256\<close> by (simp only: unat_of_nat_u8) simp
  qed
  show ?case by (simp only: length_Cons nat_of_le.simps nat_to_le.simps m d Cons.IH)
qed

definition to_le_bytes32 :: "u32 \<Rightarrow> bytes" where
  "to_le_bytes32 w = nat_to_le 4 (unat w)"

definition from_le_bytes32 :: "bytes \<Rightarrow> u32" where
  "from_le_bytes32 bs = of_nat (nat_of_le bs)"

definition to_be_bytes32 :: "u32 \<Rightarrow> bytes" where
  "to_be_bytes32 w = rev (nat_to_le 4 (unat w))"

definition from_be_bytes32 :: "bytes \<Rightarrow> u32" where
  "from_be_bytes32 bs = of_nat (nat_of_le (rev bs))"

definition to_be_bytes64 :: "u64 \<Rightarrow> bytes" where
  "to_be_bytes64 w = rev (nat_to_le 8 (unat w))"

definition from_be_bytes64 :: "bytes \<Rightarrow> u64" where
  "from_be_bytes64 bs = of_nat (nat_of_le (rev bs))"

lemma length_word_bytes [simp, byte_simps]:
  "length (to_le_bytes32 w) = 4"
  "length (to_be_bytes32 w) = 4"
  "length (to_be_bytes64 v) = 8"
  by (simp_all add: to_le_bytes32_def to_be_bytes32_def to_be_bytes64_def)

lemma from_to_bytes [simp, byte_simps]:
  "from_le_bytes32 (to_le_bytes32 w) = w"
  "from_be_bytes32 (to_be_bytes32 w) = w"
  "from_be_bytes64 (to_be_bytes64 v) = v"
proof -
  have w: "unat w mod 256 ^ 4 = unat w" using unat_lt2p[of w] by simp
  have v: "unat v mod 256 ^ 8 = unat v" using unat_lt2p[of v] by simp
  show "from_le_bytes32 (to_le_bytes32 w) = w"
    by (simp only: from_le_bytes32_def to_le_bytes32_def nat_of_le_to_le w of_nat_unat)
  show "from_be_bytes32 (to_be_bytes32 w) = w"
    by (simp only: from_be_bytes32_def to_be_bytes32_def rev_rev_ident nat_of_le_to_le w
        of_nat_unat)
  show "from_be_bytes64 (to_be_bytes64 v) = v"
    by (simp only: from_be_bytes64_def to_be_bytes64_def rev_rev_ident nat_of_le_to_le v
        of_nat_unat)
qed

lemma to_from_le_bytes32: "length bs = 4 \<Longrightarrow> to_le_bytes32 (from_le_bytes32 bs) = bs"
  using nat_of_le_bound[of bs] nat_to_le_of_le[of bs]
  by (simp add: to_le_bytes32_def from_le_bytes32_def unat_of_nat)

lemma to_le_bytes32_inject: "to_le_bytes32 v = to_le_bytes32 w \<longleftrightarrow> v = w"
  by (metis from_to_bytes(1))

section \<open>Saturating arithmetic\<close>

definition saturating_add16 :: "u16 \<Rightarrow> u16 \<Rightarrow> u16" where
  "saturating_add16 a b = (if unat a + unat b < 2 ^ 16 then a + b else 0xFFFF)"

definition saturating_sub :: "nat \<Rightarrow> nat \<Rightarrow> nat" where
  "saturating_sub a b = (if a < b then 0 else a - b)"

section \<open>Exclusive-or\<close>

lemma xor_group [xor_simps]:
  "a XOR a = (0 :: 'a::len word)"
  "a XOR 0 = a"
  "0 XOR a = a"
  "a XOR (a XOR b) = b"
  by (simp_all flip: xor.assoc)

lemmas xor_ac [xor_simps] = xor.assoc xor.commute xor.left_commute

lemma xor_eq_0_iff: "a XOR b = (0 :: 'a::len word) \<longleftrightarrow> a = b"
  by (metis xor.assoc xor.right_neutral xor_self_eq)

section \<open>Lists\<close>

text \<open>Rust slicing \<open>xs[a..b]\<close> for \<open>a \<le> b \<le> xs.len()\<close>.\<close>

definition slice :: "nat \<Rightarrow> nat \<Rightarrow> 'a list \<Rightarrow> 'a list" where
  "slice a b xs = take (b - a) (drop a xs)"

lemma length_slice [simp]: "b \<le> length xs \<Longrightarrow> length (slice a b xs) = b - a"
  by (simp add: slice_def)

lemma slice_append_right [simp]:
  "length xs \<le> a \<Longrightarrow> slice a b (xs @ ys) = slice (a - length xs) (b - length xs) ys"
  by (simp add: slice_def)

lemma slice_all [simp]: "slice 0 (length xs) xs = xs"
  by (simp add: slice_def)

text \<open>Rust's \<open>chunks(n)\<close>: consecutive pieces of \<open>n\<close> elements, the last one possibly shorter.\<close>

function chunks :: "nat \<Rightarrow> 'a list \<Rightarrow> 'a list list" where
  "chunks n xs = (if xs = [] \<or> n = 0 then [] else take n xs # chunks n (drop n xs))"
  by pat_completeness auto
termination
  by (relation "measure (\<lambda>(n, xs). length xs)") auto

declare chunks.simps [simp del]

lemma concat_chunks: "0 < n \<Longrightarrow> concat (chunks n xs) = xs"
proof (induction n xs rule: chunks.induct)
  case (1 n xs)
  then show ?case by (cases "xs = []") (simp_all add: chunks.simps[of n xs] chunks.simps[of n "[]"])
qed

lemma chunks_length_le: "c \<in> set (chunks n xs) \<Longrightarrow> length c \<le> n"
proof (induction n xs rule: chunks.induct)
  case (1 n xs)
  then show ?case by (auto simp: chunks.simps[of n xs] split: if_splits)
qed

text \<open>Rust's \<open>iter().position(p)\<close>.\<close>

fun position :: "('a \<Rightarrow> bool) \<Rightarrow> 'a list \<Rightarrow> nat option" where
  "position p [] = None"
| "position p (x # xs) = (if p x then Some 0 else map_option Suc (position p xs))"

lemma position_None: "position p xs = None \<longleftrightarrow> (\<forall>x \<in> set xs. \<not> p x)"
  by (induction xs) auto

lemma position_Some:
  "position p xs = Some i \<Longrightarrow> i < length xs \<and> p (xs ! i) \<and> (\<forall>j < i. \<not> p (xs ! j))"
proof (induction xs arbitrary: i)
  case Nil
  then show ?case by simp
next
  case (Cons x xs)
  then show ?case
    by (auto split: if_splits simp: less_Suc_eq_0_disj)
qed

end
