(* ===== verification/GF256.thy ===== *)
theory GF256
  imports Prelude
begin

text \<open>
  The finite field GF(2^8) of \<open>craftec-rlnc/src/gf256.rs\<close>: the shift-and-reduce multiplication
  used to build the tables, the table construction loops, the table-driven field operations and
  the fused multiply-add on byte slices.  The theory shows that the table-driven operations are
  the field operations: the type \<open>gf256\<close> is an instance of the library class \<open>field\<close>, and
  every operation of the source is a homomorphism into it.
\<close>

section \<open>Multiplication by shifting and reducing\<close>

text \<open>The body of the loop on \<open>a\<close>: multiply by x, reduce by \<open>0x11B\<close>.\<close>

definition xtime :: "u8 \<Rightarrow> u8" where
  "xtime a = (let hi = a AND 0x80; a' = push_bit 1 a in if hi \<noteq> 0 then a' XOR 0x1B else a')"

lemma unat_drop_bit_1: "unat (drop_bit 1 b :: u8) = unat b div 2"
  unfolding unat_drop_bit_eq by (simp add: drop_bit_eq_div)

function gf_mul_slow_loop :: "u8 \<Rightarrow> u8 \<Rightarrow> u8 \<Rightarrow> u8" where
  "gf_mul_slow_loop result a b =
     (if b > 0
      then gf_mul_slow_loop (if b AND 1 \<noteq> 0 then result XOR a else result) (xtime a) (drop_bit 1 b)
      else result)"
  by pat_completeness auto
termination
  by (relation "measure (\<lambda>(r, a, b). unat b)")
     (simp_all add: word_less_nat_alt unat_drop_bit_1 del: One_nat_def)

declare gf_mul_slow_loop.simps [simp del]

definition gf_mul_slow :: "u8 \<Rightarrow> u8 \<Rightarrow> u8" where
  "gf_mul_slow a b = gf_mul_slow_loop 0 a b"

section \<open>The tables\<close>

text \<open>Array stores of the source are in range: the loop indices stay below 510 and 256.\<close>

function build_exp_loop :: "u8 list \<Rightarrow> u8 \<Rightarrow> nat \<Rightarrow> u8 list" where
  "build_exp_loop table x i =
     (if i < 255
      then build_exp_loop ((table[i := x])[i + 255 := x]) (gf_mul_slow x 3) (i + 1)
      else table)"
  by pat_completeness auto
termination
  by (relation "measure (\<lambda>(t, x, i). 255 - i)") auto

declare build_exp_loop.simps [simp del]

definition build_exp_table :: "u8 list" where
  "build_exp_table = ((build_exp_loop (replicate 512 0) 1 0)[255 := 1])[510 := 1]"

function build_log_loop :: "u8 list \<Rightarrow> u8 list \<Rightarrow> nat \<Rightarrow> u8 list" where
  "build_log_loop exp table i =
     (if i < 255 then build_log_loop exp (table[unat (exp ! i) := of_nat i]) (i + 1) else table)"
  by pat_completeness auto
termination
  by (relation "measure (\<lambda>(e, t, i). 255 - i)") auto

declare build_log_loop.simps [simp del]

definition build_log_table :: "u8 list \<Rightarrow> u8 list" where
  "build_log_table exp = build_log_loop exp (replicate 256 0) 0"

definition EXP_TABLE :: "u8 list" where
  "EXP_TABLE = build_exp_table"

definition LOG_TABLE :: "u8 list" where
  "LOG_TABLE = build_log_table EXP_TABLE"

section \<open>Field operations\<close>

definition gf_add :: "u8 \<Rightarrow> u8 \<Rightarrow> u8" where
  "gf_add a b = a XOR b"

definition gf_mul :: "u8 \<Rightarrow> u8 \<Rightarrow> u8" where
  "gf_mul a b =
     (if a = 0 \<or> b = 0 then 0
      else let log_a = unat (LOG_TABLE ! unat a); log_b = unat (LOG_TABLE ! unat b)
           in EXP_TABLE ! (log_a + log_b))"

text \<open>
  \<open>gf_div\<close> and \<open>gf_inv\<close> are the release-build bodies: the \<open>debug_assert_ne!\<close> on a zero
  operand is compiled out there.
\<close>

definition gf_div :: "u8 \<Rightarrow> u8 \<Rightarrow> u8" where
  "gf_div a b =
     (if a = 0 then 0
      else let log_a = unat (LOG_TABLE ! unat a); log_b = unat (LOG_TABLE ! unat b)
           in EXP_TABLE ! (log_a + 255 - log_b))"

definition gf_inv :: "u8 \<Rightarrow> u8" where
  "gf_inv a = (let log_a = unat (LOG_TABLE ! unat a) in EXP_TABLE ! (255 - log_a))"

text \<open>
  The fused multiply-add.  \<open>zip_with_keep\<close> is the iteration \<open>dst.iter_mut().zip(src.iter())\<close>:
  it stops at the shorter slice and leaves the rest of \<open>dst\<close> as it is.
\<close>

fun zip_with_keep :: "('a \<Rightarrow> 'b \<Rightarrow> 'a) \<Rightarrow> 'a list \<Rightarrow> 'b list \<Rightarrow> 'a list" where
  "zip_with_keep f (d # ds) (s # ss) = f d s # zip_with_keep f ds ss"
| "zip_with_keep f ds ss = ds"

definition gf_vec_mul_add :: "bytes \<Rightarrow> bytes \<Rightarrow> u8 \<Rightarrow> bytes" where
  "gf_vec_mul_add dst src coeff =
     (if coeff = 0 then dst
      else if coeff = 1 then zip_with_keep (\<lambda>d s. d XOR s) dst src
      else let log_c = unat (LOG_TABLE ! unat coeff)
           in zip_with_keep
                (\<lambda>d s. if s \<noteq> 0
                        then let log_s = unat (LOG_TABLE ! unat s) in d XOR EXP_TABLE ! (log_c + log_s)
                        else d) dst src)"

section \<open>The reference product\<close>

text \<open>
  The polynomial product with an explicit number of rounds.  It is linear in both arguments
  and commutes with \<^const>\<open>xtime\<close>, which gives commutativity and associativity without case
  enumeration.
\<close>

fun pmul :: "nat \<Rightarrow> u8 \<Rightarrow> u8 \<Rightarrow> u8" where
  "pmul 0 a b = 0"
| "pmul (Suc n) a b = (if bit b 0 then a else 0) XOR pmul n (xtime a) (drop_bit 1 b)"

lemma and_0x80: "(a AND 0x80 \<noteq> (0::u8)) = bit a 7"
  using and_exp_eq_0_iff_not_bit[of a 7] by simp

lemma and_1_bit: "(a AND 1 \<noteq> (0::u8)) = bit a 0"
  using and_exp_eq_0_iff_not_bit[of a 0] by simp

lemma xtime_xor: "xtime (a XOR b) = xtime a XOR xtime b"
  by (simp add: xtime_def Let_def and_0x80 bit_xor_iff push_bit_xor ac_simps)

lemma xtime_0 [simp]: "xtime 0 = 0"
  by (simp add: xtime_def)

lemma pmul_0_left [simp]: "pmul n 0 b = 0"
  by (induction n arbitrary: b) simp_all

lemma pmul_0_right [simp]: "pmul n a 0 = 0"
  by (induction n arbitrary: a) simp_all

lemma pmul_xor_left: "pmul n (a XOR c) b = pmul n a b XOR pmul n c b"
  by (induction n arbitrary: a b c) (simp_all add: xtime_xor xor_simps)

lemma pmul_xor_right: "pmul n a (b XOR c) = pmul n a b XOR pmul n a c"
  by (induction n arbitrary: a b c) (auto simp: bit_xor_iff drop_bit_xor xor_simps)

lemma pmul_xtime: "pmul n (xtime a) b = xtime (pmul n a b)"
  by (induction n arbitrary: a b) (simp_all add: xtime_xor)

lemma pmul_exchange: "pmul n (pmul m a c) b = pmul m (pmul n a b) c"
proof (induction n arbitrary: a b)
  case 0
  then show ?case by simp
next
  case (Suc n)
  show ?case
    by (simp add: pmul_xor_left Suc.IH flip: pmul_xtime)
qed

lemma pmul_exp: "i + n \<le> 8 \<Longrightarrow> pmul n (2 ^ i) b = push_bit i (take_bit n b)"
proof (induction n arbitrary: i b)
  case 0
  then show ?case by simp
next
  case (Suc n)
  have x: "pmul n (xtime (2 ^ i)) (drop_bit 1 b) = push_bit (Suc i) (take_bit n (drop_bit 1 b))"
  proof (cases "n = 0")
    case False
    with Suc.prems have "i < 7" by simp
    then have "xtime (2 ^ i) = 2 ^ Suc i"
      by (simp add: xtime_def and_0x80 bit_exp_iff)
    with Suc.IH[of "Suc i" "drop_bit 1 b"] Suc.prems show ?thesis by (simp only:)
  qed simp
  have "push_bit i (take_bit (Suc n) b) =
      push_bit i (of_bool (bit b 0)) XOR push_bit (Suc i) (take_bit n (drop_bit 1 b))"
  proof (rule bit_word_eqI)
    fix m
    assume m: "m < LENGTH(8)"
    have hi: "bit (push_bit (Suc i) (take_bit n (drop_bit 1 b))) m \<longleftrightarrow>
        Suc i \<le> m \<and> m - Suc i < n \<and> bit b (m - i)"
      using m by (auto simp: bit_push_bit_iff bit_take_bit_iff bit_drop_bit_eq Suc_diff_Suc
          simp del: push_bit_Suc)
    show "bit (push_bit i (take_bit (Suc n) b)) m \<longleftrightarrow>
        bit (push_bit i (of_bool (bit b 0)) XOR push_bit (Suc i) (take_bit n (drop_bit 1 b))) m"
      unfolding bit_xor_iff hi using m
      by (cases "m < i"; cases "m = i")
         (auto simp: bit_push_bit_iff bit_take_bit_iff bit_of_bool_iff bit_1_iff)
  qed
  then show ?case unfolding pmul.simps x by (cases "bit b 0") (simp_all add: push_bit_eq_mult)
qed

lemma pmul_1_left [simp]: "pmul 8 1 b = b"
  using pmul_exp[of 0 8 b] by (simp add: take_bit_word_eq_self)

lemma pmul_commute: "pmul 8 a b = pmul 8 b a"
  using pmul_exchange[of 8 8 1 a b] by simp

lemma pmul_1_right [simp]: "pmul 8 a 1 = a"
  by (simp only: pmul_commute[of a 1] pmul_1_left)

lemma pmul_assoc: "pmul 8 (pmul 8 a b) c = pmul 8 a (pmul 8 b c)"
  by (metis pmul_commute pmul_exchange)

lemma gf_mul_slow_loop_pmul:
  "unat b < 2 ^ n \<Longrightarrow> gf_mul_slow_loop r a b = r XOR pmul n a b"
proof (induction n arbitrary: r a b)
  case 0
  then have "b = 0" by (simp add: unat_eq_0)
  then show ?case by (simp add: gf_mul_slow_loop.simps)
next
  case (Suc n)
  have "unat (drop_bit 1 b) < 2 ^ n" using Suc.prems by (simp only: unat_drop_bit_1) simp
  note IH = Suc.IH[OF this]
  show ?case
  proof (cases "b = 0")
    case True
    then show ?thesis by (simp add: gf_mul_slow_loop.simps)
  next
    case False
    then have "gf_mul_slow_loop r a b =
        gf_mul_slow_loop (if b AND 1 \<noteq> 0 then r XOR a else r) (xtime a) (drop_bit 1 b)"
      by (subst gf_mul_slow_loop.simps) (simp add: word_neq_0_conv)
    then show ?thesis by (simp only: IH and_1_bit pmul.simps) (simp add: xor_simps)
  qed
qed

lemma gf_mul_slow_pmul: "gf_mul_slow a b = pmul 8 a b"
  using gf_mul_slow_loop_pmul[of b 8 0 a] unat_lt2p[of b] by (simp add: gf_mul_slow_def)

section \<open>The powers of the generator\<close>

fun gpow :: "nat \<Rightarrow> u8" where
  "gpow 0 = 1"
| "gpow (Suc n) = gf_mul_slow (gpow n) 3"

lemma gpow_add: "gpow (m + n) = pmul 8 (gpow m) (gpow n)"
proof (induction n)
  case 0
  then show ?case by simp
next
  case (Suc n)
  then show ?case by (simp add: gf_mul_slow_pmul pmul_assoc)
qed

lemma gpow_double: "gpow (2 * n) = pmul 8 (gpow n) (gpow n)"
  by (simp add: gpow_add mult_2)

lemma gpow_odd: "gpow (2 * n + 1) = pmul 8 (pmul 8 (gpow n) (gpow n)) 3"
  by (simp add: gpow_add mult_2 gf_mul_slow_pmul)

text \<open>Repeated squaring evaluates the powers that decide the order of the generator.\<close>

lemma gpow_numeral:
  "gpow (numeral Num.One) = 3"
  "gpow (numeral (Num.Bit0 n)) = gf_mul_slow (gpow (numeral n)) (gpow (numeral n))"
  "gpow (numeral (Num.Bit1 n)) = gf_mul_slow (gf_mul_slow (gpow (numeral n)) (gpow (numeral n))) 3"
proof -
  show "gpow (numeral Num.One) = 3" by (simp add: gf_mul_slow_pmul)
  show "gpow (numeral (Num.Bit0 n)) = gf_mul_slow (gpow (numeral n)) (gpow (numeral n))"
    using gpow_double[of "numeral n"] by (simp add: gf_mul_slow_pmul)
  show "gpow (numeral (Num.Bit1 n)) = gf_mul_slow (gf_mul_slow (gpow (numeral n)) (gpow (numeral n))) 3"
    using gpow_odd[of "numeral n"] by (simp add: gf_mul_slow_pmul)
qed

lemmas gf_eval = gf_mul_slow_def gf_mul_slow_loop.simps xtime_def

lemma gpow_255: "gpow 255 = 1"
  by (simp add: gpow_numeral gf_eval)

lemma gpow_divisors: "gpow 85 \<noteq> 1" "gpow 51 \<noteq> 1" "gpow 15 \<noteq> 1"
  by (simp_all add: gpow_numeral gf_eval)

lemma gpow_mult: "gpow d = 1 \<Longrightarrow> gpow (d * q) = 1"
  by (induction q) (simp_all add: gpow_add)

lemma dvd_255: "e dvd 255 \<Longrightarrow> e < (255 :: nat) \<Longrightarrow> e dvd 85 \<or> e dvd 51 \<or> e dvd 15"
proof -
  have "list_all (\<lambda>e. e dvd 255 \<longrightarrow> e dvd 85 \<or> e dvd 51 \<or> e dvd 15) [1..<255::nat]"
    by code_simp
  moreover assume "e dvd 255" "e < 255"
  moreover from this have "e \<noteq> 0" by auto
  ultimately show ?thesis by (auto simp: list_all_iff)
qed

lemma gpow_order: "0 < d \<Longrightarrow> d < 255 \<Longrightarrow> gpow d \<noteq> 1"
proof
  assume d: "0 < d" "d < 255" "gpow d = 1"
  then obtain x y where xy: "d * x = 255 * y + gcd d 255" using bezout_nat[of d 255] by auto
  have "gpow (255 * y + gcd d 255) = 1" using gpow_mult[OF d(3), of x] xy by simp
  then have e: "gpow (gcd d 255) = 1" by (simp add: gpow_add gpow_mult[OF gpow_255])
  have "gcd d 255 < 255" using d gcd_le1_nat[of d 255] by linarith
  then have "gcd d 255 dvd 85 \<or> gcd d 255 dvd 51 \<or> gcd d 255 dvd 15"
    using d(2) by (intro dvd_255) simp_all
  then show False using gpow_mult[OF e] gpow_divisors by (metis dvdE)
qed

lemma gpow_nonzero: "gpow n \<noteq> 0"
proof
  assume "gpow n = 0"
  then have "gpow (n + 254 * n) = 0" by (simp only: gpow_add pmul_0_left)
  moreover have "gpow (255 * n) = 1" by (rule gpow_mult[OF gpow_255])
  ultimately show False by simp
qed

lemma gpow_less_neq: "i < j \<Longrightarrow> j < 255 \<Longrightarrow> gpow i \<noteq> gpow j"
proof
  assume ij: "i < j" "j < 255" "gpow i = gpow j"
  have "gpow (i + (255 - i)) = gpow (j + (255 - i))" by (simp only: gpow_add ij(3))
  moreover have "i + (255 - i) = 255" "j + (255 - i) = (j - i) + 255" using ij by auto
  ultimately have "pmul 8 (gpow (j - i)) 1 = 1" by (simp only: gpow_add gpow_255)
  then have "gpow (j - i) = 1" by (simp only: pmul_1_right)
  then show False using gpow_order[of "j - i"] ij by simp
qed

lemma gpow_inj: "inj_on gpow {..<255}"
  by (rule inj_onI) (metis gpow_less_neq lessThan_iff linorder_neqE_nat)

lemma gpow_surj: "gpow ` {..<255} = - {0}"
proof (rule card_subset_eq)
  show "gpow ` {..<255} \<subseteq> - {0}" using gpow_nonzero by auto
  show "card (gpow ` {..<255}) = card (- {0 :: u8})"
    by (simp add: card_image gpow_inj Compl_eq_Diff_UNIV card_Diff_singleton card_word)
qed simp

lemma gpow_exists: "a \<noteq> 0 \<Longrightarrow> \<exists>k < 255. a = gpow k"
proof -
  assume "a \<noteq> 0"
  then have "a \<in> gpow ` {..<255}" unfolding gpow_surj by simp
  then show ?thesis by (rule imageE) (use lessThan_iff in blast)
qed

section \<open>Correctness of the tables\<close>

lemma build_exp_loop_nth:
  "i \<le> 255 \<Longrightarrow> length t = 512 \<Longrightarrow>
   length (build_exp_loop t (gpow i) i) = 512 \<and>
   (\<forall>j < 512. build_exp_loop t (gpow i) i ! j =
      (if i \<le> j \<and> j < 255 then gpow j else if i + 255 \<le> j \<and> j < 510 then gpow (j - 255) else t ! j))"
proof (induction t "gpow i" i rule: build_exp_loop.induct)
  case (1 t i)
  show ?case
  proof (cases "i < 255")
    case True
    have nx: "gf_mul_slow (gpow i) 3 = gpow (i + 1)" by simp
    have e1: "gpow i = gpow (j - 255)" if "\<not> 256 + i \<le> j" "i + 255 \<le> j" for j
    proof -
      from that have "j = i + 255" by linarith
      then show ?thesis by simp
    qed
    have e2: "gpow i = gpow j" if "\<not> Suc i \<le> j" "i \<le> j" for j
      using that by (simp add: not_le less_Suc_eq_le)
    from nx e1 e2 1(1)[OF True nx] 1(2,3) True show ?thesis
      by (subst (1 2) build_exp_loop.simps) (auto simp: nth_list_update)
  next
    case False
    with 1(2,3) show ?thesis by (subst (1 2) build_exp_loop.simps) auto
  qed
qed

lemma gpow_minus_255: "255 \<le> j \<Longrightarrow> gpow (j - 255) = gpow j"
  using gpow_add[of "j - 255" 255] by (simp only: le_add_diff_inverse2 gpow_255 pmul_1_right)

lemma build_exp_table_facts:
  "length EXP_TABLE = 512" "j < 511 \<Longrightarrow> EXP_TABLE ! j = gpow j" "EXP_TABLE ! 511 = 0"
proof -
  define z where "z = replicate 512 (0 :: u8)"
  define t where "t = build_exp_loop z 1 0"
  have z: "length z = 512" "\<forall>j < 512. z ! j = 0" unfolding z_def by (simp_all only: length_replicate nth_replicate) simp
  have t: "length t = 512" "\<And>j. j < 512 \<Longrightarrow>
      t ! j = (if j < 255 then gpow j else if j < 510 then gpow (j - 255) else 0)"
    using build_exp_loop_nth[of 0 z] z by (auto simp: t_def)
  have e: "EXP_TABLE = (t[255 := 1])[510 := 1]"
    by (simp only: EXP_TABLE_def build_exp_table_def t_def z_def)
  show "length EXP_TABLE = 512" by (simp add: e t)
  have "gpow 510 = 1" using gpow_minus_255[of 510] by (simp add: gpow_255)
  then show "EXP_TABLE ! j = gpow j" if "j < 511"
    using that gpow_minus_255[of j] by (auto simp: e t nth_list_update gpow_255)
  show "EXP_TABLE ! 511 = 0" by (simp add: e t nth_list_update)
qed

lemmas length_EXP_TABLE [simp] = build_exp_table_facts(1)
lemmas EXP_TABLE_nth = build_exp_table_facts(2)
lemmas EXP_TABLE_511 = build_exp_table_facts(3)

lemma build_log_loop_nth:
  "i \<le> 255 \<Longrightarrow> length t = 256 \<Longrightarrow> \<forall>j < 255. e ! j = gpow j \<Longrightarrow>
   length (build_log_loop e t i) = 256 \<and> build_log_loop e t i ! 0 = t ! 0 \<and>
   (\<forall>k < 255. build_log_loop e t i ! unat (gpow k) = (if i \<le> k then of_nat k else t ! unat (gpow k)))"
proof (induction e t i rule: build_log_loop.induct)
  case (1 e t i)
  show ?case
  proof (cases "i < 255")
    case True
    have b: "unat (gpow k) < 256" for k using unat_lt2p[of "gpow k"] by simp
    have eq: "unat (gpow i) = unat (gpow k) \<longleftrightarrow> i = k" if "k < 255" for k
      using True that inj_onD[OF gpow_inj, of i k] by (auto simp flip: word_unat_eq_iff)
    have nz: "unat (gpow i) \<noteq> 0" using gpow_nonzero by (simp add: unat_eq_0)
    have "of_nat i = (of_nat k :: u8)" if "\<not> Suc i \<le> k" "i \<le> k" for k
      using that by (simp add: not_le less_Suc_eq_le)
    with 1(1)[OF True] 1(2-4) True b eq nz show ?thesis
      by (subst (1 2 3) build_log_loop.simps) (auto simp: nth_list_update)
  next
    case False
    with 1(2-4) show ?thesis by (subst (1 2 3) build_log_loop.simps) auto
  qed
qed

lemma LOG_TABLE_facts:
  "length LOG_TABLE = 256" "LOG_TABLE ! 0 = 0" "k < 255 \<Longrightarrow> LOG_TABLE ! unat (gpow k) = of_nat k"
proof -
  define z where "z = replicate 256 (0 :: u8)"
  have z: "length z = 256" "z ! 0 = 0" unfolding z_def by (simp_all only: length_replicate) (simp add: nth_replicate)
  have l: "LOG_TABLE = build_log_loop EXP_TABLE z 0"
    by (simp only: LOG_TABLE_def build_log_table_def z_def)
  show "length LOG_TABLE = 256" "LOG_TABLE ! 0 = 0"
    "k < 255 \<Longrightarrow> LOG_TABLE ! unat (gpow k) = of_nat k"
    using build_log_loop_nth[of 0 z EXP_TABLE] z by (simp_all add: l EXP_TABLE_nth)
qed

lemma unat_LOG_TABLE: "k < 255 \<Longrightarrow> unat (LOG_TABLE ! unat (gpow k)) = k"
  by (simp add: LOG_TABLE_facts unat_of_nat)

lemma LOG_TABLE_lt: "unat (LOG_TABLE ! unat (a :: u8)) < 255"
proof (cases "a = 0")
  case True
  then show ?thesis by (simp add: LOG_TABLE_facts)
next
  case False
  then show ?thesis using gpow_exists[of a] unat_LOG_TABLE by auto
qed

lemma EXP_LOG: "a \<noteq> 0 \<Longrightarrow> gpow (unat (LOG_TABLE ! unat a)) = a"
  using gpow_exists[of a] unat_LOG_TABLE by auto

lemma gf_mul_pmul: "gf_mul a b = pmul 8 a b"
  using LOG_TABLE_lt[of a] LOG_TABLE_lt[of b]
  by (auto simp: gf_mul_def Let_def EXP_TABLE_nth gpow_add EXP_LOG)

lemma gf_inv_pmul: "a \<noteq> 0 \<Longrightarrow> pmul 8 a (gf_inv a) = 1"
proof -
  assume a: "a \<noteq> 0"
  let ?l = "unat (LOG_TABLE ! unat a)"
  have "pmul 8 a (gf_inv a) = pmul 8 (gpow ?l) (gpow (255 - ?l))"
    using LOG_TABLE_lt[of a] a by (simp add: gf_inv_def EXP_TABLE_nth EXP_LOG)
  also have "\<dots> = gpow (?l + (255 - ?l))" by (rule gpow_add [symmetric])
  also have "\<dots> = 1" using LOG_TABLE_lt[of a] gpow_255 by simp
  finally show ?thesis .
qed

lemma gf_div_pmul: "b \<noteq> 0 \<Longrightarrow> gf_div a b = pmul 8 a (gf_inv b)"
proof -
  assume b: "b \<noteq> 0"
  let ?a = "unat (LOG_TABLE ! unat a)" and ?b = "unat (LOG_TABLE ! unat b)"
  have e: "?a + 255 - ?b = ?a + (255 - ?b)" using LOG_TABLE_lt[of b] by simp
  have "gpow (?a + 255 - ?b) = pmul 8 (gpow ?a) (gpow (255 - ?b))" unfolding e by (rule gpow_add)
  then show ?thesis using LOG_TABLE_lt[of a] LOG_TABLE_lt[of b]
    by (simp add: gf_div_def gf_inv_def Let_def EXP_TABLE_nth EXP_LOG)
qed

section \<open>The field GF(2^8) as an instance of the library class\<close>

typedef gf256 = "UNIV :: u8 set"
  morphisms of_gf to_gf ..

setup_lifting type_definition_gf256

instantiation gf256 :: field
begin

lift_definition zero_gf256 :: gf256 is 0 .
lift_definition one_gf256 :: gf256 is 1 .
lift_definition plus_gf256 :: "gf256 \<Rightarrow> gf256 \<Rightarrow> gf256" is "\<lambda>a b. a XOR b" .
lift_definition minus_gf256 :: "gf256 \<Rightarrow> gf256 \<Rightarrow> gf256" is "\<lambda>a b. a XOR b" .
lift_definition uminus_gf256 :: "gf256 \<Rightarrow> gf256" is "\<lambda>a. a" .
lift_definition times_gf256 :: "gf256 \<Rightarrow> gf256 \<Rightarrow> gf256" is "pmul 8" .
lift_definition inverse_gf256 :: "gf256 \<Rightarrow> gf256" is "\<lambda>a. if a = 0 then 0 else gf_inv a" .

definition divide_gf256 :: "gf256 \<Rightarrow> gf256 \<Rightarrow> gf256" where
  "divide_gf256 a b = a * inverse b"

instance
proof
  fix a b c :: gf256
  show "a + b + c = a + (b + c)" by transfer (simp add: xor_simps)
  show "a + b = b + a" by transfer (simp add: xor_simps)
  show "0 + a = a" by transfer simp
  show "- a + a = 0" by transfer simp
  show "a - b = a + - b" by transfer simp
  show "a * b * c = a * (b * c)" by transfer (rule pmul_assoc)
  show "a * b = b * a" by transfer (rule pmul_commute)
  show "1 * a = a" by transfer simp
  show "(a + b) * c = a * c + b * c" by transfer (rule pmul_xor_left)
  show "(0 :: gf256) \<noteq> 1" by transfer simp
  show "a \<noteq> 0 \<Longrightarrow> inverse a * a = 1" by transfer (simp add: pmul_commute[of _ a for a] gf_inv_pmul)
  show "a div b = a * inverse b" by (rule divide_gf256_def)
  show "inverse (0 :: gf256) = 0" by transfer simp
qed

end

named_theorems gf_simps \<open>homomorphism from bytes to the field\<close>

lemma to_gf_inject [simp]: "to_gf a = to_gf b \<longleftrightarrow> a = b"
  by (simp add: to_gf_inject)

lemma to_gf_eqI: "to_gf a = to_gf b \<Longrightarrow> a = b"
  by simp

lemma to_gf_hom [gf_simps]:
  "to_gf 0 = 0" "to_gf 1 = 1" "to_gf (a XOR b) = to_gf a + to_gf b"
  "to_gf (gf_add a b) = to_gf a + to_gf b"
  "to_gf (gf_mul a b) = to_gf a * to_gf b"
  "to_gf (gf_mul_slow a b) = to_gf a * to_gf b"
  by (simp_all add: zero_gf256_def one_gf256_def plus_gf256.abs_eq times_gf256.abs_eq gf_add_def
      gf_mul_pmul gf_mul_slow_pmul eq_onp_same_args)

lemma to_gf_eq_0 [simp]: "to_gf a = 0 \<longleftrightarrow> a = 0"
  by (metis to_gf_hom(1) GF256.to_gf_inject)

lemma to_gf_inv [gf_simps]: "a \<noteq> 0 \<Longrightarrow> to_gf (gf_inv a) = inverse (to_gf a)"
  by (simp add: inverse_gf256.abs_eq eq_onp_same_args)

lemma gf256_add_self [simp]: "x + x = (0 :: gf256)"
  by transfer simp

lemma gf256_minus: "x - y = x + (y :: gf256)"
  by transfer simp

lemma gf256_uminus [simp]: "- x = (x :: gf256)"
  by transfer simp

lemma gf256_add_cancel [simp]: "x + (x + y) = (y :: gf256)"
  by (simp flip: add.assoc)

section \<open>The multiplication interface\<close>

text \<open>
  The program has four routines for the product of two bytes: the table look-up
  \<open>gf_mul\<close>, the loop \<open>gf_mul_slow\<close>, and the loops of \<open>hommac.rs\<close> and \<open>piece.rs\<close>.  What their
  callers rely on is that the routine is the field product.
\<close>

locale byte_product =
  fixes mul :: "u8 \<Rightarrow> u8 \<Rightarrow> u8"
  assumes to_gf_mul: "to_gf (mul a b) = to_gf a * to_gf b"
begin

lemma mul_eq_gf_mul: "mul = gf_mul"
  by (intro ext to_gf_eqI) (simp add: to_gf_mul to_gf_hom)

lemma mul_commute: "mul a b = mul b a"
  by (rule to_gf_eqI) (simp add: to_gf_mul mult.commute)

lemma mul_assoc: "mul (mul a b) c = mul a (mul b c)"
  by (rule to_gf_eqI) (simp add: to_gf_mul mult.assoc)

lemma mul_xor_right: "mul a (b XOR c) = mul a b XOR mul a c"
  by (rule to_gf_eqI) (simp add: to_gf_mul to_gf_hom distrib_left)

lemma mul_units: "mul 1 a = a" "mul a 1 = a" "mul 0 a = 0" "mul a 0 = 0"
  by (rule to_gf_eqI, simp add: to_gf_mul to_gf_hom)+

lemma mul_inverse: "a \<noteq> 0 \<Longrightarrow> mul a (gf_inv a) = 1"
  by (rule to_gf_eqI) (simp add: to_gf_mul to_gf_inv to_gf_hom)

lemma mul_eq_0_iff: "mul a b = 0 \<longleftrightarrow> a = 0 \<or> b = 0"
  by (metis to_gf_mul to_gf_eq_0 mult_eq_0_iff)

end

interpretation tab: byte_product gf_mul
  by unfold_locales (rule to_gf_hom)

interpretation slow: byte_product gf_mul_slow
  by unfold_locales (rule to_gf_hom)

section \<open>The fused multiply-add\<close>

lemma length_zip_with_keep [simp]: "length (zip_with_keep f ds ss) = length ds"
  by (induction f ds ss rule: zip_with_keep.induct) simp_all

lemma zip_with_keep_nth:
  "i < length ds \<Longrightarrow> i < length ss \<Longrightarrow> zip_with_keep f ds ss ! i = f (ds ! i) (ss ! i)"
proof (induction f ds ss arbitrary: i rule: zip_with_keep.induct)
  case (1 f d ds s ss)
  then show ?case by (cases i) simp_all
qed simp_all

lemma zip_with_keep_ident: "(\<And>d s. f d s = d) \<Longrightarrow> zip_with_keep f ds ss = ds"
  by (induction f ds ss rule: zip_with_keep.induct) simp_all

lemma gf_vec_mul_add_eq: "gf_vec_mul_add dst src c = zip_with_keep (\<lambda>d s. d XOR gf_mul c s) dst src"
proof -
  consider "c = 0" | "c = 1" | "c \<noteq> 0" "c \<noteq> 1" by blast
  then show ?thesis
  proof cases
    case 1
    then show ?thesis by (simp add: gf_vec_mul_add_def tab.mul_units zip_with_keep_ident)
  next
    case 2
    then show ?thesis by (simp add: gf_vec_mul_add_def tab.mul_units)
  next
    case 3
    then have "(\<lambda>d s. if s \<noteq> 0 then d XOR EXP_TABLE ! (unat (LOG_TABLE ! unat c) + unat (LOG_TABLE ! unat s)) else d) =
        (\<lambda>d s. d XOR gf_mul c s)"
      by (intro ext) (simp add: gf_mul_def)
    with 3 show ?thesis unfolding gf_vec_mul_add_def Let_def by simp
  qed
qed

lemma length_gf_vec_mul_add [simp]: "length (gf_vec_mul_add dst src c) = length dst"
  by (simp add: gf_vec_mul_add_eq)

lemma gf_vec_mul_add_nth:
  "j < length dst \<Longrightarrow> j < length src \<Longrightarrow> gf_vec_mul_add dst src c ! j = dst ! j XOR gf_mul c (src ! j)"
  by (simp add: gf_vec_mul_add_eq zip_with_keep_nth)

lemma to_gf_vec_mul_add_nth [gf_simps]:
  "j < length dst \<Longrightarrow> j < length src \<Longrightarrow>
   to_gf (gf_vec_mul_add dst src c ! j) = to_gf (dst ! j) + to_gf c * to_gf (src ! j)"
  by (simp add: gf_vec_mul_add_nth to_gf_hom)

section \<open>Properties\<close>

text \<open>
  C36. The table-driven product \<open>gf_mul\<close> is the product of polynomials over GF(2) modulo
  x^8 + x^4 + x^3 + x + 1 as the shift-and-reduce loop \<open>gf_mul_slow\<close> computes it, for all
  65536 pairs of operands, and it makes the bytes with \<open>gf_add\<close> a field: it is commutative and
  associative, distributes over \<open>gf_add\<close>, has the unit 1, no zero divisors, and \<open>gf_inv\<close> gives
  the inverse of every non-zero byte.
\<close>

theorem gf_mul_field:
  "gf_mul a b = gf_mul_slow a b \<and> gf_mul a b = gf_mul b a \<and>
   gf_mul (gf_mul a b) c = gf_mul a (gf_mul b c) \<and>
   gf_mul a (gf_add b c) = gf_add (gf_mul a b) (gf_mul a c) \<and>
   gf_mul 1 a = a \<and> (gf_mul a b = 0 \<longleftrightarrow> a = 0 \<or> b = 0) \<and>
   (if a = 0 then gf_inv a = 1 else gf_mul a (gf_inv a) = 1)"
proof -
  have "gf_inv 0 = 1" by (simp add: gf_inv_def LOG_TABLE_facts EXP_TABLE_nth gpow_255)
  then have "if a = 0 then gf_inv a = 1 else gf_mul a (gf_inv a) = 1"
    by (simp add: tab.mul_inverse)
  then show ?thesis
    by (intro conjI tab.mul_commute tab.mul_assoc tab.mul_eq_0_iff tab.mul_units(1))
       (simp_all only: slow.mul_eq_gf_mul gf_add_def tab.mul_xor_right)
qed

text \<open>
  Division undoes multiplication: for a non-zero divisor \<open>gf_div a b\<close> is the only byte whose
  product with \<open>b\<close> is \<open>a\<close>.  For the divisor zero the release build returns the dividend itself.
\<close>

theorem gf_div_correct:
  "(if b = 0 then gf_div a b = a else \<forall>q. (q = gf_div a b) = (gf_mul q b = a))"
proof (cases "b = 0")
  case True
  have "gf_div a 0 = a"
    using LOG_TABLE_lt[of a] gpow_add[of "unat (LOG_TABLE ! unat a)" 255]
    by (simp add: gf_div_def LOG_TABLE_facts EXP_TABLE_nth gpow_255 EXP_LOG)
  with True show ?thesis by simp
next
  case False
  then have "gf_div a b = gf_mul a (gf_inv b)" by (simp add: gf_div_pmul gf_mul_pmul)
  moreover have "gf_mul (gf_mul a (gf_inv b)) b = a" "gf_mul (gf_mul q b) (gf_inv b) = q" for q
    by (simp_all add: tab.mul_assoc tab.mul_inverse[OF False] tab.mul_commute[of "gf_inv b" b]
        tab.mul_units)
  ultimately show ?thesis using False by auto
qed

text \<open>
  No table access is out of range: for all operands the indices that \<open>gf_mul\<close>, \<open>gf_div\<close>,
  \<open>gf_inv\<close> and \<open>gf_vec_mul_add\<close> compute lie inside the 256-entry and the 512-entry table, and the
  subtractions in \<open>gf_div\<close> and \<open>gf_inv\<close> do not underflow.
\<close>

theorem gf_table_bounds:
  "length LOG_TABLE = 256 \<and> length EXP_TABLE = 512 \<and> unat (a :: u8) < 256 \<and>
   unat (LOG_TABLE ! unat a) + unat (LOG_TABLE ! unat b) \<le> 508 \<and>
   unat (LOG_TABLE ! unat b) \<le> 255 \<and>
   unat (LOG_TABLE ! unat a) + 255 - unat (LOG_TABLE ! unat b) < 512"
  for b :: u8
  using LOG_TABLE_lt[of a] LOG_TABLE_lt[of b] unat_lt2p[of a] by (simp add: LOG_TABLE_facts)

text \<open>
  The doubled exponential table repeats with period 255 on the indices 0 to 510, and its
  last entry does not: \<open>EXP_TABLE[511]\<close> is zero although \<open>EXP_TABLE[511 mod 255]\<close> is 3.
\<close>

theorem EXP_TABLE_period:
  "(\<forall>i < 511. EXP_TABLE ! i = EXP_TABLE ! (i mod 255)) \<and> EXP_TABLE ! 511 = 0 \<and> EXP_TABLE ! (511 mod 255) = 3"
proof -
  have p: "gpow (i mod 255) = gpow i" for i
    using gpow_add[of "255 * (i div 255)" "i mod 255"] by (simp add: gpow_mult[OF gpow_255])
  have "\<forall>i < 511. EXP_TABLE ! i = EXP_TABLE ! (i mod 255)"
  proof (intro allI impI)
    fix i :: nat
    assume "i < 511"
    moreover
    have "i mod 255 < 511" using mod_less_divisor[of 255 i] by linarith
    ultimately show "EXP_TABLE ! i = EXP_TABLE ! (i mod 255)" by (simp only: EXP_TABLE_nth p)
  qed
  moreover have "EXP_TABLE ! (511 mod 255) = 3" using gpow_numeral(1) by (simp add: EXP_TABLE_nth)
  ultimately show ?thesis using EXP_TABLE_511 by blast
qed

theorem EXP_TABLE_period_witness: "EXP_TABLE ! 510 = EXP_TABLE ! (510 mod 255)"
  using conjunct1 [OF EXP_TABLE_period, rule_format, of 510] by simp

end
