(* ===== verification/Types.thy ===== *)
theory Types
  imports GF256
begin

text \<open>
  The data types shared by all crates (\<open>craftec-types/src/cid.rs\<close>, \<open>identity.rs\<close>,
  \<open>error.rs\<close> and \<open>piece.rs\<close>): content identifiers, node identities, piece identifiers, coded pieces with their integrity checks, and the piece index.
  BLAKE3 is not part of the repository; it is the parameter record \<open>blake3\<close>: the 32-byte hash
  and the extendable output, a stream of bytes for every input.  The \<open>hex\<close> crate is the record
  \<open>hex_api\<close>.
\<close>

section \<open>Libraries the types call\<close>

record blake3 =
  b3_hash :: "bytes \<Rightarrow> bytes"
  b3_xof :: "bytes \<Rightarrow> nat \<Rightarrow> u8"

text \<open>The digest of BLAKE3 has 32 bytes.\<close>

definition blake3_ok :: "blake3 \<Rightarrow> bool" where
  "blake3_ok B \<longleftrightarrow> (\<forall>x. length (b3_hash B x) = 32)"

record hex_api =
  hex_encode :: "bytes \<Rightarrow> string"
  hex_decode :: "string \<Rightarrow> bytes option"

text \<open>Decoding the lower-case hexadecimal text of some bytes gives the bytes back.\<close>

definition hex_ok :: "hex_api \<Rightarrow> bool" where
  "hex_ok H \<longleftrightarrow> (\<forall>x. hex_decode H (hex_encode H x) = Some x)"

section \<open>Content identifiers\<close>

datatype cid = Cid (cid_bytes: bytes)

definition CID_SIZE :: nat where
  "CID_SIZE = 32"

definition cid_wf :: "cid \<Rightarrow> bool" where
  "cid_wf c \<longleftrightarrow> length (cid_bytes c) = CID_SIZE"

definition cid_from_data :: "blake3 \<Rightarrow> bytes \<Rightarrow> cid" where
  "cid_from_data B d = Cid (b3_hash B d)"

definition cid_verify :: "blake3 \<Rightarrow> cid \<Rightarrow> bytes \<Rightarrow> bool" where
  "cid_verify B c d = (cid_from_data B d = c)"

datatype craftec_error =
    StorageError string
  | NetworkError string
  | CodingError string
  | IdentityError string
  | DatabaseError string
  | WasmError string
  | IoError string
  | SerializationError string

definition cid_display :: "hex_api \<Rightarrow> cid \<Rightarrow> string" where
  "cid_display H c = hex_encode H (cid_bytes c)"

definition cid_from_str :: "hex_api \<Rightarrow> string \<Rightarrow> (cid, craftec_error) result" where
  "cid_from_str H s =
     (case hex_decode H s of
        None \<Rightarrow> Inl (IdentityError ''invalid CID hex'')
      | Some bs \<Rightarrow>
          if length bs \<noteq> CID_SIZE then Inl (IdentityError ''CID must be 32 bytes'') else Inr (Cid bs))"

section \<open>Node identity\<close>

text \<open>
  The signature scheme of \<open>ed25519-dalek\<close> is a parameter: the public key of a secret, signing,
  whether 32 bytes decompress to a public key, and verification.
\<close>

record ed25519 =
  ed_public :: "bytes \<Rightarrow> bytes"
  ed_sign :: "bytes \<Rightarrow> bytes \<Rightarrow> bytes"
  ed_key_ok :: "bytes \<Rightarrow> bool"
  ed_verify :: "bytes \<Rightarrow> bytes \<Rightarrow> bytes \<Rightarrow> bool"

text \<open>A public key derived from a secret parses, and it verifies what the secret signed.\<close>

definition ed25519_ok :: "ed25519 \<Rightarrow> bool" where
  "ed25519_ok E \<longleftrightarrow> (\<forall>sk. length (ed_public E sk) = 32 \<and> ed_key_ok E (ed_public E sk) \<and>
     (\<forall>msg. ed_verify E (ed_public E sk) msg (ed_sign E sk msg)))"

datatype node_id = NodeId (node_id_bytes: bytes)
datatype signature = Signature (signature_bytes: bytes)
datatype node_keypair = NodeKeypair (secret_bytes: bytes)

definition node_id_from_slice :: "bytes \<Rightarrow> (node_id, craftec_error) result" where
  "node_id_from_slice b = (if length b \<noteq> 32 then Inl (IdentityError ''NodeId must be 32 bytes'') else Inr (NodeId b))"

definition keypair_node_id :: "ed25519 \<Rightarrow> node_keypair \<Rightarrow> node_id" where
  "keypair_node_id E kp = NodeId (ed_public E (secret_bytes kp))"

definition keypair_sign :: "ed25519 \<Rightarrow> node_keypair \<Rightarrow> bytes \<Rightarrow> signature" where
  "keypair_sign E kp msg = Signature (ed_sign E (secret_bytes kp) msg)"

definition identity_verify :: "ed25519 \<Rightarrow> bytes \<Rightarrow> signature \<Rightarrow> node_id \<Rightarrow> bool" where
  "identity_verify E msg sig nid =
     (if \<not> ed_key_ok E (node_id_bytes nid) then False
      else ed_verify E (node_id_bytes nid) msg (signature_bytes sig))"

section \<open>Coded pieces\<close>

definition K_DEFAULT :: nat where "K_DEFAULT = 32"
definition PAGE_SIZE :: nat where "PAGE_SIZE = 16384"

datatype piece_id = PieceId (piece_id_bytes: bytes)

definition piece_id_from_data :: "blake3 \<Rightarrow> bytes \<Rightarrow> piece_id" where
  "piece_id_from_data B d = PieceId (b3_hash B d)"

record coded_piece =
  piece_id :: piece_id
  cid :: cid
  coding_vector :: bytes
  data :: bytes
  hommac_tag :: bytes

definition coded_piece_new :: "blake3 \<Rightarrow> cid \<Rightarrow> bytes \<Rightarrow> bytes \<Rightarrow> bytes \<Rightarrow> coded_piece" where
  "coded_piece_new B c cv d tag =
     (let piece_bytes = cv @ d; pid = piece_id_from_data B piece_bytes
      in \<lparr>piece_id = pid, cid = c, coding_vector = cv, data = d, hommac_tag = tag\<rparr>)"

definition verify_piece_id :: "blake3 \<Rightarrow> coded_piece \<Rightarrow> bool" where
  "verify_piece_id B p = (piece_id_from_data B (coding_vector p @ data p) = piece_id p)"

text \<open>The product routine of \<open>piece.rs\<close>: always eight rounds.\<close>

fun gf256_mul_loop :: "nat \<Rightarrow> u8 \<Rightarrow> u8 \<Rightarrow> u8 \<Rightarrow> u8" where
  "gf256_mul_loop 0 result aa bb = result"
| "gf256_mul_loop (Suc n) result aa bb =
     (let result' = (if bb AND 1 \<noteq> 0 then result XOR aa else result);
          high_bit = aa AND 0x80;
          aa1 = push_bit 1 aa;
          aa' = (if high_bit \<noteq> 0 then aa1 XOR 0x1B else aa1);
          bb' = drop_bit 1 bb
      in gf256_mul_loop n result' aa' bb')"

definition gf256_mul_0x11b :: "u8 \<Rightarrow> u8 \<Rightarrow> u8" where
  "gf256_mul_0x11b a b = gf256_mul_loop 8 0 a b"

text \<open>
  The inner loop of the tag computation over the chunks of one byte string.  The state is the
  position in the output stream, the buffer \<open>r_buf\<close> and the accumulator; \<open>fill\<close> overwrites the
  prefix of the buffer that the chunk needs.
\<close>

definition xof_fill :: "(nat \<Rightarrow> u8) \<Rightarrow> nat \<Rightarrow> nat \<Rightarrow> bytes \<Rightarrow> bytes" where
  "xof_fill s pos n buf = map s [pos..<pos + n] @ drop n buf"

definition mac_chunk ::
  "(u8 \<Rightarrow> u8 \<Rightarrow> u8) \<Rightarrow> (nat \<Rightarrow> u8) \<Rightarrow> nat \<times> bytes \<times> u8 \<Rightarrow> bytes \<Rightarrow> nat \<times> bytes \<times> u8" where
  "mac_chunk mul s st chunk =
     (case st of (pos, r_buf, acc) \<Rightarrow>
        let r_buf' = xof_fill s pos (length chunk) r_buf
        in (pos + length chunk, r_buf', foldl (\<lambda>acc (r, c). acc XOR mul r c) acc (zip r_buf' chunk)))"

definition mac_byte :: "(u8 \<Rightarrow> u8 \<Rightarrow> u8) \<Rightarrow> (nat \<Rightarrow> u8) \<Rightarrow> bytes \<Rightarrow> bytes \<Rightarrow> u8" where
  "mac_byte mul s cv d =
     (let st0 = (0, replicate 256 0, 0);
          st1 = foldl (mac_chunk mul s) st0 (chunks 256 cv);
          st2 = foldl (mac_chunk mul s) st1 (chunks 256 d)
      in snd (snd st2))"

definition verify_mac :: "blake3 \<Rightarrow> coded_piece \<Rightarrow> bool" where
  "verify_mac B p =
     (let key = cid_bytes (cid p);
          tag = map (\<lambda>j. mac_byte gf256_mul_0x11b (b3_xof B (key @ [of_nat j])) (coding_vector p) (data p)) [0..<32]
      in tag = hommac_tag p)"

section \<open>Piece index\<close>

record piece_index =
  pi_cid :: cid
  piece_count :: u32
  original_size :: u64

definition piece_index_new :: "cid \<Rightarrow> u32 \<Rightarrow> u64 \<Rightarrow> piece_index" where
  "piece_index_new c n sz = \<lparr>pi_cid = c, piece_count = n, original_size = sz\<rparr>"

section \<open>Events\<close>

text \<open>The internal events; the disk usage, an \<open>f64\<close>, is carried as its 64 bits.\<close>

datatype event =
    CidWritten cid
  | PageCommitted cid u32 cid
  | PeerConnected node_id
  | PeerDisconnected node_id
  | RepairNeeded cid u32 u32
  | DiskWatermarkHit u64
  | ShutdownSignal

section \<open>The eight-round product is the field product\<close>

lemma gf256_mul_loop_pmul: "gf256_mul_loop n r a b = r XOR pmul n a b"
proof (induction n arbitrary: r a b)
  case 0
  then show ?case by simp
next
  case (Suc n)
  have "gf256_mul_loop (Suc n) r a b =
      gf256_mul_loop n (if b AND 1 \<noteq> 0 then r XOR a else r) (xtime a) (drop_bit 1 b)"
    by (simp only: gf256_mul_loop.simps xtime_def Let_def)
  then show ?case by (simp only: Suc.IH and_1_bit pmul.simps) (simp add: xor_simps)
qed

interpretation piece_mul: byte_product gf256_mul_0x11b
  by unfold_locales (simp add: gf256_mul_0x11b_def gf256_mul_loop_pmul times_gf256.abs_eq eq_onp_same_args)

section \<open>The tag is an inner product\<close>

text \<open>The inner product of a stream with a byte string, from a position on.\<close>

definition dotg :: "(nat \<Rightarrow> u8) \<Rightarrow> nat \<Rightarrow> bytes \<Rightarrow> gf256" where
  "dotg s pos xs = (\<Sum>i<length xs. to_gf (s (pos + i)) * to_gf (xs ! i))"

lemma dotg_Nil [simp]: "dotg s pos [] = 0"
  by (simp add: dotg_def)

lemma dotg_append: "dotg s pos (xs @ ys) = dotg s pos xs + dotg s (pos + length xs) ys"
proof (induction ys rule: rev_induct)
  case Nil
  then show ?case by simp
next
  case (snoc y ys)
  have "dotg s pos (zs @ [z]) = dotg s pos zs + to_gf (s (pos + length zs)) * to_gf z" for zs z pos
    by (simp add: dotg_def nth_append)
  from this[of pos "xs @ ys" y] this[of "pos + length xs" ys y] snoc show ?case
    by (simp add: add.assoc)
qed

context byte_product
begin

lemma to_gf_mac_fold:
  "length rs = length cs \<Longrightarrow>
   to_gf (foldl (\<lambda>acc (r, c). acc XOR mul r c) acc (zip rs cs)) =
   to_gf acc + (\<Sum>i<length cs. to_gf (rs ! i) * to_gf (cs ! i))"
proof (induction rs cs arbitrary: acc rule: list_induct2)
  case Nil
  then show ?case by simp
next
  case (Cons r rs c cs)
  then show ?case
    by (simp add: sum.lessThan_Suc_shift to_gf_mul to_gf_hom add.assoc del: sum.lessThan_Suc)
qed

lemma mac_chunk_dotg:
  assumes "length chunk \<le> 256" "length r_buf = 256"
  shows "\<exists>r_buf' acc'. mac_chunk mul s (pos, r_buf, acc) chunk = (pos + length chunk, r_buf', acc') \<and>
    length r_buf' = 256 \<and> to_gf acc' = to_gf acc + dotg s pos chunk"
proof -
  let ?rs = "map s [pos..<pos + length chunk]"
  have "zip (xof_fill s pos (length chunk) r_buf) chunk = zip ?rs chunk"
    by (simp add: xof_fill_def zip_append1)
  moreover have "length (xof_fill s pos (length chunk) r_buf) = 256"
    using assms by (simp add: xof_fill_def)
  moreover have "to_gf (foldl (\<lambda>acc (r, c). acc XOR mul r c) acc (zip ?rs chunk)) = to_gf acc + dotg s pos chunk"
    by (subst to_gf_mac_fold) (simp_all add: dotg_def)
  ultimately show ?thesis by (simp add: mac_chunk_def)
qed

lemma mac_chunks_dotg:
  "\<forall>c \<in> set cs. length c \<le> 256 \<Longrightarrow> length r_buf = 256 \<Longrightarrow>
   \<exists>r_buf' acc'. foldl (mac_chunk mul s) (pos, r_buf, acc) cs = (pos + length (concat cs), r_buf', acc') \<and>
    length r_buf' = 256 \<and> to_gf acc' = to_gf acc + dotg s pos (concat cs)"
proof (induction cs arbitrary: pos r_buf acc)
  case Nil
  then show ?case by simp
next
  case (Cons c cs)
  obtain b a where 1: "mac_chunk mul s (pos, r_buf, acc) c = (pos + length c, b, a)"
    "length b = 256" "to_gf a = to_gf acc + dotg s pos c"
    using mac_chunk_dotg[of c r_buf s pos acc] Cons.prems by auto
  from Cons.IH[of b "pos + length c" a] Cons.prems 1 show ?case
    by (auto simp: dotg_append add.assoc)
qed

lemma to_gf_mac_byte: "to_gf (mac_byte mul s cv d) = dotg s 0 (cv @ d)"
proof -
  have c: "\<forall>c \<in> set (chunks 256 xs). length c \<le> 256" for xs :: bytes
    using chunks_length_le by blast
  have l: "length (replicate 256 0) = 256" by (rule length_replicate)
  obtain b a where 1: "foldl (mac_chunk mul s) (0, replicate 256 0, 0) (chunks 256 cv) = (length cv, b, a)"
    "length b = 256" "to_gf a = dotg s 0 cv"
    using mac_chunks_dotg[OF c l, of s 0 0 cv] by (auto simp: concat_chunks to_gf_hom)
  obtain b' a' where 2: "foldl (mac_chunk mul s) (length cv, b, a) (chunks 256 d) = (length cv + length d, b', a')"
    "to_gf a' = to_gf a + dotg s (length cv) d"
    using mac_chunks_dotg[OF c 1(2), of s "length cv" a d] by (auto simp: concat_chunks)
  show ?thesis unfolding mac_byte_def Let_def 1 2 by (simp add: 1 2 dotg_append)
qed

end

section \<open>Identifiers and their text\<close>

lemma cid_display_from_str:
  "hex_ok H \<Longrightarrow> cid_from_str H (cid_display H c) =
     (if cid_wf c then Inr c else Inl (IdentityError ''CID must be 32 bytes''))"
  by (cases c) (simp add: hex_ok_def cid_from_str_def cid_display_def cid_wf_def)

text \<open>
  How an identifier is serialized: as text in formats for people, as bytes in others.  What a format gives
  back on reading may be of the wrong kind, which is an error like a wrong length.
\<close>

datatype serde_value = SerStr string | SerBytes bytes

definition cid_serialize :: "hex_api \<Rightarrow> bool \<Rightarrow> cid \<Rightarrow> serde_value" where
  "cid_serialize H human_readable c = (if human_readable then SerStr (hex_encode H (cid_bytes c)) else SerBytes (cid_bytes c))"

definition cid_deserialize :: "hex_api \<Rightarrow> bool \<Rightarrow> serde_value \<Rightarrow> (cid, craftec_error) result" where
  "cid_deserialize H human_readable v =
     (if human_readable
      then case v of SerStr s \<Rightarrow> cid_from_str H s | SerBytes _ \<Rightarrow> Inl (SerializationError ''invalid type'')
      else case v of
             SerStr _ \<Rightarrow> Inl (SerializationError ''invalid type'')
           | SerBytes bs \<Rightarrow> if length bs \<noteq> CID_SIZE then Inl (SerializationError ''expected 32 bytes for CID'') else Inr (Cid bs))"

lemma cid_serde_roundtrip: "hex_ok H \<Longrightarrow> cid_wf c \<Longrightarrow> cid_deserialize H hr (cid_serialize H hr c) = Inr c"
  using cid_display_from_str[of H c] by (simp add: cid_deserialize_def cid_serialize_def cid_display_def cid_wf_def)

lemma cid_deserialize_wf: "cid_deserialize H hr v = Inr c \<Longrightarrow> cid_wf c"
  by (auto simp: cid_deserialize_def cid_from_str_def cid_wf_def split: if_splits serde_value.splits option.splits)

lemma cid_from_data_wf: "blake3_ok B \<Longrightarrow> cid_wf (cid_from_data B d)"
  by (simp add: blake3_ok_def cid_wf_def cid_from_data_def CID_SIZE_def)

lemma cid_verify_from_data [simp]: "cid_verify B (cid_from_data B d) d"
  by (simp add: cid_verify_def)

lemma keypair_sign_verifies:
  "ed25519_ok E \<Longrightarrow> identity_verify E msg (keypair_sign E kp msg) (keypair_node_id E kp)"
  by (simp add: ed25519_ok_def identity_verify_def keypair_sign_def keypair_node_id_def)

lemma coded_piece_new_simps [simp]:
  "cid (coded_piece_new B c cv d tag) = c"
  "coding_vector (coded_piece_new B c cv d tag) = cv"
  "data (coded_piece_new B c cv d tag) = d"
  "hommac_tag (coded_piece_new B c cv d tag) = tag"
  "verify_piece_id B (coded_piece_new B c cv d tag)"
  by (simp_all add: coded_piece_new_def verify_piece_id_def)

end
