(* ===== verification/ObjStore.thy ===== *)
theory ObjStore
  imports Types "HOL-Library.AList"
begin

text \<open>
  The content-addressed object store of \<open>craftec-obj\<close>: sharded paths (\<open>shard.rs\<close>), the Bloom
  filter (\<open>bloom.rs\<close>), the object cache (\<open>cache.rs\<close>) and the store itself (\<open>store.rs\<close>).  The
  crates \<open>lru\<close>, \<open>bloomfilter\<close> and \<open>hex\<close> and BLAKE3 are parameters, collected in \<open>obj_api\<close> with
  their documented laws in \<open>obj_api_ok\<close>.  The file system is an association list from
  (directory, file name) to contents; each operation takes the faults the operating system may
  report for its calls.
\<close>

section \<open>File system\<close>

type_synonym path = "string \<times> string"
type_synonym fs = "(path \<times> bytes) list"

datatype io_error = IoNotFound | IoNoSpace | IoOther

definition fs_lookup :: "fs \<Rightarrow> path \<Rightarrow> bytes option" where
  "fs_lookup fs p = map_of fs p"

definition fs_write :: "path \<Rightarrow> bytes \<Rightarrow> fs \<Rightarrow> fs" where
  "fs_write p d fs = AList.update p d fs"

definition fs_remove :: "path \<Rightarrow> fs \<Rightarrow> fs" where
  "fs_remove p fs = AList.delete p fs"

definition fs_rename :: "path \<Rightarrow> path \<Rightarrow> fs \<Rightarrow> fs" where
  "fs_rename src dst fs =
     (case fs_lookup fs src of None \<Rightarrow> fs | Some d \<Rightarrow> fs_write dst d (fs_remove src fs))"

definition fs_read_dir :: "fs \<Rightarrow> string \<Rightarrow> string list" where
  "fs_read_dir fs dir = map (\<lambda>e. snd (fst e)) (filter (\<lambda>e. fst (fst e) = dir) fs)"

lemma fs_lookup_simps [simp]:
  "fs_lookup (fs_write p d fs) q = (if q = p then Some d else fs_lookup fs q)"
  "fs_lookup (fs_remove p fs) q = (if q = p then None else fs_lookup fs q)"
  by (simp_all add: fs_lookup_def fs_write_def fs_remove_def update_conv' delete_conv')

lemma fs_lookup_rename:
  "fs_lookup fs src = Some d \<Longrightarrow>
   fs_lookup (fs_rename src dst fs) q = (if q = dst then Some d else if q = src then None else fs_lookup fs q)"
  by (simp add: fs_rename_def)

lemma fs_read_dir_set: "n \<in> set (fs_read_dir fs dir) \<longleftrightarrow> fs_lookup fs (dir, n) \<noteq> None"
proof -
  have "n \<in> set (fs_read_dir fs dir) \<longleftrightarrow> (dir, n) \<in> fst ` set fs"
    by (force simp: fs_read_dir_def)
  then show ?thesis by (simp add: fs_lookup_def map_of_eq_None_iff)
qed

section \<open>Library interfaces\<close>

record ('b, 'c) obj_api =
  oa_b3 :: blake3
  oa_hex :: hex_api
  lru_new :: "nat \<Rightarrow> 'c"
  lru_get :: "'c \<Rightarrow> cid \<Rightarrow> bytes option \<times> 'c"
  lru_peek :: "'c \<Rightarrow> cid \<Rightarrow> bytes option"
  lru_put :: "'c \<Rightarrow> cid \<Rightarrow> bytes \<Rightarrow> 'c"
  lru_pop :: "'c \<Rightarrow> cid \<Rightarrow> 'c"
  bl_new :: 'b
  bl_set :: "'b \<Rightarrow> bytes \<Rightarrow> 'b"
  bl_check :: "'b \<Rightarrow> bytes \<Rightarrow> bool"

text \<open>
  The cache: a new one of positive capacity is empty, looking up does not change the contents, inserting
  makes the entry present and may evict others but changes none, removing removes one entry.
\<close>

definition lru_ok :: "('b, 'c) obj_api \<Rightarrow> bool" where
  "lru_ok A \<longleftrightarrow> (\<forall>n k. 0 < n \<longrightarrow> lru_peek A (lru_new A n) k = None) \<and>
     (\<forall>c k. fst (lru_get A c k) = lru_peek A c k \<and> lru_peek A (snd (lru_get A c k)) = lru_peek A c) \<and>
     (\<forall>c k v. lru_peek A (lru_put A c k v) k = Some v) \<and>
     (\<forall>c k v k'. k' \<noteq> k \<longrightarrow> lru_peek A (lru_put A c k v) k' \<in> {None, lru_peek A c k'}) \<and>
     (\<forall>c k k'. lru_peek A (lru_pop A c k) k' = (if k' = k then None else lru_peek A c k'))"

text \<open>The filter has no false negatives.\<close>

definition bloom_ok :: "('b, 'c) obj_api \<Rightarrow> bool" where
  "bloom_ok A \<longleftrightarrow> (\<forall>b x. bl_check A (bl_set A b x) x) \<and>
     (\<forall>b x y. bl_check A b x \<longrightarrow> bl_check A (bl_set A b y) x)"

text \<open>Lower-case two-digit hexadecimal, as \<open>format!("{:02x}")\<close> prints a byte.\<close>

definition hex_digit :: "nat \<Rightarrow> char" where
  "hex_digit n = ''0123456789abcdef'' ! n"

definition hex2 :: "u8 \<Rightarrow> string" where
  "hex2 b = [hex_digit (unat b div 16), hex_digit (unat b mod 16)]"

text \<open>\<open>hex::encode\<close> is invertible and prints the bytes in order, two digits each.\<close>

definition hex_api_ok :: "hex_api \<Rightarrow> bool" where
  "hex_api_ok H \<longleftrightarrow> hex_ok H \<and> (\<forall>b bs. take 2 (hex_encode H (b # bs)) = hex2 b) \<and>
     (\<forall>x. length (hex_encode H x) = 2 * length x)"

definition obj_api_ok :: "('b, 'c) obj_api \<Rightarrow> bool" where
  "obj_api_ok A \<longleftrightarrow> lru_ok A \<and> bloom_ok A \<and> hex_api_ok (oa_hex A) \<and> blake3_ok (oa_b3 A)"

section \<open>Shards\<close>

definition shard_path :: "hex_api \<Rightarrow> cid \<Rightarrow> path" where
  "shard_path H c = (let hex = cid_display H c in (take 2 hex, hex))"

definition shard_prefix :: "hex_api \<Rightarrow> cid \<Rightarrow> string" where
  "shard_prefix H c = take 2 (cid_display H c)"

definition shard_names :: "string list" where
  "shard_names = map (\<lambda>i. hex2 (of_nat i)) [0..<256]"

definition walk_shard :: "hex_api \<Rightarrow> fs \<Rightarrow> string \<Rightarrow> cid list" where
  "walk_shard H fs dir =
     concat (map (\<lambda>fname. case cid_from_str H fname of Inr c \<Rightarrow> [c] | Inl _ \<Rightarrow> []) (fs_read_dir fs dir))"

definition walk_shards :: "hex_api \<Rightarrow> fs \<Rightarrow> cid list" where
  "walk_shards H fs = concat (map (walk_shard H fs) shard_names)"

section \<open>Bloom filter\<close>

record 'b cid_bloom =
  cb_inner :: 'b
  cb_count :: nat

definition bloom_new :: "('b, 'c) obj_api \<Rightarrow> 'b cid_bloom" where
  "bloom_new A = \<lparr>cb_inner = bl_new A, cb_count = 0\<rparr>"

definition bloom_insert :: "('b, 'c) obj_api \<Rightarrow> cid \<Rightarrow> 'b cid_bloom \<Rightarrow> 'b cid_bloom" where
  "bloom_insert A c f = \<lparr>cb_inner = bl_set A (cb_inner f) (cid_bytes c), cb_count = cb_count f + 1\<rparr>"

definition probably_contains :: "('b, 'c) obj_api \<Rightarrow> 'b cid_bloom \<Rightarrow> cid \<Rightarrow> bool" where
  "probably_contains A f c = bl_check A (cb_inner f) (cid_bytes c)"

definition bloom_rebuild :: "('b, 'c) obj_api \<Rightarrow> fs \<Rightarrow> 'b cid_bloom" where
  "bloom_rebuild A fs = foldl (\<lambda>f c. bloom_insert A c f) (bloom_new A) (walk_shards (oa_hex A) fs)"

section \<open>Store\<close>

datatype obj_error =
    IntegrityViolation cid
  | ObjNotFound cid
  | ObjIoError io_error
  | StoreFull
  | InvalidCid string

record store_metrics =
  puts :: u64
  gets :: u64
  cache_hits :: u64
  cache_misses :: u64
  bloom_false_positives :: u64
  integrity_violations :: u64

record ('b, 'c) store =
  st_fs :: fs
  st_cache :: 'c
  st_bloom :: "'b cid_bloom"
  st_metrics :: store_metrics
  st_event_tx :: "cid list option"

text \<open>What the operating system reports for the calls of one operation.\<close>

record io_faults =
  flt_meta :: bool
  flt_write :: "(io_error \<times> nat) option"
  flt_rename :: "io_error option"
  flt_read :: "io_error option"
  flt_remove :: "io_error option"

definition no_faults :: io_faults where
  "no_faults = \<lparr>flt_meta = False, flt_write = None, flt_rename = None, flt_read = None, flt_remove = None\<rparr>"

text \<open>The cache panics at capacity zero, which no caller passes.\<close>

definition store_new :: "('b, 'c) obj_api \<Rightarrow> fs \<Rightarrow> nat \<Rightarrow> ('b, 'c) store" where
  "store_new A fs cache_capacity =
     \<lparr>st_fs = fs, st_cache = lru_new A cache_capacity, st_bloom = bloom_rebuild A fs,
      st_metrics = \<lparr>puts = 0, gets = 0, cache_hits = 0, cache_misses = 0, bloom_false_positives = 0,
                    integrity_violations = 0\<rparr>,
      st_event_tx = None\<rparr>"

definition set_event_sender :: "('b, 'c) store \<Rightarrow> ('b, 'c) store" where
  "set_event_sender s = s\<lparr>st_event_tx := Some []\<rparr>"

text \<open>\<open>dest.with_extension("tmp")\<close>: object names contain no dot.\<close>

definition tmp_path :: "path \<Rightarrow> path" where
  "tmp_path p = (fst p, snd p @ ''.tmp'')"

definition obj_exists :: "('b, 'c) obj_api \<Rightarrow> io_faults \<Rightarrow> ('b, 'c) store \<Rightarrow> cid \<Rightarrow> bool" where
  "obj_exists A flt s c \<longleftrightarrow> fs_lookup (st_fs s) (shard_path (oa_hex A) c) \<noteq> None \<and> \<not> flt_meta flt"

definition put ::
  "('b, 'c) obj_api \<Rightarrow> io_faults \<Rightarrow> ('b, 'c) store \<Rightarrow> bytes \<Rightarrow> (cid, obj_error) result \<times> ('b, 'c) store" where
  "put A flt s0 d =
     (let c = cid_from_data (oa_b3 A) d;
          s = s0\<lparr>st_metrics := (st_metrics s0)\<lparr>puts := puts (st_metrics s0) + 1\<rparr>\<rparr>
      in if probably_contains A (st_bloom s) c \<and> obj_exists A flt s c then (Inr c, s)
         else let dest = shard_path (oa_hex A) c; tmp = tmp_path dest
              in case flt_write flt of
                   Some (e, n) \<Rightarrow>
                     (Inl (if e = IoNoSpace then StoreFull else ObjIoError e),
                      s\<lparr>st_fs := fs_write tmp (take n d) (st_fs s)\<rparr>)
                 | None \<Rightarrow>
                     let fs1 = fs_write tmp d (st_fs s)
                     in case flt_rename flt of
                          Some e \<Rightarrow> (Inl (ObjIoError e), s\<lparr>st_fs := fs_remove tmp fs1\<rparr>)
                        | None \<Rightarrow>
                            (Inr c, s\<lparr>st_fs := fs_rename tmp dest fs1,
                                      st_bloom := bloom_insert A c (st_bloom s),
                                      st_cache := lru_put A (st_cache s) c d,
                                      st_event_tx := map_option (\<lambda>evs. evs @ [c]) (st_event_tx s)\<rparr>))"

definition get ::
  "('b, 'c) obj_api \<Rightarrow> io_faults \<Rightarrow> ('b, 'c) store \<Rightarrow> cid \<Rightarrow>
   (bytes option, obj_error) result \<times> ('b, 'c) store" where
  "get A flt s0 c =
     (let m = st_metrics s0;
          (hit, cache') = lru_get A (st_cache s0) c;
          s = s0\<lparr>st_cache := cache', st_metrics := m\<lparr>gets := gets m + 1\<rparr>\<rparr>
      in case hit of
           Some d \<Rightarrow> (Inr (Some d), s\<lparr>st_metrics := (st_metrics s)\<lparr>cache_hits := cache_hits m + 1\<rparr>\<rparr>)
         | None \<Rightarrow>
             let s1 = s\<lparr>st_metrics := (st_metrics s)\<lparr>cache_misses := cache_misses m + 1\<rparr>\<rparr>
             in if \<not> probably_contains A (st_bloom s1) c then (Inr None, s1)
                else case flt_read flt of
                       Some IoNotFound \<Rightarrow> (Inr None, s1\<lparr>st_metrics := (st_metrics s1)
                           \<lparr>bloom_false_positives := bloom_false_positives m + 1\<rparr>\<rparr>)
                     | Some e \<Rightarrow> (Inl (ObjIoError e), s1)
                     | None \<Rightarrow>
                         (case fs_lookup (st_fs s1) (shard_path (oa_hex A) c) of
                            None \<Rightarrow> (Inr None, s1\<lparr>st_metrics := (st_metrics s1)
                              \<lparr>bloom_false_positives := bloom_false_positives m + 1\<rparr>\<rparr>)
                          | Some d \<Rightarrow>
                              if cid_from_data (oa_b3 A) d \<noteq> c
                              then (Inl (IntegrityViolation c), s1\<lparr>st_metrics := (st_metrics s1)
                                \<lparr>integrity_violations := integrity_violations m + 1\<rparr>\<rparr>)
                              else (Inr (Some d), s1\<lparr>st_cache := lru_put A (st_cache s1) c d\<rparr>)))"

definition contains :: "('b, 'c) obj_api \<Rightarrow> io_faults \<Rightarrow> ('b, 'c) store \<Rightarrow> cid \<Rightarrow> bool" where
  "contains A flt s c = (if \<not> probably_contains A (st_bloom s) c then False else obj_exists A flt s c)"

definition delete_obj ::
  "('b, 'c) obj_api \<Rightarrow> io_faults \<Rightarrow> ('b, 'c) store \<Rightarrow> cid \<Rightarrow> (bool, obj_error) result \<times> ('b, 'c) store" where
  "delete_obj A flt s c =
     (let p = shard_path (oa_hex A) c
      in case flt_remove flt of
           Some IoNotFound \<Rightarrow> (Inr False, s)
         | Some e \<Rightarrow> (Inl (ObjIoError e), s)
         | None \<Rightarrow>
             (case fs_lookup (st_fs s) p of
                None \<Rightarrow> (Inr False, s)
              | Some _ \<Rightarrow> (Inr True, s\<lparr>st_fs := fs_remove p (st_fs s), st_cache := lru_pop A (st_cache s) c\<rparr>)))"

definition list_cids :: "('b, 'c) obj_api \<Rightarrow> ('b, 'c) store \<Rightarrow> cid list" where
  "list_cids A s = walk_shards (oa_hex A) (st_fs s)"

definition shard_files :: "fs \<Rightarrow> string \<Rightarrow> bytes list" where
  "shard_files fs dir = map snd (filter (\<lambda>e. fst (fst e) = dir) fs)"

definition disk_usage :: "('b, 'c) store \<Rightarrow> nat" where
  "disk_usage s = sum_list (map (\<lambda>dir. sum_list (map length (shard_files (st_fs s) dir))) shard_names)"

definition object_count :: "('b, 'c) store \<Rightarrow> nat" where
  "object_count s = sum_list (map (\<lambda>dir. length (shard_files (st_fs s) dir)) shard_names)"

section \<open>Paths\<close>

lemma cid_display_inject:
  assumes "hex_ok H" "cid_display H c = cid_display H c'"
  shows "c = c'"
proof -
  have "hex_decode H (hex_encode H (cid_bytes c)) = hex_decode H (hex_encode H (cid_bytes c'))"
    using assms(2) by (simp add: cid_display_def)
  then show ?thesis using assms(1) by (cases c; cases c') (simp add: hex_ok_def)
qed

lemma shard_path_inject [simp]: "hex_api_ok H \<Longrightarrow> shard_path H c = shard_path H c' \<longleftrightarrow> c = c'"
  by (auto simp: shard_path_def Let_def hex_api_ok_def dest: cid_display_inject)

lemma shard_path_neq_tmp:
  assumes "hex_api_ok H" "cid_wf c" "cid_wf c'"
  shows "shard_path H c' \<noteq> tmp_path (shard_path H c)"
proof
  assume "shard_path H c' = tmp_path (shard_path H c)"
  then have "length (cid_display H c') = length (cid_display H c) + 4"
    by (simp add: shard_path_def tmp_path_def Let_def)
  then show False using assms by (simp add: hex_api_ok_def cid_display_def cid_wf_def)
qed

lemma shard_dir_listed:
  assumes "hex_api_ok H" "cid_wf c"
  shows "fst (shard_path H c) \<in> set shard_names"
proof -
  obtain b bs where b: "cid_bytes c = b # bs" using assms(2) by (cases "cid_bytes c") (auto simp: cid_wf_def CID_SIZE_def)
  then have "fst (shard_path H c) = hex2 b"
    using assms(1) by (simp add: shard_path_def cid_display_def hex_api_ok_def)
  moreover have "hex2 b \<in> set shard_names"
    unfolding shard_names_def using unat_lt2p[of b] by (auto intro!: image_eqI[of _ _ "unat b"])
  ultimately show ?thesis by simp
qed

text \<open>Walking the shards finds every object on disk.\<close>

lemma walk_shards_complete:
  assumes "hex_api_ok H" "cid_wf c" "fs_lookup fs (shard_path H c) \<noteq> None"
  shows "c \<in> set (walk_shards H fs)"
proof -
  let ?dir = "fst (shard_path H c)"
  have "cid_display H c \<in> set (fs_read_dir fs ?dir)"
    using assms(3) by (simp add: fs_read_dir_set shard_path_def Let_def)
  moreover have "cid_from_str H (cid_display H c) = Inr c"
    using assms cid_display_from_str by (simp add: hex_api_ok_def)
  ultimately have "c \<in> set (walk_shard H fs ?dir)"
    by (auto simp: walk_shard_def intro!: bexI[of _ "cid_display H c"])
  then show ?thesis using shard_dir_listed[OF assms(1,2)] by (auto simp: walk_shards_def)
qed

section \<open>Bloom filter\<close>

lemma probably_contains_insert:
  "bloom_ok A \<Longrightarrow> probably_contains A (bloom_insert A c f) c"
  "bloom_ok A \<Longrightarrow> probably_contains A f c' \<Longrightarrow> probably_contains A (bloom_insert A c f) c'"
  by (simp_all add: bloom_ok_def probably_contains_def bloom_insert_def)

lemma bloom_fold_contains:
  "bloom_ok A \<Longrightarrow> c \<in> set cs \<or> probably_contains A f c \<Longrightarrow>
   probably_contains A (foldl (\<lambda>f c. bloom_insert A c f) f cs) c"
proof (induction cs arbitrary: f)
  case Nil
  then show ?case by simp
next
  case (Cons x cs)
  then have "c \<in> set cs \<or> probably_contains A (bloom_insert A x f) c"
    by (auto simp: probably_contains_insert)
  with Cons show ?case by simp
qed

section \<open>The invariant\<close>

text \<open>Every object on disk passes the filter, and the cache holds only data of the right hash.\<close>

definition store_inv :: "('b, 'c) obj_api \<Rightarrow> ('b, 'c) store \<Rightarrow> bool" where
  "store_inv A s \<longleftrightarrow> obj_api_ok A \<and>
     (\<forall>c. cid_wf c \<longrightarrow> fs_lookup (st_fs s) (shard_path (oa_hex A) c) \<noteq> None \<longrightarrow> probably_contains A (st_bloom s) c) \<and>
     (\<forall>c d. lru_peek A (st_cache s) c = Some d \<longrightarrow> cid_from_data (oa_b3 A) d = c)"

lemma store_inv_api:
  assumes "store_inv A s"
  shows "lru_ok A" "bloom_ok A" "hex_api_ok (oa_hex A)" "blake3_ok (oa_b3 A)"
  using assms by (simp_all add: store_inv_def obj_api_ok_def)

lemma lru_peek_put:
  assumes "lru_ok A"
  shows "lru_peek A (lru_put A c k v) k = Some v" "lru_peek A (lru_put A c k v) k' = Some d \<Longrightarrow>
    k' = k \<and> d = v \<or> k' \<noteq> k \<and> lru_peek A c k' = Some d"
  using assms unfolding lru_ok_def by (simp, metis (no_types, lifting) insertE option.inject option.distinct(1) singletonD)

lemma lru_get_eq: "lru_ok A \<Longrightarrow> \<exists>c'. lru_get A c k = (lru_peek A c k, c') \<and> lru_peek A c' = lru_peek A c"
  by (metis lru_ok_def prod.collapse)

lemma store_new_inv: "obj_api_ok A \<Longrightarrow> 0 < n \<Longrightarrow> store_inv A (store_new A fs n)"
proof -
  assume A: "obj_api_ok A" "0 < n"
  have "probably_contains A (bloom_rebuild A fs) c"
    if "cid_wf c" "fs_lookup fs (shard_path (oa_hex A) c) \<noteq> None" for c
    unfolding bloom_rebuild_def
    by (rule bloom_fold_contains) (use A walk_shards_complete[OF _ that] in \<open>simp_all add: obj_api_ok_def\<close>)
  then show ?thesis using A by (simp add: store_inv_def store_new_def obj_api_ok_def lru_ok_def)
qed

text \<open>The two ways \<open>put\<close> can succeed, and the ways it can fail.\<close>

lemma put_cases:
  obtains (present) "probably_contains A (st_bloom s) (cid_from_data (oa_b3 A) d)"
      "obj_exists A flt s (cid_from_data (oa_b3 A) d)"
      "put A flt s d = (Inr (cid_from_data (oa_b3 A) d), s\<lparr>st_metrics := (st_metrics s)\<lparr>puts := puts (st_metrics s) + 1\<rparr>\<rparr>)"
  | (failed) e s' fs' where "put A flt s d = (Inl e, s')" "s' = s\<lparr>st_metrics := st_metrics s', st_fs := fs'\<rparr>"
      "\<And>q. q \<noteq> tmp_path (shard_path (oa_hex A) (cid_from_data (oa_b3 A) d)) \<Longrightarrow> fs_lookup fs' q = fs_lookup (st_fs s) q"
  | (stored) s' where "put A flt s d = (Inr (cid_from_data (oa_b3 A) d), s')"
      "st_bloom s' = bloom_insert A (cid_from_data (oa_b3 A) d) (st_bloom s)"
      "st_cache s' = lru_put A (st_cache s) (cid_from_data (oa_b3 A) d) d"
      "\<And>q. fs_lookup (st_fs s') q =
         (if q = shard_path (oa_hex A) (cid_from_data (oa_b3 A) d) then Some d
          else if q = tmp_path (shard_path (oa_hex A) (cid_from_data (oa_b3 A) d)) then None
          else fs_lookup (st_fs s) q)"
proof -
  let ?c = "cid_from_data (oa_b3 A) d"
  let ?s = "s\<lparr>st_metrics := (st_metrics s)\<lparr>puts := puts (st_metrics s) + 1\<rparr>\<rparr>"
  let ?dest = "shard_path (oa_hex A) ?c"
  show ?thesis
  proof (cases "probably_contains A (st_bloom s) ?c \<and> obj_exists A flt s ?c")
    case True
    then show ?thesis by (intro present) (simp_all add: put_def obj_exists_def Let_def)
  next
    case False
    then have n: "\<not> (probably_contains A (st_bloom ?s) ?c \<and> obj_exists A flt ?s ?c)" by (simp add: obj_exists_def)
    show ?thesis
    proof (cases "flt_write flt")
      case (Some en)
      then show ?thesis using n
        by (intro failed[of "if fst en = IoNoSpace then StoreFull else ObjIoError (fst en)"
              "?s\<lparr>st_fs := fs_write (tmp_path ?dest) (take (snd en) d) (st_fs s)\<rparr>"
              "fs_write (tmp_path ?dest) (take (snd en) d) (st_fs s)"])
           (simp_all add: put_def Let_def case_prod_beta)
    next
      case w: None
      show ?thesis
      proof (cases "flt_rename flt")
        case (Some e)
        then show ?thesis using n w
          by (intro failed[of "ObjIoError e" "?s\<lparr>st_fs := fs_remove (tmp_path ?dest) (fs_write (tmp_path ?dest) d (st_fs s))\<rparr>"
              "fs_remove (tmp_path ?dest) (fs_write (tmp_path ?dest) d (st_fs s))"])
             (simp_all add: put_def Let_def)
      next
        case None
        let ?s' = "?s\<lparr>st_fs := fs_rename (tmp_path ?dest) ?dest (fs_write (tmp_path ?dest) d (st_fs s)),
            st_bloom := bloom_insert A ?c (st_bloom s), st_cache := lru_put A (st_cache s) ?c d,
            st_event_tx := map_option (\<lambda>evs. evs @ [?c]) (st_event_tx s)\<rparr>"
        have "put A flt s d = (Inr ?c, ?s')"
          using w None unfolding put_def Let_def if_not_P[OF n] by simp
        then show ?thesis by (intro stored[of ?s']) (simp_all add: fs_lookup_rename)
      qed
    qed
  qed
qed

lemma put_inv:
  assumes "store_inv A s"
  shows "store_inv A (snd (put A flt s d))"
proof -
  let ?c = "cid_from_data (oa_b3 A) d"
  note api = store_inv_api[OF assms]
  have c: "cid_wf ?c" using cid_from_data_wf[OF api(4)] .
  show ?thesis
  proof (cases rule: put_cases[of A s d flt])
    case present
    then show ?thesis using assms by (simp add: store_inv_def)
  next
    case (failed e s' fs')
    have "fs_lookup fs' (shard_path (oa_hex A) x) = fs_lookup (st_fs s) (shard_path (oa_hex A) x)" if "cid_wf x" for x
      by (rule failed(3)[OF shard_path_neq_tmp[OF api(3) c that]])
    moreover have "st_fs s' = fs'" "st_bloom s' = st_bloom s" "st_cache s' = st_cache s"
      using arg_cong[OF failed(2), of st_fs] arg_cong[OF failed(2), of st_bloom] arg_cong[OF failed(2), of st_cache]
      by simp_all
    ultimately show ?thesis using assms failed(1) by (simp add: store_inv_def)
  next
    case (stored s')
    show ?thesis unfolding stored(1) snd_conv store_inv_def
    proof (intro conjI allI impI)
      show "obj_api_ok A" using assms by (simp add: store_inv_def)
      fix x
      assume x: "cid_wf x" "fs_lookup (st_fs s') (shard_path (oa_hex A) x) \<noteq> None"
      then show "probably_contains A (st_bloom s') x"
        using probably_contains_insert[OF api(2)] assms
        by (cases "x = ?c") (auto simp: stored(2,4) api(3) store_inv_def split: if_splits)
    next
      fix x v
      assume "lru_peek A (st_cache s') x = Some v"
      then show "cid_from_data (oa_b3 A) v = x"
        using lru_peek_put(2)[OF api(1)] assms unfolding stored(3) store_inv_def by blast
    qed
  qed
qed

text \<open>The branches of \<open>get\<close>, with the caches replaced by their contents.\<close>

lemma get_result:
  assumes "store_inv A s"
  shows "fst (get A flt s c) =
    (case lru_peek A (st_cache s) c of
       Some d \<Rightarrow> Inr (Some d)
     | None \<Rightarrow>
         if \<not> probably_contains A (st_bloom s) c then Inr None
         else case flt_read flt of
                Some IoNotFound \<Rightarrow> Inr None
              | Some e \<Rightarrow> Inl (ObjIoError e)
              | None \<Rightarrow>
                  (case fs_lookup (st_fs s) (shard_path (oa_hex A) c) of
                     None \<Rightarrow> Inr None
                   | Some d \<Rightarrow> if cid_from_data (oa_b3 A) d \<noteq> c then Inl (IntegrityViolation c) else Inr (Some d)))"
proof -
  obtain c' where c': "lru_get A (st_cache s) c = (lru_peek A (st_cache s) c, c')"
    using lru_get_eq[OF store_inv_api(1)[OF assms]] by blast
  show ?thesis by (simp add: get_def Let_def c' split: option.splits io_error.splits)
qed

lemma get_state:
  assumes "store_inv A s"
  shows "st_fs (snd (get A flt s c)) = st_fs s" "st_bloom (snd (get A flt s c)) = st_bloom s"
    "lru_peek A (st_cache (snd (get A flt s c))) x = Some v \<Longrightarrow>
      lru_peek A (st_cache s) x = Some v \<or> x = c \<and> fst (get A flt s c) = Inr (Some v)"
proof -
  obtain c' where c': "lru_get A (st_cache s) c = (lru_peek A (st_cache s) c, c')" "lru_peek A c' = lru_peek A (st_cache s)"
    using lru_get_eq[OF store_inv_api(1)[OF assms]] by blast
  show "st_fs (snd (get A flt s c)) = st_fs s" "st_bloom (snd (get A flt s c)) = st_bloom s"
    by (auto simp: get_def Let_def c' split: option.splits io_error.splits)
  show "lru_peek A (st_cache (snd (get A flt s c))) x = Some v \<Longrightarrow>
      lru_peek A (st_cache s) x = Some v \<or> x = c \<and> fst (get A flt s c) = Inr (Some v)"
    using lru_peek_put(2)[OF store_inv_api(1)[OF assms], of c']
    by (auto simp: get_def Let_def c' split: option.splits io_error.splits if_splits)
qed

lemma get_integrity:
  assumes "store_inv A s" "fst (get A flt s c) = Inr (Some d)"
  shows "cid_from_data (oa_b3 A) d = c"
  using assms(2) assms(1) unfolding get_result[OF assms(1)]
  by (auto simp: store_inv_def split: option.splits if_splits io_error.splits)

lemma get_inv:
  assumes "store_inv A s"
  shows "store_inv A (snd (get A flt s c))"
proof -
  have "cid_from_data (oa_b3 A) v = x" if "lru_peek A (st_cache (snd (get A flt s c))) x = Some v" for x v
    using get_state(3)[OF assms that] get_integrity[OF assms, of flt c v] assms by (auto simp: store_inv_def)
  then show ?thesis using assms by (simp add: store_inv_def get_state[OF assms])
qed

lemma delete_inv:
  assumes "store_inv A s"
  shows "store_inv A (snd (delete_obj A flt s c))"
  using assms store_inv_api[OF assms]
  by (auto simp: delete_obj_def Let_def store_inv_def lru_ok_def split: option.splits io_error.splits if_splits)

section \<open>Undamaged stores\<close>

text \<open>
  In an undamaged store the files under object names have the right hash and the cache holds
  only what is on disk.  Then the store is a map from identifiers to contents.
\<close>

definition obj_lookup :: "('b, 'c) obj_api \<Rightarrow> ('b, 'c) store \<Rightarrow> cid \<Rightarrow> bytes option" where
  "obj_lookup A s c = (if cid_wf c then fs_lookup (st_fs s) (shard_path (oa_hex A) c) else None)"

definition store_clean :: "('b, 'c) obj_api \<Rightarrow> ('b, 'c) store \<Rightarrow> bool" where
  "store_clean A s \<longleftrightarrow> store_inv A s \<and>
     (\<forall>c d. obj_lookup A s c = Some d \<longrightarrow> cid_from_data (oa_b3 A) d = c) \<and>
     (\<forall>c d. lru_peek A (st_cache s) c = Some d \<longrightarrow> obj_lookup A s c = Some d)"

lemma store_cleanD:
  assumes "store_clean A s"
  shows "store_inv A s" "obj_lookup A s c = Some d \<Longrightarrow> cid_from_data (oa_b3 A) d = c"
    "lru_peek A (st_cache s) c = Some d \<Longrightarrow> obj_lookup A s c = Some d"
  using assms by (simp_all add: store_clean_def)

lemma get_clean:
  assumes "store_clean A s" "flt_read flt \<noteq> Some IoNotFound"
  shows "fst (get A flt s c) = Inr r \<Longrightarrow> r = obj_lookup A s c"
    "flt_read flt = None \<Longrightarrow> cid_wf c \<Longrightarrow> fst (get A flt s c) = Inr (obj_lookup A s c)"
proof -
  note inv = store_cleanD(1)[OF assms(1)]
  have b: "\<not> probably_contains A (st_bloom s) c \<Longrightarrow> obj_lookup A s c = None"
    using inv by (auto simp: store_inv_def obj_lookup_def)
  have nw: "\<not> cid_wf c \<Longrightarrow> cid_from_data (oa_b3 A) d \<noteq> c" for d
    using cid_from_data_wf[OF store_inv_api(4)[OF inv]] by auto
  have "fst (get A flt s c) = Inr r \<longrightarrow> r = obj_lookup A s c"
    "flt_read flt = None \<longrightarrow> cid_wf c \<longrightarrow> fst (get A flt s c) = Inr (obj_lookup A s c)"
  proof (atomize (full), cases "lru_peek A (st_cache s) c")
    case (Some d)
    then show "(fst (get A flt s c) = Inr r \<longrightarrow> r = obj_lookup A s c) \<and>
        (flt_read flt = None \<longrightarrow> cid_wf c \<longrightarrow> fst (get A flt s c) = Inr (obj_lookup A s c))"
      using store_cleanD(3)[OF assms(1) Some] by (auto simp: get_result[OF inv])
  next
    case miss: None
    show "(fst (get A flt s c) = Inr r \<longrightarrow> r = obj_lookup A s c) \<and>
        (flt_read flt = None \<longrightarrow> cid_wf c \<longrightarrow> fst (get A flt s c) = Inr (obj_lookup A s c))"
    proof (cases "probably_contains A (st_bloom s) c")
      case False
      then show ?thesis using b miss by (simp add: get_result[OF inv])
    next
      case True
      show ?thesis
      proof (cases "fs_lookup (st_fs s) (shard_path (oa_hex A) c)")
        case None
        then show ?thesis using True miss assms(2)
          by (auto simp: get_result[OF inv] obj_lookup_def split: option.splits io_error.splits)
      next
        case (Some d)
        have "cid_wf c \<Longrightarrow> cid_from_data (oa_b3 A) d = c"
          using store_cleanD(2)[OF assms(1), of c d] Some by (simp add: obj_lookup_def)
        then show ?thesis using True miss assms(2) Some nw[of d]
          by (auto simp: get_result[OF inv] obj_lookup_def split: option.splits io_error.splits if_splits)
      qed
    qed
  qed
  then show "fst (get A flt s c) = Inr r \<Longrightarrow> r = obj_lookup A s c"
    "flt_read flt = None \<Longrightarrow> cid_wf c \<Longrightarrow> fst (get A flt s c) = Inr (obj_lookup A s c)" by simp_all
qed

lemma get_keeps_clean:
  assumes "store_clean A s" "flt_read flt \<noteq> Some IoNotFound"
  shows "store_clean A (snd (get A flt s c))" "obj_lookup A (snd (get A flt s c)) = obj_lookup A s"
proof -
  note inv = store_cleanD(1)[OF assms(1)]
  show l: "obj_lookup A (snd (get A flt s c)) = obj_lookup A s"
    by (intro ext) (simp add: obj_lookup_def get_state[OF inv])
  have "obj_lookup A s x = Some v" if "lru_peek A (st_cache (snd (get A flt s c))) x = Some v" for x v
    using get_state(3)[OF inv that] store_cleanD(3)[OF assms(1)] get_clean(1)[OF assms] by fastforce
  then show "store_clean A (snd (get A flt s c))"
    using assms(1) get_inv[OF inv] by (simp add: store_clean_def l)
qed

lemma put_clean:
  assumes "store_clean A s"
  shows "store_clean A (snd (put A flt s d))"
    "fst (put A flt s d) = Inr c \<Longrightarrow> c = cid_from_data (oa_b3 A) d \<and> obj_lookup A (snd (put A flt s d)) c \<noteq> None"
    "x \<noteq> cid_from_data (oa_b3 A) d \<or> \<not> is_ok (fst (put A flt s d)) \<Longrightarrow>
       obj_lookup A (snd (put A flt s d)) x = obj_lookup A s x"
    "obj_lookup A s (cid_from_data (oa_b3 A) d) = None \<Longrightarrow> is_ok (fst (put A flt s d)) \<Longrightarrow>
       obj_lookup A (snd (put A flt s d)) (cid_from_data (oa_b3 A) d) = Some d"
    "obj_lookup A (snd (put A flt s d)) (cid_from_data (oa_b3 A) d) \<in> {obj_lookup A s (cid_from_data (oa_b3 A) d), Some d}"
proof -
  let ?c = "cid_from_data (oa_b3 A) d"
  note inv = store_cleanD(1)[OF assms]
  note api = store_inv_api[OF inv]
  have c: "cid_wf ?c" using cid_from_data_wf[OF api(4)] .
  have "store_clean A (snd (put A flt s d)) \<and>
      (fst (put A flt s d) = Inr c \<longrightarrow> c = ?c \<and> obj_lookup A (snd (put A flt s d)) c \<noteq> None) \<and>
      (\<forall>x. x \<noteq> ?c \<or> \<not> is_ok (fst (put A flt s d)) \<longrightarrow> obj_lookup A (snd (put A flt s d)) x = obj_lookup A s x) \<and>
      (obj_lookup A s ?c = None \<longrightarrow> is_ok (fst (put A flt s d)) \<longrightarrow> obj_lookup A (snd (put A flt s d)) ?c = Some d) \<and>
      obj_lookup A (snd (put A flt s d)) ?c \<in> {obj_lookup A s ?c, Some d}"
  proof (cases rule: put_cases[of A s d flt])
    case present
    then have "obj_lookup A (snd (put A flt s d)) = obj_lookup A s" by (intro ext) (simp add: obj_lookup_def)
    moreover have "obj_lookup A s ?c \<noteq> None" using present(2) c by (simp add: obj_exists_def obj_lookup_def)
    ultimately show ?thesis using assms put_inv[OF inv, of flt d] present(3)
      by (auto simp: store_clean_def)
  next
    case (failed e s' fs')
    have fs: "st_fs s' = fs'" "st_cache s' = st_cache s"
      using arg_cong[OF failed(2), of st_fs] arg_cong[OF failed(2), of st_cache] by simp_all
    have "obj_lookup A s' x = obj_lookup A s x" for x
      using failed(3)[OF shard_path_neq_tmp[OF api(3) c, of x]] by (simp add: obj_lookup_def fs)
    then show ?thesis using assms put_inv[OF inv, of flt d] failed(1)
      by (simp add: store_clean_def fs(2))
  next
    case (stored s')
    have l: "obj_lookup A s' x = (if x = ?c then Some d else obj_lookup A s x)" for x
      using c shard_path_neq_tmp[OF api(3) c, of x] by (simp add: obj_lookup_def stored(4) api(3))
    have "obj_lookup A s' x = Some v" if "lru_peek A (st_cache s') x = Some v" for x v
      using lru_peek_put(2)[OF api(1)] that store_cleanD(3)[OF assms] unfolding stored(3) l by fastforce
    then have "store_clean A s'" using assms put_inv[OF inv, of flt d] stored(1)
      by (auto simp: store_clean_def l)
    then show ?thesis using stored(1) l by simp
  qed
  then show "store_clean A (snd (put A flt s d))"
    "fst (put A flt s d) = Inr c \<Longrightarrow> c = ?c \<and> obj_lookup A (snd (put A flt s d)) c \<noteq> None"
    "x \<noteq> ?c \<or> \<not> is_ok (fst (put A flt s d)) \<Longrightarrow> obj_lookup A (snd (put A flt s d)) x = obj_lookup A s x"
    "obj_lookup A s ?c = None \<Longrightarrow> is_ok (fst (put A flt s d)) \<Longrightarrow> obj_lookup A (snd (put A flt s d)) ?c = Some d"
    "obj_lookup A (snd (put A flt s d)) ?c \<in> {obj_lookup A s ?c, Some d}"
    by blast+
qed

lemma put_succeeds:
  "flt_write flt = None \<Longrightarrow> flt_rename flt = None \<Longrightarrow> fst (put A flt s d) = Inr (cid_from_data (oa_b3 A) d)"
  by (simp add: put_def Let_def)

lemma put_fails:
  "\<not> (probably_contains A (st_bloom s) (cid_from_data (oa_b3 A) d) \<and> obj_exists A flt s (cid_from_data (oa_b3 A) d)) \<Longrightarrow>
   flt_write flt \<noteq> None \<Longrightarrow> \<not> is_ok (fst (put A flt s d))"
  by (auto simp: put_def Let_def obj_exists_def)

lemma delete_clean:
  assumes "store_clean A s" "cid_wf c"
  shows "store_clean A (snd (delete_obj A flt s c))"
    "fst (delete_obj A flt s c) = Inr True \<Longrightarrow> obj_lookup A (snd (delete_obj A flt s c)) = (obj_lookup A s)(c := None)"
    "fst (delete_obj A flt s c) \<noteq> Inr True \<Longrightarrow> obj_lookup A (snd (delete_obj A flt s c)) = obj_lookup A s"
proof -
  note inv = store_cleanD(1)[OF assms(1)]
  note api = store_inv_api[OF inv]
  have l: "obj_lookup A (s\<lparr>st_fs := fs_remove (shard_path (oa_hex A) c) (st_fs s), st_cache := x\<rparr>) = (obj_lookup A s)(c := None)" for x
    using assms(2) api(3) by (intro ext) (simp add: obj_lookup_def)
  show "fst (delete_obj A flt s c) = Inr True \<Longrightarrow> obj_lookup A (snd (delete_obj A flt s c)) = (obj_lookup A s)(c := None)"
    "fst (delete_obj A flt s c) \<noteq> Inr True \<Longrightarrow> obj_lookup A (snd (delete_obj A flt s c)) = obj_lookup A s"
    using l by (auto simp: delete_obj_def Let_def split: option.splits io_error.splits)
  show "store_clean A (snd (delete_obj A flt s c))"
  proof (cases "fst (delete_obj A flt s c) = Inr True")
    case True
    then have "snd (delete_obj A flt s c) = s\<lparr>st_fs := fs_remove (shard_path (oa_hex A) c) (st_fs s), st_cache := lru_pop A (st_cache s) c\<rparr>"
      by (auto simp: delete_obj_def Let_def split: option.splits io_error.splits)
    then show ?thesis using delete_inv[OF inv, of flt c] assms(1) api(1) l
      by (auto simp: store_clean_def lru_ok_def)
  next
    case False
    then have "snd (delete_obj A flt s c) = s"
      by (auto simp: delete_obj_def Let_def split: option.splits io_error.splits)
    then show ?thesis using assms(1) by simp
  qed
qed

section \<open>The contract of a content store\<close>

text \<open>
  What the layers above rely on: an invariant, a lookup view, and how the two operations they
  call act on the view under any fault of the operating system.
\<close>

locale content_store =
  fixes put_op :: "'f \<Rightarrow> 's \<Rightarrow> bytes \<Rightarrow> (cid, 'e) result \<times> 's"
    and get_op :: "'f \<Rightarrow> 's \<Rightarrow> cid \<Rightarrow> (bytes option, 'e) result \<times> 's"
    and hash :: "bytes \<Rightarrow> cid" and lookup :: "'s \<Rightarrow> cid \<Rightarrow> bytes option"
    and inv :: "'s \<Rightarrow> bool" and fault_ok :: "'f \<Rightarrow> bool"
  assumes put_op_inv: "inv s \<Longrightarrow> inv (snd (put_op f s d))"
    and put_op_ok: "inv s \<Longrightarrow> fst (put_op f s d) = Inr c \<Longrightarrow> c = hash d \<and> lookup (snd (put_op f s d)) c \<noteq> None"
    and put_op_other: "inv s \<Longrightarrow> x \<noteq> hash d \<or> \<not> is_ok (fst (put_op f s d)) \<Longrightarrow>
      lookup (snd (put_op f s d)) x = lookup s x"
    and put_op_value: "inv s \<Longrightarrow> lookup (snd (put_op f s d)) (hash d) \<in> {lookup s (hash d), Some d}"
    and lookup_hash: "inv s \<Longrightarrow> lookup s c = Some d \<Longrightarrow> hash d = c"
    and get_op_inv: "inv s \<Longrightarrow> fault_ok f \<Longrightarrow> inv (snd (get_op f s c)) \<and> lookup (snd (get_op f s c)) = lookup s"
    and get_op_ok: "inv s \<Longrightarrow> fault_ok f \<Longrightarrow> fst (get_op f s c) = Inr r \<Longrightarrow> r = lookup s c"
begin

text \<open>Storing never loses an object, and what is stored can be read back up to a hash collision.\<close>

lemma put_op_keeps: "inv s \<Longrightarrow> lookup s x \<noteq> None \<Longrightarrow> lookup (snd (put_op f s d)) x \<noteq> None"
  using put_op_ok[of s f d] put_op_other[of s x d f]
  by (cases "fst (put_op f s d)") fastforce+

lemma get_after_put:
  assumes "inv s" "fst (put_op f s d) = Inr c" "fault_ok g" "fst (get_op g (snd (put_op f s d)) c) = Inr r"
  shows "\<exists>d'. r = Some d' \<and> hash d' = hash d"
proof -
  have i: "inv (snd (put_op f s d))" by (rule put_op_inv[OF assms(1)])
  obtain d' where d': "lookup (snd (put_op f s d)) c = Some d'" "c = hash d" using put_op_ok[OF assms(1,2)] by auto
  have "r = Some d'" using get_op_ok[OF i assms(3,4)] d'(1) by simp
  then show ?thesis using lookup_hash[OF i d'(1)] d'(2) by simp
qed

end

interpretation cas: content_store "put A" "get A" "cid_from_data (oa_b3 A)" "obj_lookup A" "store_clean A"
  "\<lambda>flt. flt_read flt \<noteq> Some IoNotFound" for A
proof
  fix s :: "('a, 'b) store" and f d c x r
  assume s: "store_clean A s"
  show "store_clean A (snd (put A f s d))" by (rule put_clean(1)[OF s])
  show "fst (put A f s d) = Inr c \<Longrightarrow> c = cid_from_data (oa_b3 A) d \<and> obj_lookup A (snd (put A f s d)) c \<noteq> None"
    by (rule put_clean(2)[OF s])
  show "x \<noteq> cid_from_data (oa_b3 A) d \<or> \<not> is_ok (fst (put A f s d)) \<Longrightarrow>
      obj_lookup A (snd (put A f s d)) x = obj_lookup A s x" by (rule put_clean(3)[OF s])
  show "obj_lookup A (snd (put A f s d)) (cid_from_data (oa_b3 A) d) \<in> {obj_lookup A s (cid_from_data (oa_b3 A) d), Some d}"
    by (rule put_clean(5)[OF s])
  show "obj_lookup A s c = Some d \<Longrightarrow> cid_from_data (oa_b3 A) d = c" by (rule store_cleanD(2)[OF s])
  show "flt_read f \<noteq> Some IoNotFound \<Longrightarrow>
      store_clean A (snd (get A f s c)) \<and> obj_lookup A (snd (get A f s c)) = obj_lookup A s"
    using get_keeps_clean[OF s] by blast
  show "flt_read f \<noteq> Some IoNotFound \<Longrightarrow> fst (get A f s c) = Inr r \<Longrightarrow> r = obj_lookup A s c"
    by (rule get_clean(1)[OF s])
qed

section \<open>Histories with damage\<close>

text \<open>
  The operations in any order and under any faults, interleaved with damage from outside: the
  contents of an existing file change, a file disappears, the process restarts and re-opens the
  directory.
\<close>

inductive store_step :: "('b, 'c) obj_api \<Rightarrow> ('b, 'c) store \<Rightarrow> ('b, 'c) store \<Rightarrow> bool" for A where
  op_put: "store_step A s (snd (put A flt s d))"
| op_get: "store_step A s (snd (get A flt s c))"
| op_delete: "store_step A s (snd (delete_obj A flt s c))"
| op_sender: "store_step A s (set_event_sender s)"
| damage: "fs_lookup (st_fs s) p \<noteq> None \<Longrightarrow> store_step A s (s\<lparr>st_fs := fs_write p d (st_fs s)\<rparr>)"
| vanish: "store_step A s (s\<lparr>st_fs := fs_remove p (st_fs s)\<rparr>)"
| reopen: "0 < n \<Longrightarrow> store_step A s (store_new A (st_fs s) n)"

inductive store_reachable :: "('b, 'c) obj_api \<Rightarrow> ('b, 'c) store \<Rightarrow> bool" for A where
  start: "0 < n \<Longrightarrow> store_reachable A (store_new A fs n)"
| step: "store_reachable A s \<Longrightarrow> store_step A s t \<Longrightarrow> store_reachable A t"

lemma store_step_inv:
  assumes "store_step A s t" "store_inv A s"
  shows "store_inv A t"
  using assms(1)
proof cases
  case (op_put flt d)
  then show ?thesis using put_inv[OF assms(2)] by simp
next
  case (op_get flt c)
  then show ?thesis using get_inv[OF assms(2)] by simp
next
  case (op_delete flt c)
  then show ?thesis using delete_inv[OF assms(2)] by simp
next
  case (reopen n)
  have "obj_api_ok A" using assms(2) by (simp add: store_inv_def)
  then show ?thesis unfolding reopen by (rule store_new_inv) (rule reopen)
qed (use assms(2) in \<open>auto simp: set_event_sender_def store_inv_def split: if_splits\<close>)

lemma store_reachable_inv: "store_reachable A s \<Longrightarrow> obj_api_ok A \<Longrightarrow> store_inv A s"
  by (induction rule: store_reachable.induct) (auto intro: store_new_inv store_step_inv)

section \<open>A concrete instance of the libraries\<close>

text \<open>
  Simple functions with the documented laws, for evaluating the model: hexadecimal text, a cache
  that never evicts, a filter that is an exact set, and a checksum in place of BLAKE3.
\<close>

definition hex_enc :: "bytes \<Rightarrow> string" where
  "hex_enc bs = concat (map hex2 bs)"

fun hex_dec :: "string \<Rightarrow> bytes option" where
  "hex_dec [] = Some []"
| "hex_dec [x] = None"
| "hex_dec (x # y # zs) =
     (case (position (\<lambda>c. c = x) ''0123456789abcdef'', position (\<lambda>c. c = y) ''0123456789abcdef'', hex_dec zs) of
        (Some a, Some b, Some r) \<Rightarrow> Some (of_nat (16 * a + b) # r) | _ \<Rightarrow> None)"

definition sum_hash :: "bytes \<Rightarrow> bytes" where
  "sum_hash d = sum_list d # replicate 31 0"

definition demo_api :: "(bytes list, cid \<Rightarrow> bytes option) obj_api" where
  "demo_api = \<lparr>oa_b3 = \<lparr>b3_hash = sum_hash, b3_xof = \<lambda>x i. 0\<rparr>,
     oa_hex = \<lparr>hex_encode = hex_enc, hex_decode = hex_dec\<rparr>,
     lru_new = \<lambda>n k. None, lru_get = \<lambda>c k. (c k, c), lru_peek = \<lambda>c k. c k,
     lru_put = \<lambda>c k v. c(k \<mapsto> v), lru_pop = \<lambda>c k. c(k := None),
     bl_new = [], bl_set = \<lambda>b x. x # b, bl_check = \<lambda>b x. x \<in> set b\<rparr>"

lemma position_hex_digit: "n < 16 \<Longrightarrow> position (\<lambda>c. c = hex_digit n) ''0123456789abcdef'' = Some n"
proof -
  have "list_all (\<lambda>n. position (\<lambda>c. c = hex_digit n) ''0123456789abcdef'' = Some n) [0..<16]" by code_simp
  then show "n < 16 \<Longrightarrow> ?thesis" by (simp add: list_all_iff)
qed

lemma hex_dec_enc: "hex_dec (hex_enc bs) = Some bs"
proof (induction bs)
  case Nil
  then show ?case by (simp add: hex_enc_def)
next
  case (Cons b bs)
  have "unat b < 256" using unat_lt2p[of b] by simp
  then have "unat b div 16 < 16" by (simp add: less_mult_imp_div_less)
  then have p: "position (\<lambda>c. c = hex_digit (unat b div 16)) ''0123456789abcdef'' = Some (unat b div 16)"
    "position (\<lambda>c. c = hex_digit (unat b mod 16)) ''0123456789abcdef'' = Some (unat b mod 16)"
    by (rule position_hex_digit, intro position_hex_digit) simp
  have e: "hex_enc (b # bs) = hex_digit (unat b div 16) # hex_digit (unat b mod 16) # hex_enc bs"
    by (simp add: hex_enc_def hex2_def)
  have "hex_dec (hex_enc (b # bs)) = Some (of_nat (16 * (unat b div 16) + unat b mod 16) # bs)"
    unfolding e hex_dec.simps p Cons.IH by (simp only: prod.case option.case)
  then show ?case by (simp only: mult_div_mod_eq of_nat_unat)
qed

lemma demo_api_ok: "obj_api_ok demo_api"
proof -
  have "length (hex_enc x) = 2 * length x" for x by (induction x) (simp_all add: hex_enc_def hex2_def)
  moreover have "take 2 (hex_enc (b # bs)) = hex2 b" for b bs by (simp add: hex_enc_def hex2_def)
  ultimately show ?thesis
    by (simp add: obj_api_ok_def lru_ok_def bloom_ok_def hex_api_ok_def hex_ok_def blake3_ok_def demo_api_def
        hex_dec_enc sum_hash_def)
qed

lemma store_new_clean: "obj_api_ok A \<Longrightarrow> 0 < n \<Longrightarrow> store_clean A (store_new A [] n)"
  using store_new_inv[of A n "[]"]
  by (simp add: store_clean_def obj_lookup_def store_new_def fs_lookup_def obj_api_ok_def lru_ok_def)

lemma demo_new_clean: "store_clean demo_api (store_new demo_api [] 4)"
  by (rule store_new_clean[OF demo_api_ok]) simp

text \<open>A re-opened store with one file, named for the contents \<open>[7]\<close>.\<close>

definition demo_store :: "bytes \<Rightarrow> (bytes list, cid \<Rightarrow> bytes option) store" where
  "demo_store d = store_new demo_api [(shard_path (oa_hex demo_api) (Cid (sum_hash [7])), d)] 4"

lemma demo_store_file: "fs_lookup (st_fs (demo_store d)) (shard_path (oa_hex demo_api) (Cid (sum_hash [7]))) = Some d"
  by (simp add: demo_store_def store_new_def fs_lookup_def)

section \<open>Properties\<close>

text \<open>
  C9. Integrity.  In every history of puts, gets, deletes, restarts, I/O faults and damage to the
  files, \<open>get\<close> never returns bytes whose hash differs from the requested identifier; and when the
  object on disk is intact and the read does not fail, \<open>get\<close> does return an object: neither the
  cache nor the Bloom filter hides it.
\<close>

theorem get_integrity_always:
  assumes "obj_api_ok A" "store_reachable A s"
  shows "(\<forall>flt d. fst (get A flt s c) = Inr (Some d) \<longrightarrow> cid_from_data (oa_b3 A) d = c) \<and>
    (\<forall>flt d. flt_read flt = None \<and> cid_wf c \<and> fs_lookup (st_fs s) (shard_path (oa_hex A) c) = Some d \<and>
       cid_from_data (oa_b3 A) d = c \<longrightarrow> (\<exists>d'. fst (get A flt s c) = Inr (Some d')))"
proof -
  have inv: "store_inv A s" using store_reachable_inv assms by blast
  have "\<exists>d'. fst (get A flt s c) = Inr (Some d')"
    if "flt_read flt = None" "cid_wf c" "fs_lookup (st_fs s) (shard_path (oa_hex A) c) = Some d" "cid_from_data (oa_b3 A) d = c" for flt d
  proof -
    have "probably_contains A (st_bloom s) c" using inv that by (simp add: store_inv_def)
    then show ?thesis using that by (simp add: get_result[OF inv] split: option.splits)
  qed
  then show ?thesis using get_integrity[OF inv] by blast
qed

theorem get_integrity_always_witness:
  "obj_api_ok demo_api \<and> store_reachable demo_api (demo_store [7]) \<and>
   (\<exists>d'. fst (get demo_api no_faults (demo_store [7]) (Cid (sum_hash [7]))) = Inr (Some d'))"
proof -
  have r: "store_reachable demo_api (demo_store [7])"
    unfolding demo_store_def by (rule store_reachable.start) simp
  moreover have "cid_wf (Cid (sum_hash [7]))" by (simp add: cid_wf_def CID_SIZE_def sum_hash_def)
  moreover have "cid_from_data (oa_b3 demo_api) [7] = Cid (sum_hash [7])" by (simp add: cid_from_data_def demo_api_def)
  ultimately show ?thesis
    using get_integrity_always[OF demo_api_ok r, of "Cid (sum_hash [7])"] demo_api_ok demo_store_file
    by (auto simp: no_faults_def)
qed

text \<open>
  C10. Refinement.  On an undamaged store the operations implement a map from identifiers to
  contents: \<open>get\<close> returns the entry, \<open>put\<close> adds the entry under the hash of the data or, on an
  error, changes no entry, and \<open>delete\<close> removes exactly its entry.  The store stays undamaged.
\<close>

theorem store_refines_map:
  assumes "store_clean A s" "cid_wf c" "flt_read flt = None"
  shows "fst (get A flt s c) = Inr (obj_lookup A s c) \<and>
    obj_lookup A (snd (get A flt s c)) = obj_lookup A s \<and> store_clean A (snd (get A flt s c)) \<and>
    (case fst (put A flt s d) of
       Inr k \<Rightarrow> k = cid_from_data (oa_b3 A) d \<and>
         (\<exists>d'. cid_from_data (oa_b3 A) d' = k \<and> obj_lookup A (snd (put A flt s d)) = (obj_lookup A s)(k \<mapsto> d') \<and>
           (obj_lookup A s k = None \<longrightarrow> d' = d))
     | Inl e \<Rightarrow> obj_lookup A (snd (put A flt s d)) = obj_lookup A s) \<and>
    store_clean A (snd (put A flt s d)) \<and>
    obj_lookup A (snd (delete_obj A flt s c)) =
      (if fst (delete_obj A flt s c) = Inr True then (obj_lookup A s)(c := None) else obj_lookup A s) \<and>
    store_clean A (snd (delete_obj A flt s c))"
proof -
  have f: "flt_read flt \<noteq> Some IoNotFound" using assms(3) by simp
  have "case fst (put A flt s d) of
       Inr k \<Rightarrow> k = cid_from_data (oa_b3 A) d \<and>
         (\<exists>d'. cid_from_data (oa_b3 A) d' = k \<and> obj_lookup A (snd (put A flt s d)) = (obj_lookup A s)(k \<mapsto> d') \<and>
           (obj_lookup A s k = None \<longrightarrow> d' = d))
     | Inl e \<Rightarrow> obj_lookup A (snd (put A flt s d)) = obj_lookup A s"
  proof (cases "fst (put A flt s d)")
    case (Inl e)
    then show ?thesis using put_clean(3)[OF assms(1), of _ d flt] by auto
  next
    case (Inr k)
    obtain d' where d': "obj_lookup A (snd (put A flt s d)) k = Some d'" "k = cid_from_data (oa_b3 A) d"
      using put_clean(2)[OF assms(1) Inr] by blast
    have "obj_lookup A (snd (put A flt s d)) = (obj_lookup A s)(k \<mapsto> d')"
      using d' put_clean(3)[OF assms(1), of _ d flt] by (intro ext) simp
    moreover have "cid_from_data (oa_b3 A) d' = k" by (rule store_cleanD(2)[OF put_clean(1)[OF assms(1)] d'(1)])
    moreover have "obj_lookup A s k = None \<longrightarrow> d' = d" using put_clean(4)[OF assms(1), of d flt] Inr d' by auto
    ultimately show ?thesis using Inr d'(2) by auto
  qed
  then show ?thesis
    using get_clean(2)[OF assms(1) f assms(3,2)] get_keeps_clean[OF assms(1) f, of c] put_clean(1)[OF assms(1), of flt d]
      delete_clean[OF assms(1,2), of flt] by simp
qed

theorem store_refines_map_witness:
  "store_clean demo_api (store_new demo_api [] 4) \<and>
   fst (get demo_api no_faults (store_new demo_api [] 4) (Cid (sum_hash []))) = Inr None"
proof -
  have c: "store_clean demo_api (store_new demo_api [] 4)" by (rule demo_new_clean)
  have "cid_wf (Cid (sum_hash []))" by (simp add: cid_wf_def CID_SIZE_def sum_hash_def)
  from store_refines_map[OF c this, of no_faults "[]"] c show ?thesis
    by (simp add: no_faults_def obj_lookup_def store_new_def fs_lookup_def)
qed

lemma put_duplicate:
  "probably_contains A (st_bloom s) (cid_from_data (oa_b3 A) d) \<Longrightarrow> obj_exists A flt s (cid_from_data (oa_b3 A) d) \<Longrightarrow>
   fst (put A flt s d) = Inr (cid_from_data (oa_b3 A) d) \<and> st_fs (snd (put A flt s d)) = st_fs s \<and>
   st_bloom (snd (put A flt s d)) = st_bloom s \<and> st_cache (snd (put A flt s d)) = st_cache s"
  by (simp add: put_def Let_def obj_exists_def)

text \<open>
  A damaged object is not repaired by writing it again: when the file of an identifier holds
  bytes of another hash and the cache does not hold the object, \<open>put\<close> of the right data reports
  success through the deduplication path, and every later \<open>get\<close> still fails with an integrity
  violation.  Only \<open>delete\<close> followed by \<open>put\<close> restores the object.
\<close>

theorem put_keeps_damage:
  assumes "store_inv A s" "fs_lookup (st_fs s) (shard_path (oa_hex A) c) = Some bad" "cid_from_data (oa_b3 A) bad \<noteq> c"
    and "cid_from_data (oa_b3 A) d = c" "lru_peek A (st_cache s) c = None"
    and "\<not> flt_meta flt" "flt_read flt = None"
  shows "fst (put A flt s d) = Inr c \<and> fst (get A flt (snd (put A flt s d)) c) = Inl (IntegrityViolation c)"
proof -
  have "blake3_ok (oa_b3 A)" using assms(1) by (simp add: store_inv_def obj_api_ok_def)
  then have wf: "cid_wf c" using assms(4) cid_from_data_wf by blast
  then have b: "probably_contains A (st_bloom s) c" using assms(1,2) by (simp add: store_inv_def)
  have "obj_exists A flt s c" using assms(2,6) by (simp add: obj_exists_def)
  then have p: "fst (put A flt s d) = Inr c" "st_fs (snd (put A flt s d)) = st_fs s"
    "st_bloom (snd (put A flt s d)) = st_bloom s" "st_cache (snd (put A flt s d)) = st_cache s"
    using put_duplicate[of A s d flt] b assms(4) by simp_all
  then show ?thesis using assms b by (simp add: get_result[OF put_inv[OF assms(1)]])
qed

theorem put_keeps_damage_witness:
  "cid_from_data (oa_b3 demo_api) [7] = Cid (sum_hash [7]) \<and>
   fst (put demo_api no_faults (demo_store [8]) [7]) = Inr (Cid (sum_hash [7])) \<and>
   fst (get demo_api no_faults (snd (put demo_api no_faults (demo_store [8]) [7])) (Cid (sum_hash [7]))) =
     Inl (IntegrityViolation (Cid (sum_hash [7])))"
proof -
  have h: "cid_from_data (oa_b3 demo_api) [7] = Cid (sum_hash [7])" by (simp add: cid_from_data_def demo_api_def)
  have "store_inv demo_api (demo_store [8])" unfolding demo_store_def by (rule store_new_inv[OF demo_api_ok]) simp
  moreover have "fs_lookup (st_fs (demo_store [8])) (shard_path (oa_hex demo_api) (Cid (sum_hash [7]))) = Some [8]"
    by (rule demo_store_file)
  moreover have "cid_from_data (oa_b3 demo_api) [8] \<noteq> Cid (sum_hash [7])"
    by (simp add: cid_from_data_def demo_api_def sum_hash_def)
  moreover have "lru_peek demo_api (st_cache (demo_store [8])) (Cid (sum_hash [7])) = None"
    by (simp add: demo_store_def store_new_def demo_api_def)
  ultimately show ?thesis using put_keeps_damage[OF _ _ _ h, of "demo_store [8]" "[8]" no_faults] h by (simp add: no_faults_def)
qed

end
