(* ===== verification/Put_Race.thy ===== *)
theory Put_Race
  imports ObjStore
begin

text \<open>
  Concurrent calls of \<open>ContentAddressedStore::put\<close> with the same data (store.rs).  The store is
  shared between tasks, \<open>put\<close> takes no lock, and every call for one identifier uses the same
  temporary path.  The model has the temporary and the final path as links to inodes, as a POSIX
  file system does: opening the temporary file truncates the inode it links to, a writer keeps its
  inode across a rename, and a write past the end fills the gap with zeros.  A step is one system
  call or one access to the in-memory state of one task; tasks interleave freely.
\<close>

section \<open>Tasks and the shared directory\<close>

datatype put_phase =
    Start
  | Stat
  | Opening
  | Writing nat nat
  | Renaming
  | Publishing
  | Cleaning
  | Returned
  | Failed

record put_shared =
  in_bloom :: bool
  dest_link :: "nat option"
  tmp_link :: "nat option"
  inode :: "nat \<Rightarrow> bytes"
  next_inode :: nat
  task :: "nat \<Rightarrow> put_phase"

definition overwrite :: "nat \<Rightarrow> bytes \<Rightarrow> bytes \<Rightarrow> bytes" where
  "overwrite off bs xs = take off (xs @ replicate off 0) @ bs @ drop (off + length bs) xs"

definition put_shared_init :: put_shared where
  "put_shared_init = \<lparr>in_bloom = False, dest_link = None, tmp_link = None, inode = (\<lambda>_. []), next_inode = 0, task = (\<lambda>_. Start)\<rparr>"

text \<open>
  The steps of task \<open>i\<close> of \<open>n\<close>, for data \<open>d\<close>: the filter check and the \<open>metadata\<close> call of the fast
  path, \<open>tokio::fs::write\<close> as open, writes of any sizes and close, the rename, its failure with the
  removal of the temporary file, and the update of the filter.
\<close>

inductive put_step :: "bytes \<Rightarrow> nat \<Rightarrow> put_shared \<Rightarrow> put_shared \<Rightarrow> bool" for d n where
  bloom_hit: "i < n \<Longrightarrow> task s i = Start \<Longrightarrow> in_bloom s \<Longrightarrow> put_step d n s (s\<lparr>task := (task s)(i := Stat)\<rparr>)"
| bloom_miss: "i < n \<Longrightarrow> task s i = Start \<Longrightarrow> \<not> in_bloom s \<Longrightarrow> put_step d n s (s\<lparr>task := (task s)(i := Opening)\<rparr>)"
| stat_hit: "i < n \<Longrightarrow> task s i = Stat \<Longrightarrow> dest_link s \<noteq> None \<Longrightarrow> put_step d n s (s\<lparr>task := (task s)(i := Returned)\<rparr>)"
| stat_miss: "i < n \<Longrightarrow> task s i = Stat \<Longrightarrow> dest_link s = None \<Longrightarrow> put_step d n s (s\<lparr>task := (task s)(i := Opening)\<rparr>)"
| open_new: "i < n \<Longrightarrow> task s i = Opening \<Longrightarrow> tmp_link s = None \<Longrightarrow>
    put_step d n s (s\<lparr>tmp_link := Some (next_inode s), inode := (inode s)(next_inode s := []), next_inode := next_inode s + 1,
      task := (task s)(i := Writing (next_inode s) 0)\<rparr>)"
| open_old: "i < n \<Longrightarrow> task s i = Opening \<Longrightarrow> tmp_link s = Some k \<Longrightarrow>
    put_step d n s (s\<lparr>inode := (inode s)(k := []), task := (task s)(i := Writing k 0)\<rparr>)"
| write_some: "i < n \<Longrightarrow> task s i = Writing k off \<Longrightarrow> 0 < m \<Longrightarrow> off + m \<le> length d \<Longrightarrow>
    put_step d n s (s\<lparr>inode := (inode s)(k := overwrite off (take m (drop off d)) (inode s k)),
      task := (task s)(i := Writing k (off + m))\<rparr>)"
| close_tmp: "i < n \<Longrightarrow> task s i = Writing k (length d) \<Longrightarrow> put_step d n s (s\<lparr>task := (task s)(i := Renaming)\<rparr>)"
| rename_tmp: "i < n \<Longrightarrow> task s i = Renaming \<Longrightarrow> tmp_link s = Some k \<Longrightarrow>
    put_step d n s (s\<lparr>dest_link := Some k, tmp_link := None, task := (task s)(i := Publishing)\<rparr>)"
| rename_fails: "i < n \<Longrightarrow> task s i = Renaming \<Longrightarrow> tmp_link s = None \<Longrightarrow> put_step d n s (s\<lparr>task := (task s)(i := Cleaning)\<rparr>)"
| remove_tmp: "i < n \<Longrightarrow> task s i = Cleaning \<Longrightarrow> put_step d n s (s\<lparr>tmp_link := None, task := (task s)(i := Failed)\<rparr>)"
| publish: "i < n \<Longrightarrow> task s i = Publishing \<Longrightarrow> put_step d n s (s\<lparr>in_bloom := True, task := (task s)(i := Returned)\<rparr>)"

inductive put_reach :: "bytes \<Rightarrow> nat \<Rightarrow> put_shared \<Rightarrow> bool" for d n where
  init: "put_reach d n put_shared_init"
| step: "put_reach d n s \<Longrightarrow> put_step d n s t \<Longrightarrow> put_reach d n t"

section \<open>Invariant\<close>

definition byte_ok :: "bytes \<Rightarrow> bytes \<Rightarrow> nat \<Rightarrow> bool" where
  "byte_ok d xs p \<longleftrightarrow> p < length xs \<and> xs ! p = d ! p"

text \<open>Every byte of every inode is right or will still be written by a task that has it open.\<close>

definition covered :: "bytes \<Rightarrow> put_shared \<Rightarrow> nat \<Rightarrow> nat \<Rightarrow> bool" where
  "covered d s k p \<longleftrightarrow> byte_ok d (inode s k) p \<or> (\<exists>j off. task s j = Writing k off \<and> off \<le> p)"

definition put_inv_links :: "bytes \<Rightarrow> put_shared \<Rightarrow> bool" where
  "put_inv_links d s \<longleftrightarrow>
     (\<forall>k. length (inode s k) \<le> length d) \<and>
     (\<forall>k. k < next_inode s \<longrightarrow> (\<forall>p < length d. covered d s k p)) \<and>
     (\<forall>k. tmp_link s = Some k \<longrightarrow> k < next_inode s) \<and> (\<forall>k. dest_link s = Some k \<longrightarrow> k < next_inode s) \<and>
     (\<forall>j k off. task s j = Writing k off \<longrightarrow> k < next_inode s \<and> off \<le> length d)"

definition some_published :: "nat \<Rightarrow> put_shared \<Rightarrow> bool" where
  "some_published n s \<longleftrightarrow> (\<exists>j < n. task s j \<in> {Publishing, Returned})"

definition put_inv_phases :: "nat \<Rightarrow> put_shared \<Rightarrow> bool" where
  "put_inv_phases n s \<longleftrightarrow>
     (\<forall>j. task s j \<in> {Publishing, Returned, Cleaning, Failed} \<longrightarrow> dest_link s \<noteq> None) \<and>
     (\<forall>j k off. task s j = Renaming \<or> task s j = Writing k off \<longrightarrow> tmp_link s \<noteq> None \<or> dest_link s \<noteq> None) \<and>
     (dest_link s \<noteq> None \<longrightarrow> some_published n s)"

lemma length_overwrite: "off + length bs \<le> m \<Longrightarrow> length xs \<le> m \<Longrightarrow> length (overwrite off bs xs) \<le> m"
  by (simp add: overwrite_def)

lemma byte_ok_overwrite:
  assumes "off + m \<le> length d"
  shows "byte_ok d xs p \<Longrightarrow> byte_ok d (overwrite off (take m (drop off d)) xs) p"
    and "off \<le> p \<Longrightarrow> p < off + m \<Longrightarrow> byte_ok d (overwrite off (take m (drop off d)) xs) p"
  using assms by (auto simp: byte_ok_def overwrite_def nth_append min_def)

lemma covered_keep:
  assumes "covered d s k p" "inode t k = inode s k" "\<forall>j off. task s j = Writing k off \<and> off \<le> p \<longrightarrow> task t j = task s j"
  shows "covered d t k p"
  using assms unfolding covered_def by metis

lemma put_step_covered:
  assumes "put_step d n s t" "put_inv_links d s" "p < length d" "k < next_inode t"
  shows "covered d t k p"
proof -
  have old: "covered d s k p" if "k < next_inode s" using that assms(2,3) by (simp add: put_inv_links_def)
  show ?thesis using assms(1)
  proof cases
    case (open_new i)
    show ?thesis
    proof (cases "k = next_inode s")
      case True
      then show ?thesis using open_new by (auto simp: covered_def intro: exI[of _ i])
    next
      case False
      then have "covered d s k p" using assms(2-4) open_new by (simp add: put_inv_links_def)
      then show ?thesis using open_new False by (intro covered_keep[of d s k p t]) auto
    qed
  next
    case (open_old i k')
    show ?thesis
    proof (cases "k = k'")
      case True
      then show ?thesis using open_old by (auto simp: covered_def intro: exI[of _ i])
    next
      case False
      have "covered d s k p" using assms(2-4) open_old by (simp add: put_inv_links_def)
      then show ?thesis using open_old False by (intro covered_keep[of d s k p t]) auto
    qed
  next
    case (write_some i k' off m)
    have c: "covered d s k p" using assms(2-4) write_some by (simp add: put_inv_links_def)
    show ?thesis
    proof (cases "k = k' \<and> off \<le> p")
      case True
      then show ?thesis using write_some byte_ok_overwrite(2)[OF write_some(5), of p "inode s k'"]
        by (cases "p < off + m") (auto simp: covered_def intro: exI[of _ i])
    next
      case False
      from c show ?thesis unfolding covered_def
      proof (elim disjE exE conjE)
        assume "byte_ok d (inode s k) p"
        then show "byte_ok d (inode t k) p \<or> (\<exists>j off. task t j = Writing k off \<and> off \<le> p)"
          using write_some(1) byte_ok_overwrite(1)[OF write_some(5), of "inode s k"] by (cases "k = k'") simp_all
      next
        fix j off'
        assume j: "task s j = Writing k off'" "off' \<le> p"
        then have "j \<noteq> i" using False write_some(3) by auto
        then show "byte_ok d (inode t k) p \<or> (\<exists>j off. task t j = Writing k off \<and> off \<le> p)"
          using j write_some(1) by auto
      qed
    qed
  qed (use assms(3,4) in \<open>auto intro!: covered_keep[OF old]\<close>)
qed

lemma put_step_links:
  assumes "put_step d n s t" "put_inv_links d s"
  shows "put_inv_links d t"
proof -
  have "\<forall>k. k < next_inode t \<longrightarrow> (\<forall>p < length d. covered d t k p)" using put_step_covered[OF assms] by blast
  moreover have "(\<forall>k. length (inode t k) \<le> length d) \<and>
     (\<forall>k. tmp_link t = Some k \<longrightarrow> k < next_inode t) \<and> (\<forall>k. dest_link t = Some k \<longrightarrow> k < next_inode t) \<and>
     (\<forall>j k off. task t j = Writing k off \<longrightarrow> k < next_inode t \<and> off \<le> length d)"
    using assms by cases (auto simp: put_inv_links_def less_Suc_eq intro!: length_overwrite)
  ultimately show ?thesis by (simp add: put_inv_links_def)
qed

lemma some_published_task:
  assumes "some_published n s" "task t = (task s)(i := ph)" "task s i \<in> {Publishing, Returned} \<longrightarrow> ph \<in> {Publishing, Returned}"
  shows "some_published n t"
  using assms unfolding some_published_def by (metis fun_upd_apply)

lemma put_step_published:
  assumes "put_step d n s t" "dest_link s \<noteq> None \<longrightarrow> some_published n s" "dest_link t \<noteq> None"
  shows "some_published n t"
  using assms(1)
proof cases
  case (rename_tmp i k)
  then show ?thesis by (auto simp: some_published_def)
qed (use assms(2,3) in \<open>auto elim!: some_published_task\<close>)

lemma put_step_phases:
  assumes "put_step d n s t" "put_inv_phases n s"
  shows "put_inv_phases n t"
proof -
  have "(\<forall>j. task t j \<in> {Publishing, Returned, Cleaning, Failed} \<longrightarrow> dest_link t \<noteq> None) \<and>
     (\<forall>j k off. task t j = Renaming \<or> task t j = Writing k off \<longrightarrow> tmp_link t \<noteq> None \<or> dest_link t \<noteq> None)"
    using assms by cases (auto simp: put_inv_phases_def, blast+)
  moreover have "dest_link t \<noteq> None \<longrightarrow> some_published n t"
    using put_step_published[OF assms(1)] assms(2) by (simp add: put_inv_phases_def)
  ultimately show ?thesis by (simp add: put_inv_phases_def)
qed

lemma put_reach_inv: "put_reach d n s \<Longrightarrow> put_inv_links d s \<and> put_inv_phases n s"
proof (induction rule: put_reach.induct)
  case init
  then show ?case by (simp add: put_inv_links_def put_inv_phases_def put_shared_init_def)
next
  case (step s t)
  then show ?case using put_step_links put_step_phases by blast
qed

lemma put_reach_idle: "put_reach d n s \<Longrightarrow> \<not> i < n \<Longrightarrow> task s i = Start"
proof (induction rule: put_reach.induct)
  case init
  then show ?case by (simp add: put_shared_init_def)
next
  case (step s t)
  from step.hyps(2) step.IH[OF step.prems] step.prems show ?case by cases auto
qed

section \<open>Properties\<close>

text \<open>
  Convergence of concurrent puts.  However \<open>n\<close> concurrent calls of \<open>put\<close> with the same data
  interleave, when all of them have returned the final path holds exactly the data, and at least
  one of them reported success.
\<close>

theorem concurrent_puts_converge:
  assumes "put_reach d n s" "0 < n" "\<forall>i < n. task s i \<in> {Returned, Failed}"
  shows "(\<exists>k. dest_link s = Some k \<and> inode s k = d) \<and> (\<exists>i < n. task s i = Returned)"
proof -
  have inv: "put_inv_links d s" "put_inv_phases n s" using put_reach_inv[OF assms(1)] by auto
  have "task s 0 \<in> {Returned, Failed}" using assms(2,3) by simp
  then obtain k where k: "dest_link s = Some k" using inv(2) by (auto simp: put_inv_phases_def)
  have nw: "task s j \<noteq> Writing k off" for j off using assms(3) put_reach_idle[OF assms(1), of j] by (cases "j < n") auto
  have "covered d s k p" if "p < length d" for p using that inv(1) k by (simp add: put_inv_links_def)
  then have "byte_ok d (inode s k) p" if "p < length d" for p using that nw by (auto simp: covered_def)
  then have ok: "p < length (inode s k) \<and> inode s k ! p = d ! p" if "p < length d" for p
    using that by (simp add: byte_ok_def)
  have "length (inode s k) \<le> length d" using inv(1) by (simp add: put_inv_links_def)
  moreover have "length d \<le> length (inode s k)" using ok[of "length (inode s k)"] by (rule_tac ccontr) simp
  ultimately have "inode s k = d" using ok by (intro nth_equalityI) simp_all
  moreover have "\<exists>i < n. task s i = Returned"
    using inv(2) k assms(3) by (fastforce simp: put_inv_phases_def some_published_def)
  ultimately show ?thesis using k by blast
qed

lemma put_alone:
  assumes "d \<noteq> []"
  shows "\<exists>s. put_reach d 1 s \<and> task s 0 = Returned"
proof -
  let ?s1 = "put_shared_init\<lparr>task := (task put_shared_init)(0 := Opening)\<rparr>"
  let ?s2 = "?s1\<lparr>tmp_link := Some (next_inode ?s1), inode := (inode ?s1)(next_inode ?s1 := []), next_inode := next_inode ?s1 + 1,
      task := (task ?s1)(0 := Writing (next_inode ?s1) 0)\<rparr>"
  let ?s3 = "?s2\<lparr>inode := (inode ?s2)(0 := overwrite 0 (take (length d) (drop 0 d)) (inode ?s2 0)),
      task := (task ?s2)(0 := Writing 0 (0 + length d))\<rparr>"
  let ?s4 = "?s3\<lparr>task := (task ?s3)(0 := Renaming)\<rparr>"
  let ?s5 = "?s4\<lparr>dest_link := Some 0, tmp_link := None, task := (task ?s4)(0 := Publishing)\<rparr>"
  let ?s6 = "?s5\<lparr>in_bloom := True, task := (task ?s5)(0 := Returned)\<rparr>"
  note i = put_shared_init_def
  have "put_reach d 1 ?s1" by (rule put_reach.step[OF put_reach.init put_step.bloom_miss]) (simp_all add: i)
  then have "put_reach d 1 ?s2" by (rule put_reach.step[OF _ put_step.open_new]) (simp_all add: i)
  then have "put_reach d 1 ?s3" by (rule put_reach.step[OF _ put_step.write_some]) (simp_all add: i assms)
  then have "put_reach d 1 ?s4" by (rule put_reach.step[OF _ put_step.close_tmp]) (simp_all add: i)
  then have "put_reach d 1 ?s5" by (rule put_reach.step[OF _ put_step.rename_tmp]) (simp_all add: i)
  then have "put_reach d 1 ?s6" by (rule put_reach.step[OF _ put_step.publish]) (simp_all add: i)
  then show ?thesis by (intro exI[of _ ?s6]) simp
qed

theorem concurrent_puts_converge_witness:
  "\<exists>s. put_reach [7] 1 s \<and> task s 0 = Returned \<and> (\<exists>k. dest_link s = Some k \<and> inode s k = [7])"
proof -
  obtain s where s: "put_reach [7] 1 s" "task s 0 = Returned" using put_alone[of "[7]"] by auto
  with concurrent_puts_converge[OF s(1)] show ?thesis by (intro exI[of _ s]) simp
qed

text \<open>
  C39. Concurrent puts of the same data share one temporary file, so the promise that a reader never
  observes a partial object fails: two calls can reach a state in which one has returned success
  and published the object while the file at the final path is empty, truncated by the other call.
  And two calls can end with one success and one error.
\<close>

theorem concurrent_put_anomalies:
  assumes "d \<noteq> []"
  shows "(\<exists>s k. put_reach d 2 s \<and> task s 0 = Returned \<and> in_bloom s \<and> dest_link s = Some k \<and> inode s k = []) \<and>
    (\<exists>s. put_reach d 2 s \<and> task s 0 = Returned \<and> task s 1 = Failed)"
proof -
  let ?s0 = "put_shared_init\<lparr>task := (task put_shared_init)(0 := Opening)\<rparr>"
  let ?s1 = "?s0\<lparr>task := (task ?s0)(1 := Opening)\<rparr>"
  let ?s2 = "?s1\<lparr>tmp_link := Some (next_inode ?s1), inode := (inode ?s1)(next_inode ?s1 := []), next_inode := next_inode ?s1 + 1,
      task := (task ?s1)(0 := Writing (next_inode ?s1) 0)\<rparr>"
  let ?s3 = "?s2\<lparr>inode := (inode ?s2)(0 := overwrite 0 (take (length d) (drop 0 d)) (inode ?s2 0)),
      task := (task ?s2)(0 := Writing 0 (0 + length d))\<rparr>"
  let ?s4 = "?s3\<lparr>task := (task ?s3)(0 := Renaming)\<rparr>"
  let ?s5 = "?s4\<lparr>inode := (inode ?s4)(0 := []), task := (task ?s4)(1 := Writing 0 0)\<rparr>"
  let ?s6 = "?s5\<lparr>dest_link := Some 0, tmp_link := None, task := (task ?s5)(0 := Publishing)\<rparr>"
  let ?s7 = "?s6\<lparr>in_bloom := True, task := (task ?s6)(0 := Returned)\<rparr>"
  note i = put_shared_init_def
  have "put_reach d 2 ?s0" by (rule put_reach.step[OF put_reach.init put_step.bloom_miss]) (simp_all add: i)
  then have "put_reach d 2 ?s1" by (rule put_reach.step[OF _ put_step.bloom_miss]) (simp_all add: i)
  then have "put_reach d 2 ?s2" by (rule put_reach.step[OF _ put_step.open_new]) (simp_all add: i)
  then have "put_reach d 2 ?s3" by (rule put_reach.step[OF _ put_step.write_some]) (simp_all add: i assms)
  then have "put_reach d 2 ?s4" by (rule put_reach.step[OF _ put_step.close_tmp]) (simp_all add: i)
  then have "put_reach d 2 ?s5" by (rule put_reach.step[OF _ put_step.open_old]) (simp_all add: i)
  then have "put_reach d 2 ?s6" by (rule put_reach.step[OF _ put_step.rename_tmp]) (simp_all add: i)
  then have r7: "put_reach d 2 ?s7" by (rule put_reach.step[OF _ put_step.publish]) (simp_all add: i)
  obtain s where s: "put_reach d 2 s" "task s 0 = Returned" "task s (Suc 0) = Writing 0 0" "in_bloom s" "dest_link s = Some 0"
    "tmp_link s = None" "inode s 0 = []"
    by (rule that[OF r7]) simp_all
  let ?t1 = "s\<lparr>inode := (inode s)(0 := overwrite 0 (take (length d) (drop 0 d)) (inode s 0)),
      task := (task s)(1 := Writing 0 (0 + length d))\<rparr>"
  let ?t2 = "?t1\<lparr>task := (task ?t1)(1 := Renaming)\<rparr>"
  let ?t3 = "?t2\<lparr>task := (task ?t2)(1 := Cleaning)\<rparr>"
  let ?t4 = "?t3\<lparr>tmp_link := None, task := (task ?t3)(1 := Failed)\<rparr>"
  have "put_reach d 2 ?t1" by (rule put_reach.step[OF s(1) put_step.write_some]) (simp_all add: s assms)
  then have "put_reach d 2 ?t2" by (rule put_reach.step[OF _ put_step.close_tmp]) simp_all
  then have "put_reach d 2 ?t3" by (rule put_reach.step[OF _ put_step.rename_fails]) (simp_all add: s)
  then have "put_reach d 2 ?t4" by (rule put_reach.step[OF _ put_step.remove_tmp]) simp_all
  moreover have "task ?t4 0 = Returned \<and> task ?t4 1 = Failed" by (simp add: s)
  ultimately show ?thesis using s by blast
qed

theorem concurrent_put_anomalies_witness:
  "[7 :: u8] \<noteq> [] \<and> (\<exists>s. put_reach [7] 2 s \<and> task s 0 = Returned \<and> task s 1 = Failed)"
  using concurrent_put_anomalies[of "[7]"] by simp

end
