(* ===== verification/Obj_Cache.thy ===== *)
theory Obj_Cache
  imports ObjStore
begin

text \<open>
  The object cache (\<open>craftec-obj/src/cache.rs\<close>): a lock around the cache of the \<open>lru\<close> crate, which is a
  parameter.  Each operation holds the lock, so it is one step on the contents.  The laws of the crate are
  stated on its \<open>iter\<close>, which lists the entries from the most to the least recently used one.  The
  cache is shown to have the laws that the object store relies on, and to stay within its capacity.
\<close>

section \<open>The cache of the crate\<close>

record 'l lru_crate =
  lc_new :: "nat \<Rightarrow> 'l"
  lc_cap :: "'l \<Rightarrow> nat"
  lc_iter :: "'l \<Rightarrow> (cid \<times> bytes) list"
  lc_get :: "'l \<Rightarrow> cid \<Rightarrow> bytes option \<times> 'l"
  lc_peek :: "'l \<Rightarrow> cid \<Rightarrow> bytes option"
  lc_put :: "'l \<Rightarrow> cid \<Rightarrow> bytes \<Rightarrow> 'l"
  lc_pop :: "'l \<Rightarrow> cid \<Rightarrow> bytes option \<times> 'l"
  lc_len :: "'l \<Rightarrow> nat"
  lc_contains :: "'l \<Rightarrow> cid \<Rightarrow> bool"
  lc_clear :: "'l \<Rightarrow> 'l"

text \<open>The order of use: an entry that is used moves to the front.\<close>

definition promote :: "cid \<Rightarrow> (cid \<times> bytes) list \<Rightarrow> (cid \<times> bytes) list" where
  "promote k xs = (case map_of xs k of None \<Rightarrow> xs | Some v \<Rightarrow> (k, v) # AList.delete k xs)"

definition lru_crate_ok :: "'l lru_crate \<Rightarrow> bool" where
  "lru_crate_ok K \<longleftrightarrow>
     (\<forall>n. 0 < n \<longrightarrow> lc_iter K (lc_new K n) = [] \<and> lc_cap K (lc_new K n) = n) \<and>
     (\<forall>l. 0 < lc_cap K l \<and> length (lc_iter K l) \<le> lc_cap K l \<and> distinct (map fst (lc_iter K l))) \<and>
     (\<forall>l k. fst (lc_get K l k) = map_of (lc_iter K l) k \<and> lc_iter K (snd (lc_get K l k)) = promote k (lc_iter K l) \<and>
        lc_cap K (snd (lc_get K l k)) = lc_cap K l) \<and>
     (\<forall>l k. lc_peek K l k = map_of (lc_iter K l) k) \<and>
     (\<forall>l k v. lc_iter K (lc_put K l k v) = take (lc_cap K l) ((k, v) # AList.delete k (lc_iter K l)) \<and> lc_cap K (lc_put K l k v) = lc_cap K l) \<and>
     (\<forall>l k. fst (lc_pop K l k) = map_of (lc_iter K l) k \<and> lc_iter K (snd (lc_pop K l k)) = AList.delete k (lc_iter K l) \<and>
        lc_cap K (snd (lc_pop K l k)) = lc_cap K l) \<and>
     (\<forall>l. lc_len K l = length (lc_iter K l)) \<and>
     (\<forall>l k. lc_contains K l k = (map_of (lc_iter K l) k \<noteq> None)) \<and>
     (\<forall>l. lc_iter K (lc_clear K l) = [] \<and> lc_cap K (lc_clear K l) = lc_cap K l)"

section \<open>The operations\<close>

record 'l object_cache =
  oc_inner :: 'l
  oc_capacity :: nat

text \<open>\<open>None\<close> is the panic at capacity zero.\<close>

definition cache_new :: "'l lru_crate \<Rightarrow> nat \<Rightarrow> 'l object_cache option" where
  "cache_new K capacity = (if capacity = 0 then None else Some \<lparr>oc_inner = lc_new K capacity, oc_capacity = capacity\<rparr>)"

definition cache_get :: "'l lru_crate \<Rightarrow> 'l object_cache \<Rightarrow> cid \<Rightarrow> bytes option \<times> 'l object_cache" where
  "cache_get K oc c =
     (case lc_get K (oc_inner oc) c of
        (Some d, l) \<Rightarrow> (Some d, oc\<lparr>oc_inner := l\<rparr>)
      | (None, l) \<Rightarrow> (None, oc\<lparr>oc_inner := l\<rparr>))"

definition cache_peek :: "'l lru_crate \<Rightarrow> 'l object_cache \<Rightarrow> cid \<Rightarrow> bytes option" where
  "cache_peek K oc c = lc_peek K (oc_inner oc) c"

definition cache_put :: "'l lru_crate \<Rightarrow> 'l object_cache \<Rightarrow> cid \<Rightarrow> bytes \<Rightarrow> 'l object_cache" where
  "cache_put K oc c d = oc\<lparr>oc_inner := lc_put K (oc_inner oc) c d\<rparr>"

definition cache_remove :: "'l lru_crate \<Rightarrow> 'l object_cache \<Rightarrow> cid \<Rightarrow> bytes option \<times> 'l object_cache" where
  "cache_remove K oc c = (case lc_pop K (oc_inner oc) c of (r, l) \<Rightarrow> (r, oc\<lparr>oc_inner := l\<rparr>))"

definition cache_len :: "'l lru_crate \<Rightarrow> 'l object_cache \<Rightarrow> nat" where
  "cache_len K oc = lc_len K (oc_inner oc)"

definition cache_is_empty :: "'l lru_crate \<Rightarrow> 'l object_cache \<Rightarrow> bool" where
  "cache_is_empty K oc \<longleftrightarrow> lc_len K (oc_inner oc) = 0"

definition cache_contains :: "'l lru_crate \<Rightarrow> 'l object_cache \<Rightarrow> cid \<Rightarrow> bool" where
  "cache_contains K oc c \<longleftrightarrow> lc_contains K (oc_inner oc) c"

definition cache_clear :: "'l lru_crate \<Rightarrow> 'l object_cache \<Rightarrow> 'l object_cache" where
  "cache_clear K oc = oc\<lparr>oc_inner := lc_clear K (oc_inner oc)\<rparr>"

section \<open>The contents in the order of use\<close>

definition cache_list :: "'l lru_crate \<Rightarrow> 'l object_cache \<Rightarrow> (cid \<times> bytes) list" where
  "cache_list K oc = lc_iter K (oc_inner oc)"

text \<open>The capacity that the cache reports is the one the crate enforces.\<close>

definition cache_inv :: "'l lru_crate \<Rightarrow> 'l object_cache \<Rightarrow> bool" where
  "cache_inv K oc \<longleftrightarrow> oc_capacity oc = lc_cap K (oc_inner oc)"

lemma map_of_promote: "map_of (promote k xs) = map_of xs"
  by (auto simp: promote_def delete_conv' fun_eq_iff split: option.split)

lemma lru_crateD:
  assumes "lru_crate_ok K"
  shows "0 < n \<Longrightarrow> lc_iter K (lc_new K n) = []" "0 < n \<Longrightarrow> lc_cap K (lc_new K n) = n"
    and "0 < lc_cap K l" "length (lc_iter K l) \<le> lc_cap K l" "distinct (map fst (lc_iter K l))"
    and "fst (lc_get K l k) = map_of (lc_iter K l) k" "lc_iter K (snd (lc_get K l k)) = promote k (lc_iter K l)" "lc_cap K (snd (lc_get K l k)) = lc_cap K l"
    and "lc_peek K l k = map_of (lc_iter K l) k"
    and "lc_iter K (lc_put K l k v) = take (lc_cap K l) ((k, v) # AList.delete k (lc_iter K l))" "lc_cap K (lc_put K l k v) = lc_cap K l"
    and "fst (lc_pop K l k) = map_of (lc_iter K l) k" "lc_iter K (snd (lc_pop K l k)) = AList.delete k (lc_iter K l)" "lc_cap K (snd (lc_pop K l k)) = lc_cap K l"
    and "lc_len K l = length (lc_iter K l)" "lc_contains K l k = (map_of (lc_iter K l) k \<noteq> None)"
    and "lc_iter K (lc_clear K l) = []" "lc_cap K (lc_clear K l) = lc_cap K l"
  using assms by (simp_all only: lru_crate_ok_def)

lemma cache_get_eq: "cache_get K oc c = (fst (lc_get K (oc_inner oc) c), oc\<lparr>oc_inner := snd (lc_get K (oc_inner oc) c)\<rparr>)"
  by (simp add: cache_get_def split: prod.split option.split)

lemma cache_remove_eq: "cache_remove K oc c = (fst (lc_pop K (oc_inner oc) c), oc\<lparr>oc_inner := snd (lc_pop K (oc_inner oc) c)\<rparr>)"
  by (simp add: cache_remove_def split: prod.split)

lemma cache_ops:
  assumes "lru_crate_ok K"
  shows "fst (cache_get K oc c) = map_of (cache_list K oc) c" "cache_list K (snd (cache_get K oc c)) = promote c (cache_list K oc)"
    and "cache_peek K oc c = map_of (cache_list K oc) c"
    and "cache_list K (cache_put K oc c d) = take (lc_cap K (oc_inner oc)) ((c, d) # AList.delete c (cache_list K oc))"
    and "fst (cache_remove K oc c) = map_of (cache_list K oc) c" "cache_list K (snd (cache_remove K oc c)) = AList.delete c (cache_list K oc)"
    and "cache_len K oc = length (cache_list K oc)" "cache_contains K oc c = (map_of (cache_list K oc) c \<noteq> None)"
    and "cache_list K (cache_clear K oc) = []"
  by (simp_all add: cache_get_eq cache_remove_eq cache_peek_def cache_put_def cache_len_def cache_contains_def cache_clear_def cache_list_def
      lru_crateD[OF assms])

lemma cache_inv_ops:
  assumes "lru_crate_ok K" "cache_inv K oc"
  shows "cache_inv K (snd (cache_get K oc c))" "cache_inv K (cache_put K oc c d)" "cache_inv K (snd (cache_remove K oc c))" "cache_inv K (cache_clear K oc)"
  using assms(2) by (simp_all add: cache_inv_def cache_get_eq cache_put_def cache_remove_eq cache_clear_def lru_crateD[OF assms(1)])

lemma cache_new_inv: "lru_crate_ok K \<Longrightarrow> cache_new K n = Some oc \<Longrightarrow> cache_inv K oc \<and> oc_capacity oc = n"
  by (auto simp: lru_crateD cache_inv_def cache_new_def split: if_splits)

lemma cache_bounded: "lru_crate_ok K \<Longrightarrow> cache_inv K oc \<Longrightarrow> cache_len K oc \<le> oc_capacity oc"
  by (simp add: cache_inv_def cache_len_def lru_crateD)

text \<open>A full cache gives up the entry that was not used for longest.\<close>

lemma cache_put_evicts:
  assumes "lru_crate_ok K" "cache_inv K oc" "cache_len K oc = oc_capacity oc" "\<not> cache_contains K oc c"
  shows "cache_list K (cache_put K oc c d) = (c, d) # butlast (cache_list K oc)"
proof -
  note o = cache_ops[OF assms(1)]
  have "c \<notin> fst ` set (cache_list K oc)" using assms(4) by (simp add: o map_of_eq_None_iff)
  moreover have n: "length (cache_list K oc) = lc_cap K (oc_inner oc)" using assms(2,3) by (simp add: o cache_inv_def)
  ultimately show ?thesis
    using lru_crateD(3)[OF assms(1), of "oc_inner oc"]
    by (cases "lc_cap K (oc_inner oc)") (simp_all add: o delete_notin_dom butlast_conv_take)
qed

section \<open>The store on the object cache\<close>

definition object_cache_api :: "'l lru_crate \<Rightarrow> ('b, 'c) obj_api \<Rightarrow> ('b, 'l object_cache) obj_api" where
  "object_cache_api K A = \<lparr>oa_b3 = oa_b3 A, oa_hex = oa_hex A, lru_new = \<lambda>n. the (cache_new K n), lru_get = cache_get K, lru_peek = cache_peek K,
     lru_put = cache_put K, lru_pop = \<lambda>oc c. snd (cache_remove K oc c), bl_new = bl_new A, bl_set = bl_set A, bl_check = bl_check A\<rparr>"

lemma map_of_take: "map_of (take n xs) k \<in> {None, map_of xs k}"
proof -
  have "map_of xs k = (case map_of (take n xs) k of None \<Rightarrow> map_of (drop n xs) k | Some v \<Rightarrow> Some v)"
    using map_of_append[of "take n xs" "drop n xs"] by (simp add: map_add_def)
  then show ?thesis by (cases "map_of (take n xs) k") simp_all
qed

text \<open>The object cache has the laws that the store assumes of its cache.\<close>

lemma object_cache_lru_ok:
  assumes "lru_crate_ok K"
  shows "lru_ok (object_cache_api K A)"
proof -
  note c = cache_ops[OF assms]
  have n: "cache_peek K (the (cache_new K n)) k = None" if "0 < n" for n k
    using that by (simp add: c(3) cache_new_def cache_list_def lru_crateD[OF assms])
  have p: "cache_peek K (cache_put K oc k v) k = Some v" for oc k v
    using lru_crateD(3)[OF assms, of "oc_inner oc"] by (cases "lc_cap K (oc_inner oc)") (simp_all add: c(3,4))
  have q: "cache_peek K (cache_put K oc k v) k' \<in> {None, cache_peek K oc k'}" if "k' \<noteq> k" for oc k v k'
    using map_of_take[of "lc_cap K (oc_inner oc)" "(k, v) # AList.delete k (cache_list K oc)" k'] that
    by (simp only: c(3,4)) (simp add: delete_conv')
  show ?thesis
    using n p q by (simp add: lru_ok_def object_cache_api_def c map_of_promote fun_eq_iff delete_conv' flip: c(3)) (simp add: c map_of_promote delete_conv')
qed

lemma object_cache_api_ok: "lru_crate_ok K \<Longrightarrow> obj_api_ok A \<Longrightarrow> obj_api_ok (object_cache_api K A)"
  using object_cache_lru_ok[of K A] by (simp add: obj_api_ok_def bloom_ok_def) (simp add: object_cache_api_def)

lemma store_step_cache:
  assumes "store_step (object_cache_api K A) s t" "lru_crate_ok K" "cache_inv K (st_cache s)"
  shows "cache_inv K (st_cache t)"
proof -
  have a: "lru_get (object_cache_api K A) = cache_get K" "lru_put (object_cache_api K A) = cache_put K" by (simp_all add: object_cache_api_def)
  show ?thesis using assms(1)
  proof cases
    case (op_put flt d)
    then show ?thesis using assms(3) cache_inv_ops(2)[OF assms(2,3)]
      by (auto simp: put_def a Let_def split: option.splits prod.splits if_splits)
  next
    case (op_get flt c)
    obtain h oc where g: "cache_get K (st_cache s) c = (h, oc)" by (cases "cache_get K (st_cache s) c")
    have "cache_inv K oc" "cache_inv K (cache_put K oc c d)" for d
      using cache_inv_ops(1)[OF assms(2,3), of c] cache_inv_ops(2)[OF assms(2), of oc c d] g by simp_all
    then show ?thesis using op_get by (auto simp: get_def a g Let_def split: option.splits io_error.splits if_splits)
  next
    case (op_delete flt c)
    then show ?thesis using assms(3) cache_inv_ops(3)[OF assms(2,3), of c]
      by (auto simp: delete_obj_def object_cache_api_def Let_def split: option.splits io_error.splits if_splits)
  next
    case (reopen n)
    then show ?thesis using cache_new_inv[OF assms(2), of n] by (simp add: store_new_def object_cache_api_def cache_new_def)
  qed (use assms(3) in \<open>simp_all add: set_event_sender_def\<close>)
qed

text \<open>
  A store on the object cache, in every history with faults, damage and restarts: the cache holds at most as many
  objects as its capacity, and each under the hash of its contents.
\<close>

lemma store_on_object_cache:
  assumes "lru_crate_ok K" "obj_api_ok A" "store_reachable (object_cache_api K A) s"
  shows "cache_len K (st_cache s) \<le> oc_capacity (st_cache s)" "cache_peek K (st_cache s) c = Some d \<Longrightarrow> cid_from_data (oa_b3 A) d = c"
proof -
  have "cache_inv K (st_cache s)" using assms(3)
  proof (induction rule: store_reachable.induct)
    case (start n fs)
    then show ?case using cache_new_inv[OF assms(1), of n] by (simp add: store_new_def object_cache_api_def cache_new_def)
  qed (use store_step_cache[OF _ assms(1)] in blast)
  then show "cache_len K (st_cache s) \<le> oc_capacity (st_cache s)" by (rule cache_bounded[OF assms(1)])
  have "store_inv (object_cache_api K A) s" by (rule store_reachable_inv[OF assms(3) object_cache_api_ok[OF assms(1,2)]])
  then show "cache_peek K (st_cache s) c = Some d \<Longrightarrow> cid_from_data (oa_b3 A) d = c" by (simp add: store_inv_def object_cache_api_def)
qed

section \<open>A concrete cache\<close>

text \<open>A list in the order of use with the documented laws; the number is one less than the capacity.\<close>

type_synonym list_cache = "nat \<times> (cid \<times> bytes) list"

definition list_cache_iter :: "list_cache \<Rightarrow> (cid \<times> bytes) list" where
  "list_cache_iter l = take (Suc (fst l)) (AList.clearjunk (snd l))"

definition list_crate :: "list_cache lru_crate" where
  "list_crate = \<lparr>lc_new = \<lambda>n. (n - 1, []), lc_cap = \<lambda>l. Suc (fst l), lc_iter = list_cache_iter,
     lc_get = \<lambda>l k. (map_of (list_cache_iter l) k, (fst l, promote k (list_cache_iter l))), lc_peek = \<lambda>l. map_of (list_cache_iter l),
     lc_put = \<lambda>l k v. (fst l, take (Suc (fst l)) ((k, v) # AList.delete k (list_cache_iter l))),
     lc_pop = \<lambda>l k. (map_of (list_cache_iter l) k, (fst l, AList.delete k (list_cache_iter l))),
     lc_len = \<lambda>l. length (list_cache_iter l), lc_contains = \<lambda>l k. map_of (list_cache_iter l) k \<noteq> None, lc_clear = \<lambda>l. (fst l, [])\<rparr>"

lemma list_cache_iter_id: "distinct (map fst xs) \<Longrightarrow> length xs \<le> Suc n \<Longrightarrow> list_cache_iter (n, xs) = xs"
  by (simp add: list_cache_iter_def distinct_clearjunk_id)

lemma list_cache_iter_facts: "distinct (map fst (list_cache_iter l))" "length (list_cache_iter l) \<le> Suc (fst l)"
  by (simp_all add: list_cache_iter_def distinct_clearjunk flip: take_map)

lemma length_delete_Some: "distinct (map fst xs) \<Longrightarrow> map_of xs k = Some v \<Longrightarrow> length xs = Suc (length (AList.delete k xs))"
  by (induction xs) (auto simp: delete_notin_dom)

lemma promote_facts:
  assumes "distinct (map fst xs)"
  shows "distinct (map fst (promote k xs))" "length (promote k xs) = length xs"
  using distinct_delete[OF assms, of k] length_delete_Some[OF assms, of k] assms
  by (auto simp: promote_def delete_keys split: option.split)

lemma list_crate_ok: "lru_crate_ok list_crate"
proof -
  note f = list_cache_iter_facts
  have g: "list_cache_iter (fst l, promote k (list_cache_iter l)) = promote k (list_cache_iter l)" for l k
    by (rule list_cache_iter_id) (use f[of l] in \<open>simp_all add: promote_facts\<close>)
  have d: "distinct (map fst (AList.delete k (list_cache_iter l)))" "length (AList.delete k (list_cache_iter l)) \<le> Suc (fst l)" for l k
    using distinct_delete[OF f(1)] order.trans[OF length_delete_le f(2)] by auto
  have p: "list_cache_iter (fst l, AList.delete k (list_cache_iter l)) = AList.delete k (list_cache_iter l)" for l k
    by (rule list_cache_iter_id) (use d in auto)
  have t: "distinct (map fst (take n xs))" if "distinct (map fst xs)" for n and xs :: "(cid \<times> bytes) list"
    using that by (simp flip: take_map)
  have q: "list_cache_iter (fst l, take (Suc (fst l)) ((k, v) # AList.delete k (list_cache_iter l))) =
      take (Suc (fst l)) ((k, v) # AList.delete k (list_cache_iter l))" for l k v
    by (intro list_cache_iter_id t) (use d(1)[of k l] in \<open>simp_all add: delete_keys\<close>)
  show ?thesis
    unfolding lru_crate_ok_def
    by (intro conjI allI impI) (simp_all add: list_crate_def g p q f del: take_Suc_Cons, simp_all add: list_cache_iter_def)
qed

end
