(* ===== verification/Page_Index.thy ===== *)
theory Page_Index
  imports Types "HOL-Library.AList" "HOL-Library.Multiset"
begin

text \<open>
  The page index of the CID-VFS (craftec-vfs/src/page_index.rs): a map from page numbers to content
  identifiers and its byte format.  The entries are an association list with distinct keys, in the
  arbitrary order in which a hash map iterates.  The format depends on the map alone, determines
  it, and every input is decoded without a slice out of range.
\<close>

section \<open>Errors\<close>

datatype vfs_error =
    PageNotFound u32
  | IntegrityCheckFailed u32 cid cid
  | VfsStoreError string
  | VfsSerializationError string
  | CommitConflict
  | InvalidPageSize nat
  | NoRootCid
  | VfsIo string

section \<open>The index\<close>

type_synonym entries = "(u32 \<times> cid) list"

record page_index =
  pi_entries :: entries
  pi_root :: "cid option"

definition page_index_new :: page_index where
  "page_index_new = \<lparr>pi_entries = [], pi_root = None\<rparr>"

definition page_index_get :: "page_index \<Rightarrow> u32 \<Rightarrow> cid option" where
  "page_index_get ix n = map_of (pi_entries ix) n"

definition page_index_set :: "u32 \<Rightarrow> cid \<Rightarrow> page_index \<Rightarrow> page_index" where
  "page_index_set n c ix = ix\<lparr>pi_entries := AList.update n c (pi_entries ix)\<rparr>"

definition page_index_remove :: "u32 \<Rightarrow> page_index \<Rightarrow> page_index" where
  "page_index_remove n ix = ix\<lparr>pi_entries := AList.delete n (pi_entries ix)\<rparr>"

definition page_index_set_root :: "cid \<Rightarrow> page_index \<Rightarrow> page_index" where
  "page_index_set_root c ix = ix\<lparr>pi_root := Some c\<rparr>"

definition page_count :: "page_index \<Rightarrow> nat" where
  "page_count ix = length (pi_entries ix)"

definition entry_bytes :: "u32 \<times> cid \<Rightarrow> bytes" where
  "entry_bytes e = to_le_bytes32 (fst e) @ cid_bytes (snd e)"

definition page_index_serialize :: "entries \<Rightarrow> bytes" where
  "page_index_serialize es = to_le_bytes32 (of_nat (length es)) @ concat (map entry_bytes (sort_key fst es))"

definition read_entry :: "bytes \<Rightarrow> nat \<Rightarrow> u32 \<times> cid" where
  "read_entry d i =
     (let offset = 4 + i * 36
      in (from_le_bytes32 (slice offset (offset + 4) d), Cid (slice (offset + 4) (offset + 36) d)))"

definition page_index_deserialize :: "bytes \<Rightarrow> (page_index, vfs_error) result" where
  "page_index_deserialize d =
     (if length d < 4 then Inl (VfsSerializationError ''page index too short to read entry count'')
      else let count = unat (from_le_bytes32 (slice 0 4 d)); expected_len = 4 + count * 36
           in if length d < expected_len then Inl (VfsSerializationError ''page index truncated'')
              else Inr \<lparr>pi_entries = foldl (\<lambda>es i. AList.update (fst (read_entry d i)) (snd (read_entry d i)) es) [] [0..<count],
                        pi_root = None\<rparr>)"

definition entries_wf :: "entries \<Rightarrow> bool" where
  "entries_wf es \<longleftrightarrow> distinct (map fst es) \<and> (\<forall>(n, c) \<in> set es. cid_wf c)"

lemma set_alist_update: "set (AList.update k v xs) \<subseteq> insert (k, v) (set xs)"
  by (induction xs) auto

lemma entries_wf_update: "entries_wf es \<Longrightarrow> cid_wf c \<Longrightarrow> entries_wf (AList.update n c es)"
  using distinct_update[of es n c] set_alist_update[of n c es] by (fastforce simp: entries_wf_def)

lemma entries_wf_length:
  assumes "entries_wf es"
  shows "length es \<le> 2 ^ 32"
proof -
  have "length es = card (fst ` set es)" using assms distinct_card[of "map fst es"] by (simp add: entries_wf_def)
  also have "\<dots> \<le> card (UNIV :: u32 set)" by (rule card_mono) simp_all
  finally show ?thesis by (simp add: card_word)
qed

section \<open>Layout\<close>

lemma length_entry_bytes: "cid_wf c \<Longrightarrow> length (entry_bytes (n, c)) = 36"
  by (simp add: entry_bytes_def cid_wf_def CID_SIZE_def)

lemma concat_entry_slice:
  assumes "\<forall>(n, c) \<in> set es. cid_wf c" "i < length es"
  shows "slice (i * 36) (i * 36 + 36) (concat (map entry_bytes es) @ rest) = entry_bytes (es ! i)"
  using assms
proof (induction es arbitrary: i)
  case Nil
  then show ?case by simp
next
  case (Cons e es)
  have l: "length (entry_bytes e) = 36" using Cons.prems(1) length_entry_bytes by (cases e) auto
  show ?case
  proof (cases i)
    case 0
    then show ?thesis using l by (simp add: slice_def)
  next
    case (Suc j)
    then show ?thesis using Cons l by (simp add: slice_def)
  qed
qed

lemma slice_slice: "a \<le> b \<Longrightarrow> b \<le> e \<Longrightarrow> slice a b (slice s (s + e) xs) = slice (s + a) (s + b) xs"
  by (simp add: slice_def take_drop add.commute)

lemma read_entry_serialize:
  assumes "entries_wf es" "i < length es"
  shows "read_entry (page_index_serialize es @ rest) i = sort_key fst es ! i"
proof -
  let ?es = "sort_key fst es"
  have wf: "\<forall>(n, c) \<in> set ?es. cid_wf c" using assms(1) by (simp add: entries_wf_def)
  obtain n c where e: "?es ! i = (n, c)" by (cases "?es ! i")
  then have "(n, c) \<in> set ?es" using assms(2) nth_mem[of i ?es] by simp
  then have c: "length (cid_bytes c) = 32" using wf by (auto simp: cid_wf_def CID_SIZE_def)
  have w: "slice (4 + i * 36) (4 + i * 36 + 36) (page_index_serialize es @ rest) = to_le_bytes32 n @ cid_bytes c"
    using concat_entry_slice[OF wf, of i rest] assms(2) e
    by (simp add: page_index_serialize_def entry_bytes_def slice_def)
  have "slice (4 + i * 36) (4 + i * 36 + 4) (page_index_serialize es @ rest) = to_le_bytes32 n"
    using slice_slice[of 0 4 36 "4 + i * 36" "page_index_serialize es @ rest"] unfolding w by (simp add: slice_def)
  moreover have "slice (4 + i * 36 + 4) (4 + i * 36 + 36) (page_index_serialize es @ rest) = cid_bytes c"
    using slice_slice[of 4 36 36 "4 + i * 36" "page_index_serialize es @ rest"] c unfolding w by (simp add: slice_def)
  ultimately show ?thesis by (simp add: read_entry_def Let_def e)
qed

lemma length_serialize:
  assumes "entries_wf es"
  shows "length (page_index_serialize es) = 4 + length es * 36"
proof -
  have "\<forall>(n, c) \<in> set xs. cid_wf c \<Longrightarrow> length (concat (map entry_bytes xs)) = length xs * 36" for xs
    by (induction xs) (auto simp: length_entry_bytes)
  from this[of "sort_key fst es"] show ?thesis using assms by (simp add: page_index_serialize_def entries_wf_def)
qed

lemma update_fresh: "k \<notin> fst ` set xs \<Longrightarrow> AList.update k v xs = xs @ [(k, v)]"
  by (induction xs) auto

lemma foldl_update_fresh:
  "distinct (map fst (xs @ ys)) \<Longrightarrow> foldl (\<lambda>es e. AList.update (fst e) (snd e) es) xs ys = xs @ ys"
  by (induction ys arbitrary: xs) (simp_all add: update_fresh)

lemma deserialize_serialize:
  assumes "entries_wf es" "length es < 2 ^ 32"
  shows "page_index_deserialize (page_index_serialize es @ rest) = Inr \<lparr>pi_entries = sort_key fst es, pi_root = None\<rparr>"
proof -
  let ?d = "page_index_serialize es @ rest"
  have n: "unat (from_le_bytes32 (slice 0 4 ?d)) = length es"
    using assms(2) by (simp add: page_index_serialize_def slice_def unat_of_nat)
  have l: "length ?d = 4 + length es * 36 + length rest" using length_serialize[OF assms(1)] by simp
  have "map (read_entry ?d) [0..<length es] = sort_key fst es"
    using read_entry_serialize[OF assms(1)] by (intro nth_equalityI) simp_all
  then have f: "foldl (\<lambda>es i. AList.update (fst (read_entry ?d i)) (snd (read_entry ?d i)) es) [] [0..<length es] =
      foldl (\<lambda>es e. AList.update (fst e) (snd e) es) [] (sort_key fst es)"
    using foldl_map[of "\<lambda>es e. AList.update (fst e) (snd e) es" "[]" "read_entry ?d" "[0..<length es]"] by simp
  have "distinct (map fst (sort_key fst es))"
    using assms(1) by (simp add: entries_wf_def distinct_map)
  then have "foldl (\<lambda>es e. AList.update (fst e) (snd e) es) [] (sort_key fst es) = sort_key fst es"
    using foldl_update_fresh[of "[]" "sort_key fst es"] by simp
  then show ?thesis using n l f unfolding page_index_deserialize_def Let_def by simp
qed

lemma map_of_sort_key: "distinct (map fst es) \<Longrightarrow> map_of (sort_key fst es) = map_of es"
  by (intro map_of_inject_set[THEN iffD2]) (simp_all add: distinct_map)

lemma serialize_map:
  assumes "entries_wf es" "entries_wf es'" "map_of es = map_of es'"
  shows "page_index_serialize es = page_index_serialize es'"
proof -
  have d: "distinct (map fst es)" "distinct (map fst es')" using assms by (simp_all add: entries_wf_def)
  have s: "set es = set es'" using map_of_inject_set[OF d] assms(3) by simp
  then have m: "mset es = mset es'" using d by (simp add: set_eq_iff_mset_eq_distinct distinct_map)
  have "sort_key fst es = sort_key fst es'"
    using m d s by (intro sort_key_inj_key_eq) (simp_all add: distinct_map)
  moreover have "length es = length es'" using m by (rule mset_eq_length)
  ultimately show ?thesis by (simp add: page_index_serialize_def)
qed

lemma serialize_inject:
  assumes "entries_wf es" "entries_wf es'" "length es < 2 ^ 32" "length es' < 2 ^ 32"
    and "page_index_serialize es = page_index_serialize es'"
  shows "map_of es = map_of es'"
proof -
  have "sort_key fst es = sort_key fst es'"
    using deserialize_serialize[OF assms(1,3), of "[]"] deserialize_serialize[OF assms(2,4), of "[]"] assms(5) by simp
  then show ?thesis using assms(1,2) map_of_sort_key by (metis entries_wf_def)
qed

section \<open>Properties\<close>

text \<open>
  The page index format.  Decoding an encoded index, with any bytes after it, gives the same map;
  two indexes have the same encoding exactly when they are the same map, in whatever order their
  entries are kept; and decoding fails exactly on inputs shorter than the announced length.
\<close>

theorem page_index_roundtrip:
  assumes "entries_wf es" "length es < 2 ^ 32" "entries_wf es'" "length es' < 2 ^ 32"
  shows "(\<exists>ix. page_index_deserialize (page_index_serialize es @ rest) = Inr ix \<and>
      page_index_get ix = map_of es \<and> page_count ix = length es) \<and>
    (page_index_serialize es = page_index_serialize es' \<longleftrightarrow> map_of es = map_of es') \<and>
    (is_ok (page_index_deserialize d) \<longleftrightarrow>
      4 \<le> length d \<and> 4 + unat (from_le_bytes32 (slice 0 4 d)) * 36 \<le> length d)"
proof (intro conjI)
  show "\<exists>ix. page_index_deserialize (page_index_serialize es @ rest) = Inr ix \<and>
      page_index_get ix = map_of es \<and> page_count ix = length es"
    using deserialize_serialize[OF assms(1,2)] map_of_sort_key assms(1)
    by (auto simp: page_index_get_def page_count_def entries_wf_def fun_eq_iff)
  show "page_index_serialize es = page_index_serialize es' \<longleftrightarrow> map_of es = map_of es'"
    using serialize_map[OF assms(1,3)] serialize_inject[OF assms(1,3,2,4)] by blast
qed (simp add: page_index_deserialize_def Let_def)

theorem page_index_roundtrip_witness:
  "page_index_serialize [(2, Cid (replicate 32 9)), (1, Cid (replicate 32 8))] =
   page_index_serialize [(1, Cid (replicate 32 8)), (2, Cid (replicate 32 9))]"
  using page_index_roundtrip[of "[(2, Cid (replicate 32 9)), (1, Cid (replicate 32 8))]"
      "[(1, Cid (replicate 32 8)), (2, Cid (replicate 32 9))]"]
  by (auto simp: entries_wf_def cid_wf_def CID_SIZE_def fun_eq_iff)

end
