(* ===== verification/Vfs.thy ===== *)
theory Vfs
  imports Page_Index ObjStore
begin

text \<open>
  The CID-VFS (craftec-vfs/src/vfs.rs, page_cache.rs, snapshot.rs): pages buffered in memory, a
  commit that stores the pages and then the page index in the object store, reads through a page
  cache keyed by the current root, and snapshots.  The object store is used through the interface
  \<open>content_store\<close>.  As long as commits succeed, the VFS implements a map of pages with a buffer of
  pending writes; a commit that fails half-way leaves the index ahead of the root.
\<close>

section \<open>Page cache\<close>

record 'p page_lru =
  pl_new :: "nat \<Rightarrow> 'p"
  pl_get :: "'p \<Rightarrow> cid \<times> u32 \<Rightarrow> bytes option \<times> 'p"
  pl_peek :: "'p \<Rightarrow> cid \<times> u32 \<Rightarrow> bytes option"
  pl_put :: "'p \<Rightarrow> cid \<times> u32 \<Rightarrow> bytes \<Rightarrow> 'p"
  pl_pop :: "'p \<Rightarrow> cid \<times> u32 \<Rightarrow> 'p"

text \<open>The laws of the \<open>lru\<close> crate, as for the object cache.\<close>

definition page_lru_ok :: "'p page_lru \<Rightarrow> bool" where
  "page_lru_ok P \<longleftrightarrow> (\<forall>n k. pl_peek P (pl_new P n) k = None) \<and>
     (\<forall>c k. fst (pl_get P c k) = pl_peek P c k \<and> pl_peek P (snd (pl_get P c k)) = pl_peek P c) \<and>
     (\<forall>c k v. pl_peek P (pl_put P c k v) k = Some v) \<and>
     (\<forall>c k v k'. k' \<noteq> k \<longrightarrow> pl_peek P (pl_put P c k v) k' \<in> {None, pl_peek P c k'}) \<and>
     (\<forall>c k k'. pl_peek P (pl_pop P c k) k' = (if k' = k then None else pl_peek P c k'))"

record 'p page_cache =
  pc_lru :: 'p
  pc_hits :: u64
  pc_misses :: u64

definition DEFAULT_CAPACITY :: nat where "DEFAULT_CAPACITY = 16384"

definition page_cache_with_capacity :: "'p page_lru \<Rightarrow> nat \<Rightarrow> 'p page_cache" where
  "page_cache_with_capacity P capacity = \<lparr>pc_lru = pl_new P (max capacity 1), pc_hits = 0, pc_misses = 0\<rparr>"

definition page_cache_new :: "'p page_lru \<Rightarrow> 'p page_cache" where
  "page_cache_new P = page_cache_with_capacity P DEFAULT_CAPACITY"

definition page_cache_get :: "'p page_lru \<Rightarrow> 'p page_cache \<Rightarrow> cid \<Rightarrow> u32 \<Rightarrow> bytes option \<times> 'p page_cache" where
  "page_cache_get P pc root n =
     (case pl_get P (pc_lru pc) (root, n) of (r, l) \<Rightarrow>
        (r, if r \<noteq> None then pc\<lparr>pc_lru := l, pc_hits := pc_hits pc + 1\<rparr>
            else pc\<lparr>pc_lru := l, pc_misses := pc_misses pc + 1\<rparr>))"

definition page_cache_put :: "'p page_lru \<Rightarrow> cid \<Rightarrow> u32 \<Rightarrow> bytes \<Rightarrow> 'p page_cache \<Rightarrow> 'p page_cache" where
  "page_cache_put P root n d pc = pc\<lparr>pc_lru := pl_put P (pc_lru pc) (root, n) d\<rparr>"

definition page_cache_invalidate :: "'p page_lru \<Rightarrow> cid \<Rightarrow> u32 \<Rightarrow> 'p page_cache \<Rightarrow> 'p page_cache" where
  "page_cache_invalidate P root n pc = pc\<lparr>pc_lru := pl_pop P (pc_lru pc) (root, n)\<rparr>"

definition cached :: "'p page_lru \<Rightarrow> 'p page_cache \<Rightarrow> cid \<Rightarrow> u32 \<Rightarrow> bytes option" where
  "cached P pc root n = pl_peek P (pc_lru pc) (root, n)"

lemma page_cache_get_eq:
  assumes "page_lru_ok P"
  shows "\<exists>pc'. page_cache_get P pc r n = (cached P pc r n, pc') \<and> cached P pc' = cached P pc"
proof -
  obtain x l where x: "pl_get P (pc_lru pc) (r, n) = (x, l)" by (cases "pl_get P (pc_lru pc) (r, n)")
  have "fst (pl_get P (pc_lru pc) (r, n)) = pl_peek P (pc_lru pc) (r, n)"
    "pl_peek P (snd (pl_get P (pc_lru pc) (r, n))) = pl_peek P (pc_lru pc)"
    using assms by (simp_all add: page_lru_ok_def)
  then show ?thesis by (simp add: x page_cache_get_def cached_def fun_eq_iff)
qed

lemma cached_put:
  assumes "page_lru_ok P"
  shows "cached P (page_cache_put P r n d pc) r n = Some d"
    "cached P (page_cache_put P r n d pc) r' n' = Some d' \<Longrightarrow> (r', n', d') = (r, n, d) \<or> cached P pc r' n' = Some d'"
proof -
  show 1: "cached P (page_cache_put P r n d pc) r n = Some d" using assms by (simp add: page_lru_ok_def cached_def page_cache_put_def)
  have 2: "(r', n') \<noteq> (r, n) \<Longrightarrow> cached P (page_cache_put P r n d pc) r' n' \<in> {None, cached P pc r' n'}"
    using assms unfolding page_lru_ok_def cached_def page_cache_put_def by simp
  show "cached P (page_cache_put P r n d pc) r' n' = Some d' \<Longrightarrow> (r', n', d') = (r, n, d) \<or> cached P pc r' n' = Some d'"
    using 1 2 by (cases "(r', n') = (r, n)") auto
qed

lemma cached_new: "page_lru_ok P \<Longrightarrow> cached P (page_cache_new P) r n = None"
  by (simp add: cached_def page_cache_new_def page_cache_with_capacity_def page_lru_ok_def)

section \<open>Snapshots\<close>

record snapshot =
  sn_root :: cid
  sn_entries :: entries

definition snapshot_new :: "cid \<Rightarrow> page_index \<Rightarrow> snapshot" where
  "snapshot_new root ix = \<lparr>sn_root = root, sn_entries = pi_entries ix\<rparr>"

definition resolve_page :: "snapshot \<Rightarrow> u32 \<Rightarrow> cid option" where
  "resolve_page sn n = map_of (sn_entries sn) n"

section \<open>The file system\<close>

record ('b, 'c, 'p) vfs =
  vf_store :: "('b, 'c) store"
  vf_index :: page_index
  vf_cache :: "'p page_cache"
  vf_dirty :: "(u32 \<times> bytes) list"
  vf_root :: "cid option"
  vf_page_size :: nat

definition is_power_of_two :: "nat \<Rightarrow> bool" where
  "is_power_of_two n \<longleftrightarrow> n \<in> set (map (\<lambda>k. 2 ^ k) [0..<64])"

definition vfs_new :: "'p page_lru \<Rightarrow> ('b, 'c) store \<Rightarrow> nat \<Rightarrow> (('b, 'c, 'p) vfs, vfs_error) result" where
  "vfs_new P s page_size =
     (if \<not> (512 \<le> page_size \<and> page_size \<le> 65536) \<or> \<not> is_power_of_two page_size then Inl (InvalidPageSize page_size)
      else Inr \<lparr>vf_store = s, vf_index = page_index_new, vf_cache = page_cache_new P, vf_dirty = [], vf_root = None,
                vf_page_size = page_size\<rparr>)"

definition cache_root :: "('b, 'c, 'p) vfs \<Rightarrow> cid" where
  "cache_root v = (case vf_root v of Some r \<Rightarrow> r | None \<Rightarrow> Cid (replicate 32 0))"

definition read_page ::
  "('b, 'c) obj_api \<Rightarrow> 'p page_lru \<Rightarrow> io_faults \<Rightarrow> ('b, 'c, 'p) vfs \<Rightarrow> u32 \<Rightarrow> (bytes, vfs_error) result \<times> ('b, 'c, 'p) vfs" where
  "read_page A P flt v n =
     (let root = cache_root v
      in case page_cache_get P (vf_cache v) root n of (hit, pc) \<Rightarrow>
           let v1 = v\<lparr>vf_cache := pc\<rparr>
           in case hit of
                Some d \<Rightarrow> (Inr d, v1)
              | None \<Rightarrow>
                  (case page_index_get (vf_index v1) n of
                     None \<Rightarrow> (Inl (PageNotFound n), v1)
                   | Some c \<Rightarrow>
                       (case get A flt (vf_store v1) c of
                          (Inl e, s) \<Rightarrow> (Inl (VfsStoreError ''get failed''), v1\<lparr>vf_store := s\<rparr>)
                        | (Inr None, s) \<Rightarrow> (Inl (VfsStoreError ''missing from store''), v1\<lparr>vf_store := s\<rparr>)
                        | (Inr (Some d), s) \<Rightarrow>
                            (let v2 = v1\<lparr>vf_store := s\<rparr>; expected = cid_from_data (oa_b3 A) d
                             in if expected \<noteq> c then (Inl (IntegrityCheckFailed n c expected), v2)
                                else (Inr d, v2\<lparr>vf_cache := page_cache_put P root n d (vf_cache v2)\<rparr>)))))"

definition write_page :: "('b, 'c, 'p) vfs \<Rightarrow> u32 \<Rightarrow> bytes \<Rightarrow> (unit, vfs_error) result \<times> ('b, 'c, 'p) vfs" where
  "write_page v n d =
     (if length d \<noteq> vf_page_size v then (Inl (InvalidPageSize (length d)), v)
      else (Inr (), v\<lparr>vf_dirty := AList.update n d (vf_dirty v)\<rparr>))"

text \<open>
  The loop of \<open>commit\<close> over the drained pages, for any store: \<open>flts i\<close> are the faults of the \<open>i\<close>-th
  call of \<open>put\<close>.  It stops at the first error, with the entries set so far.
\<close>

fun store_pages ::
  "('f \<Rightarrow> 's \<Rightarrow> bytes \<Rightarrow> (cid, 'e) result \<times> 's) \<Rightarrow> (nat \<Rightarrow> 'f) \<Rightarrow> nat \<Rightarrow> (u32 \<times> bytes) list \<Rightarrow> 's \<Rightarrow> page_index \<Rightarrow>
     'e option \<times> 's \<times> page_index" where
  "store_pages put_op flts i [] s ix = (None, s, ix)"
| "store_pages put_op flts i ((n, d) # ps) s ix =
     (case put_op (flts i) s d of
        (Inl e, s') \<Rightarrow> (Some e, s', ix)
      | (Inr c, s') \<Rightarrow> store_pages put_op flts (i + 1) ps s' (page_index_set n c ix))"

text \<open>\<open>ord\<close> is the order in which the hash map of the dirty pages is iterated.\<close>

definition commit ::
  "('b, 'c) obj_api \<Rightarrow> (nat \<Rightarrow> io_faults) \<Rightarrow> ((u32 \<times> bytes) list \<Rightarrow> (u32 \<times> bytes) list) \<Rightarrow> ('b, 'c, 'p) vfs \<Rightarrow>
     (cid, vfs_error) result \<times> ('b, 'c, 'p) vfs" where
  "commit A flts ord v0 =
     (let dirty = ord (vf_dirty v0); v = v0\<lparr>vf_dirty := []\<rparr>
      in if dirty = [] then (case vf_root v of None \<Rightarrow> (Inl NoRootCid, v) | Some r \<Rightarrow> (Inr r, v))
         else case store_pages (put A) flts 0 dirty (vf_store v) (vf_index v) of
                (Some e, s, ix) \<Rightarrow> (Inl (VfsStoreError ''put failed''), v\<lparr>vf_store := s, vf_index := ix\<rparr>)
              | (None, s, ix) \<Rightarrow>
                  (case put A (flts (length dirty)) s (page_index_serialize (pi_entries ix)) of
                     (Inl e, s') \<Rightarrow> (Inl (VfsStoreError ''put failed''), v\<lparr>vf_store := s', vf_index := ix\<rparr>)
                   | (Inr new_root, s') \<Rightarrow>
                       (Inr new_root, v\<lparr>vf_store := s', vf_index := page_index_set_root new_root ix, vf_root := Some new_root\<rparr>)))"

definition vfs_snapshot :: "('b, 'c, 'p) vfs \<Rightarrow> (snapshot, vfs_error) result" where
  "vfs_snapshot v = (case vf_root v of None \<Rightarrow> Inl NoRootCid | Some r \<Rightarrow> Inr (snapshot_new r (vf_index v)))"

section \<open>Storing pages through the store interface\<close>

text \<open>
  \<open>W\<close> is a set of byte strings on which the hash has no collision.  A store whose contents lie in
  \<open>W\<close> and that is only given members of \<open>W\<close> grows, and never changes an entry.
\<close>

context content_store
begin

lemma put_op_grows:
  assumes "inv s" "inj_on hash W" "ran (lookup s) \<subseteq> W" "d \<in> W"
  shows "lookup s \<subseteq>\<^sub>m lookup (snd (put_op f s d))" "ran (lookup (snd (put_op f s d))) \<subseteq> W"
    "fst (put_op f s d) = Inr c \<Longrightarrow> c = hash d \<and> lookup (snd (put_op f s d)) c = Some d"
proof -
  let ?s' = "snd (put_op f s d)"
  have old: "d' = d" if "lookup s (hash d) = Some d'" for d'
    using that assms lookup_hash[OF assms(1) that] by (auto simp: inj_on_def ran_def)
  have at: "lookup ?s' x = lookup s x \<or> x = hash d \<and> lookup ?s' x = Some d" for x
    using put_op_other[OF assms(1), of x d f] put_op_value[OF assms(1), of f d] by (cases "x = hash d") auto
  show "lookup s \<subseteq>\<^sub>m lookup ?s'"
  proof (unfold map_le_def, rule ballI)
    fix x
    assume "x \<in> dom (lookup s)"
    then show "lookup s x = lookup ?s' x" using at[of x] old by fastforce
  qed
  show "ran (lookup ?s') \<subseteq> W"
  proof
    fix y
    assume "y \<in> ran (lookup ?s')"
    then obtain x where x: "lookup ?s' x = Some y" by (auto simp: ran_def)
    show "y \<in> W" using at[of x] x assms(3,4) ranI[of "lookup s" x y] by auto
  qed
  show "fst (put_op f s d) = Inr c \<Longrightarrow> c = hash d \<and> lookup ?s' c = Some d"
    using put_op_ok[OF assms(1), of f d c] at[of c] old by fastforce
qed

lemma store_pages_grows:
  assumes "inv s" "inj_on hash W" "ran (lookup s) \<subseteq> W" "snd ` set ps \<subseteq> W" "store_pages put_op flts i ps s ix = (r, s', ix')"
  shows "inv s' \<and> lookup s \<subseteq>\<^sub>m lookup s' \<and> ran (lookup s') \<subseteq> W"
  using assms
proof (induction ps arbitrary: i s ix)
  case Nil
  then show ?case by simp
next
  case (Cons p ps)
  obtain n d where p: "p = (n, d)" by (cases p)
  obtain x t where x: "put_op (flts i) s d = (x, t)" by (cases "put_op (flts i) s d")
  have d: "d \<in> W" using Cons.prems(4) p by simp
  have t: "inv t" "lookup s \<subseteq>\<^sub>m lookup t" "ran (lookup t) \<subseteq> W"
    using put_op_inv[OF Cons.prems(1), of "flts i" d] put_op_grows(1,2)[OF Cons.prems(1-3) d, of "flts i"] x by simp_all
  show ?case
  proof (cases x)
    case (Inl e)
    then show ?thesis using Cons.prems(5) p x t by simp
  next
    case (Inr c)
    then show ?thesis using Cons.IH[OF t(1) Cons.prems(2) t(3)] Cons.prems(4,5) p x Inr t(2)
      by (auto elim: map_le_trans)
  qed
qed

lemma store_pages_present:
  assumes "inv s" "inj_on hash W" "ran (lookup s) \<subseteq> W" "snd ` set ps \<subseteq> W" "store_pages put_op flts i ps s ix = (r, s', ix')"
    and "\<forall>n c. page_index_get ix n = Some c \<longrightarrow> lookup s c \<noteq> None"
  shows "\<forall>n c. page_index_get ix' n = Some c \<longrightarrow> lookup s' c \<noteq> None"
  using assms
proof (induction ps arbitrary: i s ix)
  case Nil
  then show ?case by simp
next
  case (Cons p ps)
  obtain n d where p: "p = (n, d)" by (cases p)
  obtain x t where x: "put_op (flts i) s d = (x, t)" by (cases "put_op (flts i) s d")
  have d: "d \<in> W" using Cons.prems(4) p by simp
  have t: "inv t" "lookup s \<subseteq>\<^sub>m lookup t" "ran (lookup t) \<subseteq> W"
    using put_op_inv[OF Cons.prems(1), of "flts i" d] put_op_grows(1,2)[OF Cons.prems(1-3) d, of "flts i"] x by simp_all
  have keep: "lookup t c \<noteq> None" if "lookup s c \<noteq> None" for c
    using that t(2) by (auto simp: map_le_def dom_def)
  show ?case
  proof (cases x)
    case (Inl e)
    then have "s' = t" "ix' = ix" using Cons.prems(5) p x by simp_all
    then show ?thesis using Cons.prems(6) keep by blast
  next
    case (Inr c)
    have "lookup t c \<noteq> None" using put_op_grows(3)[OF Cons.prems(1-3) d, of "flts i" c] x Inr by auto
    then have "\<forall>m c'. page_index_get (page_index_set n c ix) m = Some c' \<longrightarrow> lookup t c' \<noteq> None"
      using Cons.prems(6) keep by (auto simp: page_index_get_def page_index_set_def update_conv' split: if_splits)
    moreover have "store_pages put_op flts (i + 1) ps t (page_index_set n c ix) = (r, s', ix')"
      using Cons.prems(5) x p Inr by simp
    moreover have "snd ` set ps \<subseteq> W" using Cons.prems(4) by simp
    ultimately show ?thesis using Cons.IH[OF t(1) Cons.prems(2) t(3)] by blast
  qed
qed

lemma store_pages_done:
  assumes "inv s" "inj_on hash W" "ran (lookup s) \<subseteq> W" "snd ` set ps \<subseteq> W" "store_pages put_op flts i ps s ix = (None, s', ix')"
    and "distinct (map fst ps)"
  shows "page_index_get ix' = page_index_get ix ++ (\<lambda>n. map_option hash (map_of ps n)) \<and>
    (\<forall>(n, d) \<in> set ps. lookup s' (hash d) = Some d)"
  using assms
proof (induction ps arbitrary: i s ix)
  case Nil
  then show ?case by (simp add: fun_eq_iff map_add_def)
next
  case (Cons p ps)
  obtain n d where p: "p = (n, d)" by (cases p)
  obtain x t where x: "put_op (flts i) s d = (x, t)" by (cases "put_op (flts i) s d")
  obtain c where c: "x = Inr c" using Cons.prems(5) p x by (cases x) auto
  have d: "d \<in> W" using Cons.prems(4) p by simp
  have t: "inv t" "ran (lookup t) \<subseteq> W" "c = hash d" "lookup t (hash d) = Some d"
    using put_op_inv[OF Cons.prems(1), of "flts i" d] put_op_grows(2,3)[OF Cons.prems(1-3) d, of "flts i"] x c by auto
  have run: "store_pages put_op flts (i + 1) ps t (page_index_set n c ix) = (None, s', ix')"
    using Cons.prems(5) p x c by simp
  have W: "snd ` set ps \<subseteq> W" using Cons.prems(4) p by simp
  have "lookup t \<subseteq>\<^sub>m lookup s'" using store_pages_grows[OF t(1) Cons.prems(2) t(2) W run] by simp
  then have "lookup s' (hash d) = Some d" using t(4) by (auto simp: map_le_def dom_def)
  moreover have "n \<notin> fst ` set ps" "distinct (map fst ps)" using Cons.prems(6) p by simp_all
  moreover have "page_index_get (page_index_set n c ix) = (page_index_get ix)(n \<mapsto> hash d)"
    by (simp add: page_index_get_def page_index_set_def update_conv' t(3) fun_eq_iff)
  ultimately show ?case
    using Cons.IH[OF t(1) Cons.prems(2) t(2) W run]
    unfolding p by (auto simp: fun_eq_iff map_add_def map_of_eq_None_iff[symmetric] split: option.splits)
qed

end

lemma store_pages_wf:
  assumes "store_pages put_op flts i ps s ix = (r, s', ix')" "entries_wf (pi_entries ix)"
    and "\<And>f s d c s'. put_op f s d = (Inr c, s') \<Longrightarrow> cid_wf c"
  shows "entries_wf (pi_entries ix') \<and> fst ` set (pi_entries ix') \<subseteq> fst ` set (pi_entries ix) \<union> fst ` set ps"
  using assms
proof (induction ps arbitrary: i s ix)
  case Nil
  then show ?case by simp
next
  case (Cons p ps)
  obtain n d where p: "p = (n, d)" by (cases p)
  obtain x t where x: "put_op (flts i) s d = (x, t)" by (cases "put_op (flts i) s d")
  show ?case
  proof (cases x)
    case (Inl e)
    then show ?thesis using Cons.prems x p by auto
  next
    case (Inr c)
    have wf: "entries_wf (pi_entries (page_index_set n c ix))"
      using Cons.prems(2) Cons.prems(3)[of "flts i" s d c t] x Inr by (simp add: page_index_set_def entries_wf_update)
    have "fst ` set (pi_entries (page_index_set n c ix)) = insert n (fst ` set (pi_entries ix))"
      by (simp add: page_index_set_def dom_update)
    moreover have "store_pages put_op flts (i + 1) ps t (page_index_set n c ix) = (r, s', ix')"
      using Cons.prems(1) x p Inr by simp
    ultimately show ?thesis using Cons.IH[OF _ wf Cons.prems(3)] p by auto
  qed
qed

section \<open>The invariant\<close>

text \<open>
  The last page number, \<open>- 1\<close> as a 32-bit word, is never used: an SQLite database has fewer than
  \<open>2 ^ 32 - 1\<close> pages.  So an index never has all \<open>2 ^ 32\<close> page numbers and its length fits the header.
\<close>

definition entries_ok :: "entries \<Rightarrow> bool" where
  "entries_ok es \<longleftrightarrow> entries_wf es \<and> - 1 \<notin> fst ` set es"

lemma entries_ok_length:
  assumes "entries_ok es"
  shows "length es < 2 ^ 32"
proof -
  have "entries_wf ((- 1, Cid (replicate 32 0)) # es)"
    using assms by (auto simp: entries_ok_def entries_wf_def cid_wf_def CID_SIZE_def)
  from entries_wf_length[OF this] show ?thesis by simp
qed

lemma serialize_eq_iff:
  "entries_ok es \<Longrightarrow> entries_ok es' \<Longrightarrow> page_index_serialize es = page_index_serialize es' \<longleftrightarrow> map_of es = map_of es'"
  using serialize_map serialize_inject entries_ok_length by (meson entries_ok_def)

text \<open>What the pages hold, read through the index.\<close>

definition page_data :: "('b, 'c) obj_api \<Rightarrow> ('b, 'c, 'p) vfs \<Rightarrow> u32 \<Rightarrow> bytes option" where
  "page_data A v n = (case page_index_get (vf_index v) n of None \<Rightarrow> None | Some c \<Rightarrow> obj_lookup A (vf_store v) c)"

text \<open>A cached page belongs to the index whose hash is its root.\<close>

definition cache_coherent :: "('b, 'c) obj_api \<Rightarrow> 'p page_lru \<Rightarrow> bytes set \<Rightarrow> 'p page_cache \<Rightarrow> bool" where
  "cache_coherent A P W pc \<longleftrightarrow> (\<forall>r n d. cached P pc r n = Some d \<longrightarrow> d \<in> W \<and>
     (\<exists>es. entries_ok es \<and> page_index_serialize es \<in> W \<and> r = cid_from_data (oa_b3 A) (page_index_serialize es) \<and>
        map_of es n = Some (cid_from_data (oa_b3 A) d)))"

definition vfs_base :: "('b, 'c) obj_api \<Rightarrow> 'p page_lru \<Rightarrow> bytes set \<Rightarrow> ('b, 'c, 'p) vfs \<Rightarrow> bool" where
  "vfs_base A P W v \<longleftrightarrow> store_clean A (vf_store v) \<and> page_lru_ok P \<and> inj_on (cid_from_data (oa_b3 A)) W \<and>
     ran (obj_lookup A (vf_store v)) \<subseteq> W \<and> entries_ok (pi_entries (vf_index v)) \<and>
     (\<forall>n c. page_index_get (vf_index v) n = Some c \<longrightarrow> obj_lookup A (vf_store v) c \<noteq> None) \<and>
     distinct (map fst (vf_dirty v)) \<and> - 1 \<notin> fst ` set (vf_dirty v) \<and> snd ` set (vf_dirty v) \<subseteq> W"

definition vfs_synced :: "('b, 'c) obj_api \<Rightarrow> 'p page_lru \<Rightarrow> bytes set \<Rightarrow> ('b, 'c, 'p) vfs \<Rightarrow> bool" where
  "vfs_synced A P W v \<longleftrightarrow> cache_coherent A P W (vf_cache v) \<and>
     (case vf_root v of
        None \<Rightarrow> pi_entries (vf_index v) = [] \<and> (\<forall>r n. cached P (vf_cache v) r n = None)
      | Some r \<Rightarrow> r = cid_from_data (oa_b3 A) (page_index_serialize (pi_entries (vf_index v))) \<and>
          page_index_serialize (pi_entries (vf_index v)) \<in> W)"

definition vfs_inv :: "('b, 'c) obj_api \<Rightarrow> 'p page_lru \<Rightarrow> bytes set \<Rightarrow> ('b, 'c, 'p) vfs \<Rightarrow> bool" where
  "vfs_inv A P W v \<longleftrightarrow> vfs_base A P W v \<and> vfs_synced A P W v"

lemma vfs_new_inv:
  assumes "vfs_new P s n = Inr v" "store_clean A s" "page_lru_ok P" "inj_on (cid_from_data (oa_b3 A)) W" "ran (obj_lookup A s) \<subseteq> W"
  shows "vfs_inv A P W v"
  using assms
  by (auto simp: vfs_new_def vfs_inv_def vfs_base_def vfs_synced_def cache_coherent_def cached_new page_index_new_def
      entries_ok_def entries_wf_def page_index_get_def split: if_splits)

lemma page_data_hash:
  assumes "vfs_base A P W v" "page_index_get (vf_index v) n = Some c"
  obtains d where "page_data A v n = Some d" "cid_from_data (oa_b3 A) d = c" "d \<in> W" "cid_wf c" "obj_lookup A (vf_store v) c = Some d"
proof -
  obtain d where d: "obj_lookup A (vf_store v) c = Some d" using assms unfolding vfs_base_def by blast
  have s: "store_clean A (vf_store v)" using assms(1) by (simp add: vfs_base_def)
  have "d \<in> W" using assms(1) d ranI[of "obj_lookup A (vf_store v)" c d] by (auto simp: vfs_base_def)
  moreover have "cid_wf c" using d by (simp add: obj_lookup_def split: if_splits)
  moreover have "page_data A v n = Some d" using assms(2) d by (simp add: page_data_def)
  ultimately show thesis using that d store_cleanD(2)[OF s d] by blast
qed

lemma page_data_None: "vfs_base A P W v \<Longrightarrow> page_data A v n = None \<longleftrightarrow> page_index_get (vf_index v) n = None"
  by (auto simp: page_data_def vfs_base_def split: option.splits)

text \<open>In a synchronised state the cache agrees with the pages.\<close>

lemma cached_page_data:
  assumes "vfs_inv A P W v" "cached P (vf_cache v) (cache_root v) n = Some d"
  shows "page_data A v n = Some d"
proof -
  have b: "vfs_base A P W v" and s: "vfs_synced A P W v" using assms(1) by (simp_all add: vfs_inv_def)
  obtain r where r: "vf_root v = Some r" "r = cid_from_data (oa_b3 A) (page_index_serialize (pi_entries (vf_index v)))"
    "page_index_serialize (pi_entries (vf_index v)) \<in> W"
    using s assms(2) by (auto simp: vfs_synced_def split: option.splits)
  obtain es where es: "entries_ok es" "page_index_serialize es \<in> W" "r = cid_from_data (oa_b3 A) (page_index_serialize es)"
    "map_of es n = Some (cid_from_data (oa_b3 A) d)" "d \<in> W"
    using s assms(2) r(1) unfolding vfs_synced_def cache_coherent_def cache_root_def by fastforce
  have inj: "inj_on (cid_from_data (oa_b3 A)) W" and ok: "entries_ok (pi_entries (vf_index v))" using b by (simp_all add: vfs_base_def)
  have "page_index_serialize es = page_index_serialize (pi_entries (vf_index v))"
    using inj_onD[OF inj _ es(2) r(3)] es(3) r(2) by simp
  then have "page_index_get (vf_index v) n = Some (cid_from_data (oa_b3 A) d)"
    using serialize_eq_iff[OF es(1) ok] es(4) by (simp add: page_index_get_def)
  then obtain d' where d': "page_data A v n = Some d'" "cid_from_data (oa_b3 A) d' = cid_from_data (oa_b3 A) d" "d' \<in> W"
    by (rule page_data_hash[OF b])
  then show ?thesis using inj_onD[OF inj d'(2,3) es(5)] by simp
qed

section \<open>Reading\<close>

lemma read_page_hit:
  assumes "page_lru_ok P" "cached P (vf_cache v) (cache_root v) n = Some d"
  shows "\<exists>pc. read_page A P flt v n = (Inr d, v\<lparr>vf_cache := pc\<rparr>) \<and> cached P pc = cached P (vf_cache v)"
proof -
  obtain pc where "page_cache_get P (vf_cache v) (cache_root v) n = (Some d, pc)" "cached P pc = cached P (vf_cache v)"
    using page_cache_get_eq[OF assms(1), of "vf_cache v" "cache_root v" n] assms(2) by auto
  then show ?thesis by (intro exI[of _ pc]) (simp add: read_page_def)
qed

lemma read_page_none:
  assumes "page_lru_ok P" "cached P (vf_cache v) (cache_root v) n = None" "page_index_get (vf_index v) n = None"
  shows "\<exists>pc. read_page A P flt v n = (Inl (PageNotFound n), v\<lparr>vf_cache := pc\<rparr>) \<and> cached P pc = cached P (vf_cache v)"
proof -
  obtain pc where "page_cache_get P (vf_cache v) (cache_root v) n = (None, pc)" "cached P pc = cached P (vf_cache v)"
    using page_cache_get_eq[OF assms(1), of "vf_cache v" "cache_root v" n] assms(2) by auto
  then show ?thesis by (intro exI[of _ pc]) (simp add: read_page_def assms(3))
qed

text \<open>A miss reads the object through the interface of the store and caches it under the current root.\<close>

lemma read_page_miss:
  assumes "vfs_base A P W v" "cached P (vf_cache v) (cache_root v) n = None" "page_data A v n = Some d" "flt_read flt = None"
  shows "\<exists>s pc. read_page A P flt v n = (Inr d, v\<lparr>vf_store := s, vf_cache := page_cache_put P (cache_root v) n d pc\<rparr>) \<and>
    cached P pc = cached P (vf_cache v) \<and> store_clean A s \<and> obj_lookup A s = obj_lookup A (vf_store v)"
proof -
  have P: "page_lru_ok P" and sc: "store_clean A (vf_store v)" using assms(1) by (simp_all add: vfs_base_def)
  obtain pc where pc: "page_cache_get P (vf_cache v) (cache_root v) n = (None, pc)" "cached P pc = cached P (vf_cache v)"
    using page_cache_get_eq[OF P, of "vf_cache v" "cache_root v" n] assms(2) by auto
  obtain c where c: "page_index_get (vf_index v) n = Some c" using assms(3) by (auto simp: page_data_def split: option.splits)
  have d: "cid_from_data (oa_b3 A) d = c" "cid_wf c" "obj_lookup A (vf_store v) c = Some d"
    using page_data_hash[OF assms(1) c] assms(3) by (metis option.inject)+
  obtain x s where x: "get A flt (vf_store v) c = (x, s)" by (cases "get A flt (vf_store v) c")
  have f: "flt_read flt \<noteq> Some IoNotFound" using assms(4) by simp
  have "x = Inr (Some d)" using get_clean(2)[OF sc f assms(4) d(2)] d(3) x by simp
  moreover have "store_clean A s \<and> obj_lookup A s = obj_lookup A (vf_store v)" using cas.get_op_inv[OF sc f, of c] x by simp
  ultimately show ?thesis using pc c x d(1) by (auto simp: read_page_def Let_def)
qed

lemma vfs_base_cong:
  assumes "vfs_base A P W v" "store_clean A (vf_store v')" "obj_lookup A (vf_store v') = obj_lookup A (vf_store v)"
    and "vf_index v' = vf_index v" "vf_dirty v' = vf_dirty v"
  shows "vfs_base A P W v' \<and> page_data A v' = page_data A v"
proof
  show "vfs_base A P W v'" using assms unfolding vfs_base_def by simp
  show "page_data A v' = page_data A v" by (rule ext) (simp add: page_data_def assms(3-5) split: option.splits)
qed

lemma vfs_synced_cong:
  assumes "vfs_synced A P W v" "cached P (vf_cache v') = cached P (vf_cache v)" "vf_index v' = vf_index v" "vf_root v' = vf_root v"
  shows "vfs_synced A P W v'"
  using assms unfolding vfs_synced_def cache_coherent_def by (simp split: option.splits)

lemma vfs_synced_put:
  assumes "vfs_inv A P W v" "page_data A v n = Some d" "vf_cache v' = page_cache_put P (cache_root v) n d pc"
    and "cached P pc = cached P (vf_cache v)" "vf_index v' = vf_index v" "vf_root v' = vf_root v"
  shows "vfs_synced A P W v'"
proof -
  have b: "vfs_base A P W v" and s: "vfs_synced A P W v" and P: "page_lru_ok P"
    using assms(1) by (simp_all add: vfs_inv_def vfs_base_def)
  obtain c where c: "page_index_get (vf_index v) n = Some c" using assms(2) by (auto simp: page_data_def split: option.splits)
  have d: "cid_from_data (oa_b3 A) d = c" "d \<in> W" using page_data_hash[OF b c] assms(2) by (metis option.inject)+
  obtain r where r: "vf_root v = Some r" "r = cid_from_data (oa_b3 A) (page_index_serialize (pi_entries (vf_index v)))"
    "page_index_serialize (pi_entries (vf_index v)) \<in> W"
    using s c by (auto simp: vfs_synced_def page_index_get_def split: option.splits)
  have ok: "entries_ok (pi_entries (vf_index v))" using b by (simp add: vfs_base_def)
  have "cache_coherent A P W (vf_cache v')"
    unfolding cache_coherent_def
  proof (intro allI impI)
    fix r' n' d'
    assume "cached P (vf_cache v') r' n' = Some d'"
    then consider "(r', n', d') = (r, n, d)" | "cached P (vf_cache v) r' n' = Some d'"
      using cached_put(2)[OF P] r(1) assms(4) unfolding assms(3) cache_root_def by fastforce
    then show "d' \<in> W \<and> (\<exists>es. entries_ok es \<and> page_index_serialize es \<in> W \<and>
        r' = cid_from_data (oa_b3 A) (page_index_serialize es) \<and> map_of es n' = Some (cid_from_data (oa_b3 A) d'))"
    proof cases
      case 1
      then show ?thesis using ok r(2,3) c d by (auto simp: page_index_get_def)
    next
      case 2
      then show ?thesis using s unfolding vfs_synced_def cache_coherent_def by blast
    qed
  qed
  then show ?thesis using r by (simp add: vfs_synced_def assms(5,6))
qed

lemma read_page_correct:
  assumes "vfs_inv A P W v" "flt_read flt = None"
  shows "fst (read_page A P flt v n) = (case page_data A v n of None \<Rightarrow> Inl (PageNotFound n) | Some d \<Rightarrow> Inr d)"
    "vfs_inv A P W (snd (read_page A P flt v n))" "page_data A (snd (read_page A P flt v n)) = page_data A v"
    "vf_dirty (snd (read_page A P flt v n)) = vf_dirty v" "vf_root (snd (read_page A P flt v n)) = vf_root v"
proof -
  let ?r = "read_page A P flt v n"
  have b: "vfs_base A P W v" and s: "vfs_synced A P W v" and P: "page_lru_ok P" and sc: "store_clean A (vf_store v)"
    using assms(1) by (simp_all add: vfs_inv_def vfs_base_def)
  have keep: "vfs_inv A P W (v\<lparr>vf_cache := pc\<rparr>) \<and> page_data A (v\<lparr>vf_cache := pc\<rparr>) = page_data A v"
    if "cached P pc = cached P (vf_cache v)" for pc
    using vfs_base_cong[OF b, of "v\<lparr>vf_cache := pc\<rparr>"] vfs_synced_cong[OF s, of "v\<lparr>vf_cache := pc\<rparr>"] that sc by (simp add: vfs_inv_def)
  have "fst ?r = (case page_data A v n of None \<Rightarrow> Inl (PageNotFound n) | Some d \<Rightarrow> Inr d) \<and> vfs_inv A P W (snd ?r) \<and>
    page_data A (snd ?r) = page_data A v \<and> vf_dirty (snd ?r) = vf_dirty v \<and> vf_root (snd ?r) = vf_root v"
  proof (cases "cached P (vf_cache v) (cache_root v) n")
    case (Some d)
    then show ?thesis using read_page_hit[OF P Some, of A flt] cached_page_data[OF assms(1) Some] keep by auto
  next
    case None
    show ?thesis
    proof (cases "page_data A v n")
      case nd: None
      then have "page_index_get (vf_index v) n = None" using page_data_None[OF b] by simp
      then show ?thesis using read_page_none[OF P None, of A flt] nd keep by auto
    next
      case (Some d)
      obtain st pc where r: "?r = (Inr d, v\<lparr>vf_store := st, vf_cache := page_cache_put P (cache_root v) n d pc\<rparr>)"
        "cached P pc = cached P (vf_cache v)" "store_clean A st" "obj_lookup A st = obj_lookup A (vf_store v)"
        using read_page_miss[OF b None Some assms(2)] by blast
      then show ?thesis
        using vfs_base_cong[OF b, of "snd ?r"] vfs_synced_put[OF assms(1) Some, of "snd ?r" pc] Some by (simp add: vfs_inv_def)
    qed
  qed
  then show "fst ?r = (case page_data A v n of None \<Rightarrow> Inl (PageNotFound n) | Some d \<Rightarrow> Inr d)" "vfs_inv A P W (snd ?r)"
    "page_data A (snd ?r) = page_data A v" "vf_dirty (snd ?r) = vf_dirty v" "vf_root (snd ?r) = vf_root v" by blast+
qed

section \<open>Writing and committing\<close>

lemma write_page_correct:
  assumes "vfs_base A P W v" "n \<noteq> - 1" "d \<in> W"
  shows "vfs_base A P W (snd (write_page v n d))" "vfs_synced A P W v \<Longrightarrow> vfs_synced A P W (snd (write_page v n d))"
    "page_data A (snd (write_page v n d)) = page_data A v"
    "fst (write_page v n d) = Inr () \<Longrightarrow> map_of (vf_dirty (snd (write_page v n d))) = (map_of (vf_dirty v))(n \<mapsto> d)"
proof -
  have "distinct (map fst (AList.update n d (vf_dirty v)))" "- 1 \<notin> fst ` set (AList.update n d (vf_dirty v))"
    using assms by (simp_all add: vfs_base_def distinct_update dom_update)
  moreover have "snd ` set (AList.update n d (vf_dirty v)) \<subseteq> W"
  proof -
    have "snd ` set (AList.update n d (vf_dirty v)) \<subseteq> snd ` insert (n, d) (set (vf_dirty v))"
      by (rule image_mono[OF set_alist_update])
    also have "\<dots> \<subseteq> W" using assms(1,3) by (simp add: vfs_base_def)
    finally show ?thesis .
  qed
  ultimately show "vfs_base A P W (snd (write_page v n d))"
    using assms(1) by (simp add: write_page_def vfs_base_def)
  show "vfs_synced A P W v \<Longrightarrow> vfs_synced A P W (snd (write_page v n d))"
    using vfs_synced_cong[of A P W v] by (simp add: write_page_def)
  show "page_data A (snd (write_page v n d)) = page_data A v" by (rule ext) (simp add: write_page_def page_data_def split: option.splits)
  show "fst (write_page v n d) = Inr () \<Longrightarrow> map_of (vf_dirty (snd (write_page v n d))) = (map_of (vf_dirty v))(n \<mapsto> d)"
    by (simp add: write_page_def update_conv' split: if_splits)
qed

lemma put_cid_wf: "blake3_ok (oa_b3 A) \<Longrightarrow> put A f s d = (Inr c, s') \<Longrightarrow> cid_wf c"
  using cid_from_data_wf[of "oa_b3 A" d] by (cases rule: put_cases[of A s d f]) auto

text \<open>The state after the pages are stored, whether or not the index is.\<close>

lemma commit_pages:
  assumes "vfs_base A P W v" "mset ps = mset (vf_dirty v)"
    and "store_pages (put A) flts 0 ps (vf_store v) (vf_index v) = (None, s, ix)"
  shows "store_clean A s" "ran (obj_lookup A s) \<subseteq> W" "obj_lookup A (vf_store v) \<subseteq>\<^sub>m obj_lookup A s" "entries_ok (pi_entries ix)"
    "page_index_get ix = page_index_get (vf_index v) ++ (\<lambda>n. map_option (cid_from_data (oa_b3 A)) (map_of (vf_dirty v) n))"
    "\<forall>(n, d) \<in> set (vf_dirty v). obj_lookup A s (cid_from_data (oa_b3 A) d) = Some d"
proof -
  have b: "store_clean A (vf_store v)" "inj_on (cid_from_data (oa_b3 A)) W" "ran (obj_lookup A (vf_store v)) \<subseteq> W"
    "distinct (map fst (vf_dirty v))" "- 1 \<notin> fst ` set (vf_dirty v)" "entries_ok (pi_entries (vf_index v))"
    "snd ` set (vf_dirty v) \<subseteq> W"
    using assms(1) by (simp_all add: vfs_base_def)
  have set: "set ps = set (vf_dirty v)" using assms(2) by (metis set_mset_mset)
  have dist: "distinct (map fst ps)" using b(4) assms(2) by (metis mset_eq_imp_distinct_iff mset_map)
  then have map: "map_of ps = map_of (vf_dirty v)" using map_of_inject_set[OF dist b(4)] set by simp
  have W: "snd ` set ps \<subseteq> W" using b(7) set by simp
  show "store_clean A s" "ran (obj_lookup A s) \<subseteq> W" "obj_lookup A (vf_store v) \<subseteq>\<^sub>m obj_lookup A s"
    using cas.store_pages_grows[OF b(1-3) W assms(3)] by auto
  have "blake3_ok (oa_b3 A)" using store_inv_api(4)[OF store_cleanD(1)[OF b(1)]] .
  then have "entries_wf (pi_entries ix) \<and> fst ` set (pi_entries ix) \<subseteq> fst ` set (pi_entries (vf_index v)) \<union> fst ` set ps"
    using b(6) by (intro store_pages_wf[OF assms(3)]) (auto simp: entries_ok_def intro: put_cid_wf)
  then show "entries_ok (pi_entries ix)" using b(5,6) set by (auto simp: entries_ok_def)
  show "page_index_get ix = page_index_get (vf_index v) ++ (\<lambda>n. map_option (cid_from_data (oa_b3 A)) (map_of (vf_dirty v) n))"
    "\<forall>(n, d) \<in> set (vf_dirty v). obj_lookup A s (cid_from_data (oa_b3 A) d) = Some d"
    using cas.store_pages_done[OF b(1-3) W assms(3) dist] map set by simp_all
qed

lemma commit_pages_data:
  assumes "vfs_base A P W v" "mset ps = mset (vf_dirty v)"
    and "store_pages (put A) flts 0 ps (vf_store v) (vf_index v) = (None, s, ix)"
    and "obj_lookup A s \<subseteq>\<^sub>m obj_lookup A (vf_store v')" "store_clean A (vf_store v')" "ran (obj_lookup A (vf_store v')) \<subseteq> W"
    and "pi_entries (vf_index v') = pi_entries ix" "vf_dirty v' = []"
  shows "vfs_base A P W v' \<and> page_data A v' = page_data A v ++ map_of (vf_dirty v)"
proof -
  note s = commit_pages[OF assms(1-3)]
  let ?H = "cid_from_data (oa_b3 A)"
  have get: "page_index_get (vf_index v') = page_index_get ix" by (simp add: page_index_get_def fun_eq_iff assms(7))
  have up: "obj_lookup A (vf_store v') c = Some d" if "obj_lookup A (vf_store v) c = Some d \<or> obj_lookup A s c = Some d" for c d
    using that s(3) assms(4) by (auto simp: map_le_def dom_def)
  have at: "page_data A v' n = (page_data A v ++ map_of (vf_dirty v)) n \<and>
      (\<forall>c. page_index_get (vf_index v') n = Some c \<longrightarrow> obj_lookup A (vf_store v') c \<noteq> None)" for n
  proof (cases "map_of (vf_dirty v) n")
    case None
    then have i: "page_index_get (vf_index v') n = page_index_get (vf_index v) n" by (simp add: get s(5) map_add_def)
    show ?thesis
    proof (cases "page_index_get (vf_index v) n")
      case none: None
      then show ?thesis using i None by (simp add: page_data_def map_add_def)
    next
      case (Some c)
      obtain d where d: "page_data A v n = Some d" "obj_lookup A (vf_store v) c = Some d"
        by (rule page_data_hash[OF assms(1) Some])
      have "obj_lookup A (vf_store v') c = Some d" using up d(2) by simp
      then show ?thesis using i Some d(1) None by (simp add: page_data_def map_add_def)
    qed
  next
    case (Some d)
    then have "page_index_get (vf_index v') n = Some (?H d)" by (simp add: get s(5) map_add_def)
    moreover have "obj_lookup A (vf_store v') (?H d) = Some d" using up s(6) map_of_SomeD[OF Some] by auto
    ultimately show ?thesis using Some by (simp add: page_data_def map_add_def)
  qed
  then have "page_data A v' = page_data A v ++ map_of (vf_dirty v)" by (intro ext) blast
  moreover have "vfs_base A P W v'"
    using assms(1,5,6,8) s(4) at by (simp add: vfs_base_def assms(7))
  ultimately show ?thesis by simp
qed

lemma commit_cases:
  obtains (clean) "ord (vf_dirty v) = []"
      "commit A flts ord v = (case vf_root v of None \<Rightarrow> (Inl NoRootCid, v\<lparr>vf_dirty := []\<rparr>) | Some r \<Rightarrow> (Inr r, v\<lparr>vf_dirty := []\<rparr>))"
  | (pages_failed) e s ix where "store_pages (put A) flts 0 (ord (vf_dirty v)) (vf_store v) (vf_index v) = (Some e, s, ix)"
      "commit A flts ord v = (Inl (VfsStoreError ''put failed''), v\<lparr>vf_dirty := [], vf_store := s, vf_index := ix\<rparr>)"
  | (index_failed) e s ix s' where "store_pages (put A) flts 0 (ord (vf_dirty v)) (vf_store v) (vf_index v) = (None, s, ix)"
      "put A (flts (length (ord (vf_dirty v)))) s (page_index_serialize (pi_entries ix)) = (Inl e, s')"
      "commit A flts ord v = (Inl (VfsStoreError ''put failed''), v\<lparr>vf_dirty := [], vf_store := s', vf_index := ix\<rparr>)"
  | (committed) s ix r s' where "store_pages (put A) flts 0 (ord (vf_dirty v)) (vf_store v) (vf_index v) = (None, s, ix)"
      "put A (flts (length (ord (vf_dirty v)))) s (page_index_serialize (pi_entries ix)) = (Inr r, s')"
      "commit A flts ord v = (Inr r, v\<lparr>vf_dirty := [], vf_store := s', vf_index := page_index_set_root r ix, vf_root := Some r\<rparr>)"
proof -
  obtain o' s ix where sp: "store_pages (put A) flts 0 (ord (vf_dirty v)) (vf_store v) (vf_index v) = (o', s, ix)"
    by (cases "store_pages (put A) flts 0 (ord (vf_dirty v)) (vf_store v) (vf_index v)") auto
  obtain x s' where x: "put A (flts (length (ord (vf_dirty v)))) s (page_index_serialize (pi_entries ix)) = (x, s')"
    by (cases "put A (flts (length (ord (vf_dirty v)))) s (page_index_serialize (pi_entries ix))")
  show thesis
  proof (cases "ord (vf_dirty v) = []")
    case True
    then show ?thesis by (intro clean) (simp_all add: commit_def Let_def)
  next
    case False
    show ?thesis
    proof (cases o')
      case (Some e)
      then show ?thesis using sp False by (intro pages_failed[of e s ix]) (simp_all add: commit_def Let_def)
    next
      case None
      then show ?thesis using sp x False
        by (cases x) (auto simp: commit_def Let_def intro: index_failed[of s ix _ s'] committed[of s ix _ s'])
    qed
  qed
qed

text \<open>A successful commit of dirty pages, whatever the cache holds.\<close>

lemma commit_base:
  assumes "vfs_base A P W v" "mset (ord (vf_dirty v)) = mset (vf_dirty v)" "commit A flts ord v = (Inr r, v')"
    and "page_index_serialize (pi_entries (vf_index v')) \<in> W" "vf_dirty v \<noteq> []"
  shows "vfs_base A P W v'" "page_data A v' = page_data A v ++ map_of (vf_dirty v)" "vf_dirty v' = []" "vf_root v' = Some r"
    "vf_cache v' = vf_cache v" "r = cid_from_data (oa_b3 A) (page_index_serialize (pi_entries (vf_index v')))"
proof -
  have "vfs_base A P W v' \<and> page_data A v' = page_data A v ++ map_of (vf_dirty v) \<and> vf_dirty v' = [] \<and> vf_root v' = Some r \<and>
    vf_cache v' = vf_cache v \<and> r = cid_from_data (oa_b3 A) (page_index_serialize (pi_entries (vf_index v')))"
  proof (cases rule: commit_cases[of ord v A flts])
    case clean
    then show ?thesis using assms(2,5) by simp
  next
    case (pages_failed e s ix)
    then show ?thesis using assms(3) by simp
  next
    case (index_failed e s ix s')
    then show ?thesis using assms(3) by simp
  next
    case (committed s ix r' s')
    then have v': "v' = v\<lparr>vf_dirty := [], vf_store := s', vf_index := page_index_set_root r ix, vf_root := Some r\<rparr>" "r' = r"
      using assms(3) by simp_all
    note s = commit_pages[OF assms(1,2) committed(1)]
    have inj: "inj_on (cid_from_data (oa_b3 A)) W" using assms(1) by (simp add: vfs_base_def)
    have ser: "page_index_serialize (pi_entries ix) \<in> W" using assms(4) v' by (simp add: page_index_set_root_def)
    note g = cas.put_op_grows[OF s(1) inj s(2) ser, of "flts (length (ord (vf_dirty v)))", unfolded committed(2)]
    have "store_clean A s'" using cas.put_op_inv[OF s(1), of "flts (length (ord (vf_dirty v)))"] committed(2) by (metis snd_conv)
    then have "vfs_base A P W v' \<and> page_data A v' = page_data A v ++ map_of (vf_dirty v)"
      using g(1,2) by (intro commit_pages_data[OF assms(1,2) committed(1)]) (simp_all add: v'(1) page_index_set_root_def)
    then show ?thesis using g(3)[of r] v' by (simp add: page_index_set_root_def)
  qed
  then show "vfs_base A P W v'" "page_data A v' = page_data A v ++ map_of (vf_dirty v)" "vf_dirty v' = []" "vf_root v' = Some r"
    "vf_cache v' = vf_cache v" "r = cid_from_data (oa_b3 A) (page_index_serialize (pi_entries (vf_index v')))" by blast+
qed

lemma commit_correct:
  assumes "vfs_inv A P W v" "mset (ord (vf_dirty v)) = mset (vf_dirty v)" "commit A flts ord v = (Inr r, v')"
    and "page_index_serialize (pi_entries (vf_index v')) \<in> W"
  shows "vfs_inv A P W v' \<and> page_data A v' = page_data A v ++ map_of (vf_dirty v) \<and> vf_dirty v' = [] \<and> vf_root v' = Some r"
proof (cases "vf_dirty v = []")
  case True
  then have "ord (vf_dirty v) = []" using assms(2) by simp
  then have "v' = v \<and> vf_root v = Some r" using assms(3) True by (auto simp: commit_def Let_def split: option.splits)
  then show ?thesis using assms(1) True by simp
next
  case False
  have b: "vfs_base A P W v" "cache_coherent A P W (vf_cache v)" using assms(1) by (simp_all add: vfs_inv_def vfs_synced_def)
  note c = commit_base[OF b(1) assms(2-4) False]
  have "vfs_synced A P W v'" using b(2) assms(4) c(4-6) by (simp add: vfs_synced_def)
  then show ?thesis using c by (simp add: vfs_inv_def)
qed

text \<open>Without faults a commit of dirty pages succeeds.\<close>

lemma store_pages_succeeds:
  "\<forall>i. flt_write (flts i) = None \<and> flt_rename (flts i) = None \<Longrightarrow> fst (store_pages (put A) flts i ps s ix) = None"
proof (induction ps arbitrary: i s ix)
  case Nil
  then show ?case by simp
next
  case (Cons p ps)
  then show ?case using put_succeeds[of "flts i" A s "snd p"]
    by (cases p; cases "put A (flts i) s (snd p)") (auto split: sum.splits)
qed

lemma commit_succeeds:
  assumes "\<forall>i. flt_write (flts i) = None \<and> flt_rename (flts i) = None" "ord (vf_dirty v) \<noteq> []"
  shows "\<exists>r. fst (commit A flts ord v) = Inr r"
proof (cases rule: commit_cases[of ord v A flts])
  case (pages_failed e s ix)
  then show ?thesis using store_pages_succeeds[OF assms(1), of A 0 "ord (vf_dirty v)" "vf_store v" "vf_index v"] by simp
next
  case (index_failed e s ix s')
  then show ?thesis using put_succeeds[of "flts (length (ord (vf_dirty v)))" A s "page_index_serialize (pi_entries ix)"] assms(1) by simp
qed (use assms(2) in auto)

section \<open>Histories\<close>

text \<open>
  Reads, writes and commits in any order, with any faults; commits may fail at any put.  \<open>W\<close> contains
  all byte strings that reach the store.
\<close>

inductive vfs_step :: "('b, 'c) obj_api \<Rightarrow> 'p page_lru \<Rightarrow> bytes set \<Rightarrow> ('b, 'c, 'p) vfs \<Rightarrow> ('b, 'c, 'p) vfs \<Rightarrow> bool"
  for A P W where
  reading: "flt_read flt \<noteq> Some IoNotFound \<Longrightarrow> vfs_step A P W v (snd (read_page A P flt v n))"
| writing: "n \<noteq> - 1 \<Longrightarrow> d \<in> W \<Longrightarrow> vfs_step A P W v (snd (write_page v n d))"
| committing: "mset (ord (vf_dirty v)) = mset (vf_dirty v) \<Longrightarrow>
    page_index_serialize (pi_entries (vf_index (snd (commit A flts ord v)))) \<in> W \<Longrightarrow>
    vfs_step A P W v (snd (commit A flts ord v))"

lemma read_page_store:
  assumes "vfs_base A P W v" "flt_read flt \<noteq> Some IoNotFound"
  shows "vfs_base A P W (snd (read_page A P flt v n)) \<and>
    obj_lookup A (vf_store (snd (read_page A P flt v n))) = obj_lookup A (vf_store v)"
proof -
  let ?v' = "snd (read_page A P flt v n)"
  have s: "store_clean A (vf_store v)" using assms(1) by (simp add: vfs_base_def)
  obtain hit pc where pc: "page_cache_get P (vf_cache v) (cache_root v) n = (hit, pc)"
    by (cases "page_cache_get P (vf_cache v) (cache_root v) n")
  have st: "vf_store ?v' = vf_store v \<or> (\<exists>c x. get A flt (vf_store v) c = (x, vf_store ?v'))"
    and ix: "vf_index ?v' = vf_index v" "vf_dirty ?v' = vf_dirty v"
    by (auto simp: read_page_def Let_def pc split: option.splits prod.splits sum.splits)
  from st have "store_clean A (vf_store ?v') \<and> obj_lookup A (vf_store ?v') = obj_lookup A (vf_store v)"
  proof (elim disjE exE)
    fix c x
    assume "get A flt (vf_store v) c = (x, vf_store ?v')"
    then show ?thesis using cas.get_op_inv[OF s assms(2), of c] by simp
  qed (use s in simp)
  then show ?thesis using vfs_base_cong[OF assms(1), of ?v'] ix by simp
qed

lemma commit_store:
  assumes "vfs_base A P W v" "mset (ord (vf_dirty v)) = mset (vf_dirty v)"
    and "page_index_serialize (pi_entries (vf_index (snd (commit A flts ord v)))) \<in> W"
  shows "vfs_base A P W (snd (commit A flts ord v)) \<and>
    obj_lookup A (vf_store v) \<subseteq>\<^sub>m obj_lookup A (vf_store (snd (commit A flts ord v)))"
proof (cases rule: commit_cases[of ord v A flts])
  case clean
  then show ?thesis using vfs_base_cong[OF assms(1), of "v\<lparr>vf_dirty := []\<rparr>"] assms(1)
    by (auto simp: vfs_base_def split: option.splits)
next
  case (pages_failed e s ix)
  have b: "store_clean A (vf_store v)" "inj_on (cid_from_data (oa_b3 A)) W" "ran (obj_lookup A (vf_store v)) \<subseteq> W"
    "\<forall>n c. page_index_get (vf_index v) n = Some c \<longrightarrow> obj_lookup A (vf_store v) c \<noteq> None"
    "- 1 \<notin> fst ` set (vf_dirty v)" "entries_ok (pi_entries (vf_index v))" "page_lru_ok P" "snd ` set (vf_dirty v) \<subseteq> W"
    using assms(1) unfolding vfs_base_def by blast+
  have set: "set (ord (vf_dirty v)) = set (vf_dirty v)" using assms(2) by (metis set_mset_mset)
  have W: "snd ` set (ord (vf_dirty v)) \<subseteq> W" using b(8) set by simp
  have "blake3_ok (oa_b3 A)" using store_inv_api(4)[OF store_cleanD(1)[OF b(1)]] .
  then have "entries_wf (pi_entries ix) \<and> fst ` set (pi_entries ix) \<subseteq> fst ` set (pi_entries (vf_index v)) \<union> fst ` set (ord (vf_dirty v))"
    using b(6) by (intro store_pages_wf[OF pages_failed(1)]) (auto simp: entries_ok_def intro: put_cid_wf)
  then have "entries_ok (pi_entries ix)" using b(5,6) set by (auto simp: entries_ok_def)
  then show ?thesis
    using cas.store_pages_grows[OF b(1-3) W pages_failed(1)] cas.store_pages_present[OF b(1-3) W pages_failed(1) b(4)] b(2,7)
    by (simp add: vfs_base_def pages_failed(2))
next
  case (index_failed e s ix s')
  note s = commit_pages[OF assms(1,2) index_failed(1)]
  have inj: "inj_on (cid_from_data (oa_b3 A)) W" using assms(1) by (simp add: vfs_base_def)
  have ser: "page_index_serialize (pi_entries ix) \<in> W" using assms(3) index_failed(3) by simp
  note g = cas.put_op_grows[OF s(1) inj s(2) ser, of "flts (length (ord (vf_dirty v)))", unfolded index_failed(2)]
  have "store_clean A s'" using cas.put_op_inv[OF s(1), of "flts (length (ord (vf_dirty v)))"] index_failed(2) by (metis snd_conv)
  then have "vfs_base A P W (snd (commit A flts ord v))"
    using g(1,2) commit_pages_data[OF assms(1,2) index_failed(1), of "snd (commit A flts ord v)"] by (simp add: index_failed(3))
  then show ?thesis using map_le_trans[OF s(3)] g(1) by (simp add: index_failed(3))
next
  case (committed s ix r s')
  note s = commit_pages[OF assms(1,2) committed(1)]
  have inj: "inj_on (cid_from_data (oa_b3 A)) W" using assms(1) by (simp add: vfs_base_def)
  have ser: "page_index_serialize (pi_entries ix) \<in> W" using assms(3) committed(3) by (simp add: page_index_set_root_def)
  note g = cas.put_op_grows[OF s(1) inj s(2) ser, of "flts (length (ord (vf_dirty v)))", unfolded committed(2)]
  have "store_clean A s'" using cas.put_op_inv[OF s(1), of "flts (length (ord (vf_dirty v)))"] committed(2) by (metis snd_conv)
  then have "vfs_base A P W (snd (commit A flts ord v))"
    using g(1,2) commit_pages_data[OF assms(1,2) committed(1), of "snd (commit A flts ord v)"]
    by (simp add: committed(3) page_index_set_root_def)
  then show ?thesis using map_le_trans[OF s(3)] g(1) by (simp add: committed(3))
qed

lemma vfs_steps_store:
  assumes "(vfs_step A P W)\<^sup>*\<^sup>* v v'" "vfs_base A P W v"
  shows "vfs_base A P W v' \<and> obj_lookup A (vf_store v) \<subseteq>\<^sub>m obj_lookup A (vf_store v')"
  using assms
proof (induction rule: rtranclp_induct)
  case base
  then show ?case by simp
next
  case (step u w)
  then have u: "vfs_base A P W u" "obj_lookup A (vf_store v) \<subseteq>\<^sub>m obj_lookup A (vf_store u)" by simp_all
  from step.hyps(2) have "vfs_base A P W w \<and> obj_lookup A (vf_store u) \<subseteq>\<^sub>m obj_lookup A (vf_store w)"
  proof cases
    case (reading flt n)
    then show ?thesis using read_page_store[OF u(1)] by simp
  next
    case (writing n d)
    then show ?thesis using write_page_correct(1)[OF u(1)] by (simp add: write_page_def)
  next
    case (committing ord flts)
    then show ?thesis using commit_store[OF u(1)] by simp
  qed
  then show ?case using u(2) map_le_trans by blast
qed

section \<open>A concrete file system\<close>

definition demo_lru :: "(cid \<times> u32 \<Rightarrow> bytes option) page_lru" where
  "demo_lru = \<lparr>pl_new = \<lambda>n k. None, pl_get = \<lambda>c k. (c k, c), pl_peek = \<lambda>c k. c k,
     pl_put = \<lambda>c k v. c(k \<mapsto> v), pl_pop = \<lambda>c k. c(k := None)\<rparr>"

lemma demo_lru_ok: "page_lru_ok demo_lru"
  by (simp add: page_lru_ok_def demo_lru_def)

definition demo_page :: "u8 \<Rightarrow> bytes" where
  "demo_page b = b # replicate 511 0"

definition demo_index :: "u8 \<Rightarrow> entries" where
  "demo_index b = [(1, Cid (sum_hash (demo_page b)))]"

definition demo_world :: "bytes set" where
  "demo_world = {demo_page 1, demo_page 10, page_index_serialize (demo_index 1), page_index_serialize (demo_index 10)}"

definition demo_vfs0 :: "(bytes list, cid \<Rightarrow> bytes option, cid \<times> u32 \<Rightarrow> bytes option) vfs" where
  "demo_vfs0 = (case vfs_new demo_lru (store_new demo_api [] 4) 512 of Inr v \<Rightarrow> v)"

definition demo_vfs :: "(bytes list, cid \<Rightarrow> bytes option, cid \<times> u32 \<Rightarrow> bytes option) vfs" where
  "demo_vfs = snd (commit demo_api (\<lambda>_. no_faults) id (snd (write_page demo_vfs0 1 (demo_page 1))))"

lemma demo_hash [simp]: "cid_from_data (oa_b3 demo_api) d = Cid (sum_hash d)"
  by (simp add: cid_from_data_def demo_api_def)

lemma sum_list_zeros: "sum_list (replicate k (0 :: u8)) = 0"
  by (induction k) simp_all

lemma sum_list_demo_page: "sum_list (demo_page b) = b"
  by (simp only: demo_page_def sum_list.Cons sum_list_zeros add_0_right)

lemma length_demo_page: "length (demo_page b) = 512"
  by (simp only: demo_page_def length_Cons length_replicate)

lemma sum_list_le_1: "sum_list (to_le_bytes32 1) = 1"
  by code_simp

lemma sum_list_demo_index: "sum_list (page_index_serialize (demo_index b)) = b + 2"
proof -
  have "page_index_serialize (demo_index b) = to_le_bytes32 1 @ to_le_bytes32 1 @ (b # replicate 31 0)"
    by (simp add: page_index_serialize_def demo_index_def entry_bytes_def sum_hash_def sum_list_demo_page)
  then show ?thesis by (simp only: sum_list_append sum_list_le_1 sum_list.Cons sum_list_zeros) simp
qed

lemma demo_world_inj: "inj_on (cid_from_data (oa_b3 demo_api)) demo_world"
proof (rule inj_onI)
  fix x y
  assume x: "x \<in> demo_world" and y: "y \<in> demo_world" and "cid_from_data (oa_b3 demo_api) x = cid_from_data (oa_b3 demo_api) y"
  then have "sum_list x = sum_list y" by (simp add: sum_hash_def)
  with x y show "x = y" unfolding demo_world_def
    by (elim insertE emptyE) (simp_all only: sum_list_demo_page sum_list_demo_index, simp_all)
qed

lemma demo_vfs0_inv: "vfs_inv demo_api demo_lru demo_world demo_vfs0"
proof -
  have p: "is_power_of_two 512" by (simp add: is_power_of_two_def image_iff) (rule bexI[of _ 9]; simp)
  have e: "vfs_new demo_lru (store_new demo_api [] 4) 512 = Inr demo_vfs0" by (simp add: vfs_new_def p demo_vfs0_def)
  have "ran (obj_lookup demo_api (store_new demo_api [] 4)) \<subseteq> demo_world"
    by (auto simp: ran_def obj_lookup_def store_new_def fs_lookup_def)
  then show ?thesis by (rule vfs_new_inv[OF e demo_new_clean demo_lru_ok demo_world_inj])
qed

lemma demo_vfs0_fields:
  "vf_dirty demo_vfs0 = []" "vf_page_size demo_vfs0 = 512" "vf_index demo_vfs0 = page_index_new" "vf_root demo_vfs0 = None"
  "vf_cache demo_vfs0 = page_cache_new demo_lru" "vf_store demo_vfs0 = store_new demo_api [] 4"
proof -
  have p: "is_power_of_two 512" by (simp add: is_power_of_two_def image_iff) (rule bexI[of _ 9]; simp)
  show "vf_dirty demo_vfs0 = []" "vf_page_size demo_vfs0 = 512" "vf_index demo_vfs0 = page_index_new" "vf_root demo_vfs0 = None"
    "vf_cache demo_vfs0 = page_cache_new demo_lru" "vf_store demo_vfs0 = store_new demo_api [] 4"
    by (simp_all add: demo_vfs0_def vfs_new_def p)
qed

text \<open>A commit of one page.\<close>

lemma store_one_page:
  assumes "flt_write (flts 0) = None" "flt_rename (flts 0) = None"
  shows "store_pages (put A) flts 0 [(n, d)] s ix = (None, snd (put A (flts 0) s d), page_index_set n (cid_from_data (oa_b3 A) d) ix)"
proof -
  obtain x s' where x: "put A (flts 0) s d = (x, s')" by (cases "put A (flts 0) s d")
  then have "x = Inr (cid_from_data (oa_b3 A) d)" using put_succeeds[OF assms, of A s d] by simp
  with x show ?thesis by simp
qed

lemma commit_one_eq:
  assumes "vf_dirty v = [(n, d)]" "\<forall>i. flt_write (flts i) = None \<and> flt_rename (flts i) = None"
    and "ix = page_index_set n (cid_from_data (oa_b3 A) d) (vf_index v)" "r = cid_from_data (oa_b3 A) (page_index_serialize (pi_entries ix))"
  shows "commit A flts id v = (Inr r, v\<lparr>vf_dirty := [],
      vf_store := snd (put A (flts 1) (snd (put A (flts 0) (vf_store v) d)) (page_index_serialize (pi_entries ix))),
      vf_index := page_index_set_root r ix, vf_root := Some r\<rparr>)"
proof -
  let ?s = "snd (put A (flts 0) (vf_store v) d)"
  have "store_pages (put A) flts 0 [(n, d)] (vf_store v) (vf_index v) = (None, ?s, ix)"
    using store_one_page[of flts A n d "vf_store v" "vf_index v"] assms(2,3) by simp
  moreover obtain x s' where x: "put A (flts 1) ?s (page_index_serialize (pi_entries ix)) = (x, s')"
    by (cases "put A (flts 1) ?s (page_index_serialize (pi_entries ix))")
  moreover have "x = Inr r" using put_succeeds[of "flts 1" A ?s "page_index_serialize (pi_entries ix)"] assms(2,4) x by simp
  ultimately show ?thesis using assms(1) by (simp add: commit_def Let_def del: store_pages.simps)
qed

lemma commit_one_ok:
  assumes "vf_dirty v = [(n, d)]" "\<forall>i. flt_write (flts i) = None \<and> flt_rename (flts i) = None"
    and "ix = page_index_set n (cid_from_data (oa_b3 A) d) (vf_index v)" "r = cid_from_data (oa_b3 A) (page_index_serialize (pi_entries ix))"
  shows "\<exists>s. commit A flts id v = (Inr r, v\<lparr>vf_dirty := [], vf_store := s, vf_index := page_index_set_root r ix, vf_root := Some r\<rparr>)"
  using commit_one_eq[OF assms] by (rule exI)

lemma demo_vfs_state:
  "vfs_inv demo_api demo_lru demo_world demo_vfs" "page_data demo_api demo_vfs 1 = Some (demo_page 1)" "vf_dirty demo_vfs = []"
  "vf_root demo_vfs = Some (Cid (sum_hash (page_index_serialize (demo_index 1))))" "pi_entries (vf_index demo_vfs) = demo_index 1"
  "vf_page_size demo_vfs = 512" "vf_cache demo_vfs = page_cache_new demo_lru"
proof -
  let ?v = "snd (write_page demo_vfs0 1 (demo_page 1))"
  have "demo_page 1 \<in> demo_world" by (simp add: demo_world_def)
  then have v: "vfs_inv demo_api demo_lru demo_world ?v" "page_data demo_api ?v = page_data demo_api demo_vfs0"
    using demo_vfs0_inv write_page_correct(1-3)[of demo_api demo_lru demo_world demo_vfs0 1 "demo_page 1"] by (simp_all add: vfs_inv_def)
  have f: "vf_dirty ?v = [(1, demo_page 1)]" "vf_index ?v = page_index_new" "vf_page_size ?v = 512" "vf_cache ?v = page_cache_new demo_lru"
    by (simp_all add: write_page_def length_demo_page demo_vfs0_fields)
  let ?ix = "page_index_set 1 (Cid (sum_hash (demo_page 1))) page_index_new"
  have ix: "pi_entries ?ix = demo_index 1" by (simp add: page_index_set_def page_index_new_def demo_index_def)
  let ?r = "Cid (sum_hash (page_index_serialize (demo_index 1)))"
  obtain st where c: "commit demo_api (\<lambda>_. no_faults) id ?v =
      (Inr ?r, ?v\<lparr>vf_dirty := [], vf_store := st, vf_index := page_index_set_root ?r ?ix, vf_root := Some ?r\<rparr>)"
    using commit_one_ok[OF f(1), of "\<lambda>_. no_faults" ?ix demo_api ?r] f(2) ix by (auto simp: no_faults_def)
  have d: "demo_vfs = ?v\<lparr>vf_dirty := [], vf_store := st, vf_index := page_index_set_root ?r ?ix, vf_root := Some ?r\<rparr>"
    by (simp add: demo_vfs_def c)
  show i: "pi_entries (vf_index demo_vfs) = demo_index 1" by (simp add: d page_index_set_root_def ix)
  have w: "page_index_serialize (pi_entries (vf_index demo_vfs)) \<in> demo_world" by (simp add: i demo_world_def)
  have "commit demo_api (\<lambda>_. no_faults) id ?v = (Inr ?r, demo_vfs)" by (simp add: c d)
  from commit_correct[OF v(1) _ this w] show "vfs_inv demo_api demo_lru demo_world demo_vfs"
    "page_data demo_api demo_vfs 1 = Some (demo_page 1)" "vf_dirty demo_vfs = []" "vf_root demo_vfs = Some ?r"
    using f(1) by (simp_all add: id_def)
  show "vf_page_size demo_vfs = 512" "vf_cache demo_vfs = page_cache_new demo_lru" by (simp_all add: d f)
qed

section \<open>Properties\<close>

text \<open>
  C11. Refinement.  The VFS implements a map of pages with a buffer of pending writes.  A read returns
  the committed page, or reports that it does not exist, and changes neither; a write is buffered,
  or rejected when the size is wrong; a successful commit, in whatever order the dirty pages are
  stored, applies all pending writes, empties the buffer and publishes the hash of the new index as
  root.  The hash is assumed free of collisions on the byte strings \<open>W\<close> that reach the store; the page
  number with all bits set, which no file of the database reaches, is excluded from writes.
\<close>

theorem vfs_refines_pages:
  assumes "vfs_inv A P W v"
  shows "(\<forall>flt n. flt_read flt = None \<longrightarrow>
      fst (read_page A P flt v n) = (case page_data A v n of None \<Rightarrow> Inl (PageNotFound n) | Some d \<Rightarrow> Inr d) \<and>
      vfs_inv A P W (snd (read_page A P flt v n)) \<and> page_data A (snd (read_page A P flt v n)) = page_data A v \<and>
      vf_dirty (snd (read_page A P flt v n)) = vf_dirty v) \<and>
    (\<forall>n d. n \<noteq> - 1 \<and> d \<in> W \<longrightarrow>
      vfs_inv A P W (snd (write_page v n d)) \<and> page_data A (snd (write_page v n d)) = page_data A v \<and>
      (if length d = vf_page_size v
       then fst (write_page v n d) = Inr () \<and> map_of (vf_dirty (snd (write_page v n d))) = (map_of (vf_dirty v))(n \<mapsto> d)
       else write_page v n d = (Inl (InvalidPageSize (length d)), v))) \<and>
    (\<forall>flts ord r v'. mset (ord (vf_dirty v)) = mset (vf_dirty v) \<and> commit A flts ord v = (Inr r, v') \<and>
      page_index_serialize (pi_entries (vf_index v')) \<in> W \<longrightarrow>
      vfs_inv A P W v' \<and> page_data A v' = page_data A v ++ map_of (vf_dirty v) \<and> vf_dirty v' = [] \<and> vf_root v' = Some r \<and>
      r = cid_from_data (oa_b3 A) (page_index_serialize (pi_entries (vf_index v'))))"
proof (intro conjI allI impI)
  fix n :: u32 and d
  assume nd: "n \<noteq> - 1 \<and> d \<in> W"
  have b: "vfs_base A P W v" "vfs_synced A P W v" using assms by (simp_all add: vfs_inv_def)
  show "vfs_inv A P W (snd (write_page v n d))" "page_data A (snd (write_page v n d)) = page_data A v"
    using nd b write_page_correct(1-3)[OF b(1), of n d] by (simp_all add: vfs_inv_def)
  show "if length d = vf_page_size v
       then fst (write_page v n d) = Inr () \<and> map_of (vf_dirty (snd (write_page v n d))) = (map_of (vf_dirty v))(n \<mapsto> d)
       else write_page v n d = (Inl (InvalidPageSize (length d)), v)"
    by (simp add: write_page_def update_conv')
next
  fix flts ord r v'
  assume "mset (ord (vf_dirty v)) = mset (vf_dirty v) \<and> commit A flts ord v = (Inr r, v') \<and>
      page_index_serialize (pi_entries (vf_index v')) \<in> W"
  then have c: "vfs_inv A P W v' \<and> page_data A v' = page_data A v ++ map_of (vf_dirty v) \<and> vf_dirty v' = [] \<and> vf_root v' = Some r"
    using commit_correct[OF assms] by blast
  then show "vfs_inv A P W v'" "page_data A v' = page_data A v ++ map_of (vf_dirty v)" "vf_dirty v' = []" "vf_root v' = Some r"
    by simp_all
  have "vfs_synced A P W v'" using c by (simp add: vfs_inv_def)
  then show "r = cid_from_data (oa_b3 A) (page_index_serialize (pi_entries (vf_index v')))"
    unfolding vfs_synced_def using c by simp
qed (erule read_page_correct[OF assms])+

theorem vfs_refines_pages_witness:
  "vfs_inv demo_api demo_lru demo_world demo_vfs \<and>
   fst (read_page demo_api demo_lru no_faults demo_vfs 1) = Inr (demo_page 1)"
proof -
  have "flt_read no_faults = None" by (simp add: no_faults_def)
  with conjunct1[OF vfs_refines_pages[OF demo_vfs_state(1)]]
  have "fst (read_page demo_api demo_lru no_faults demo_vfs 1) =
      (case page_data demo_api demo_vfs 1 of None \<Rightarrow> Inl (PageNotFound 1) | Some d \<Rightarrow> Inr d)" by blast
  then show ?thesis using demo_vfs_state(1) by (simp only: demo_vfs_state(2) option.case)
qed

text \<open>
  Snapshot isolation.  A snapshot resolves a page to the identifier it had when the snapshot was
  taken, and whatever reads, writes and commits follow, failing ones included, fetching that
  identifier from the store returns the contents the page had then.
\<close>

theorem snapshot_isolation:
  assumes "vfs_base A P W v" "vfs_snapshot v = Inr sn" "(vfs_step A P W)\<^sup>*\<^sup>* v v'"
    and "resolve_page sn n = Some c" "flt_read flt = None"
  shows "page_data A v n \<noteq> None \<and> fst (get A flt (vf_store v') c) = Inr (page_data A v n)"
proof -
  have "page_index_get (vf_index v) n = Some c"
    using assms(2,4) by (auto simp: vfs_snapshot_def snapshot_new_def resolve_page_def page_index_get_def split: option.splits)
  then obtain d where d: "page_data A v n = Some d" "cid_wf c" "obj_lookup A (vf_store v) c = Some d"
    by (rule page_data_hash[OF assms(1)])
  have "vfs_base A P W v'" "obj_lookup A (vf_store v) \<subseteq>\<^sub>m obj_lookup A (vf_store v')" using vfs_steps_store[OF assms(3,1)] by simp_all
  then have "store_clean A (vf_store v')" "obj_lookup A (vf_store v') c = Some d"
    using d(3) by (auto simp: vfs_base_def map_le_def dom_def)
  then show ?thesis using get_clean(2)[of A "vf_store v'" flt c] d assms(5) by simp
qed

theorem snapshot_isolation_witness:
  "resolve_page \<lparr>sn_root = Cid (sum_hash (page_index_serialize (demo_index 1))), sn_entries = demo_index 1\<rparr> 1 =
     Some (Cid (sum_hash (demo_page 1))) \<and>
   fst (get demo_api no_faults (vf_store (snd (write_page demo_vfs 1 (demo_page 10)))) (Cid (sum_hash (demo_page 1)))) =
     Inr (Some (demo_page 1))"
proof -
  let ?sn = "\<lparr>sn_root = Cid (sum_hash (page_index_serialize (demo_index 1))), sn_entries = demo_index 1\<rparr>"
  have sn: "vfs_snapshot demo_vfs = Inr ?sn" by (simp add: vfs_snapshot_def snapshot_new_def demo_vfs_state)
  have r: "resolve_page ?sn 1 = Some (Cid (sum_hash (demo_page 1)))" by (simp add: resolve_page_def demo_index_def)
  have "vfs_step demo_api demo_lru demo_world demo_vfs (snd (write_page demo_vfs 1 (demo_page 10)))"
    by (rule vfs_step.writing) (simp_all add: demo_world_def)
  moreover have "vfs_base demo_api demo_lru demo_world demo_vfs" using demo_vfs_state(1) by (simp add: vfs_inv_def)
  ultimately show ?thesis
    using snapshot_isolation[OF _ sn r_into_rtranclp r, of demo_api demo_lru demo_world _ no_faults] r
    by (auto simp: demo_vfs_state(2) no_faults_def)
qed

end
