(* ===== verification/Vfs_Failure.thy ===== *)
theory Vfs_Failure
  imports Vfs
begin

text \<open>
  What a commit that fails while storing the page index leaves behind (craftec-vfs/src/vfs.rs):
  the page index is updated page by page before the root is, so reads between the failure and the
  next commit return uncommitted pages and cache them under the old root.  When the old contents
  are written and committed again, the root returns to its old value and the cache serves the
  uncommitted page.
\<close>

definition index_put_fails :: "nat \<Rightarrow> io_faults" where
  "index_put_fails i = (if i = 0 then no_faults else no_faults\<lparr>flt_write := Some (IoNoSpace, 0)\<rparr>)"

lemma commit_one_fails:
  assumes "vfs_base A P W v" "vf_dirty v = [(n, d)]" "ix = page_index_set n (cid_from_data (oa_b3 A) d) (vf_index v)"
    and "obj_lookup A (vf_store v) (cid_from_data (oa_b3 A) (page_index_serialize (pi_entries ix))) = None"
    and "page_index_serialize (pi_entries ix) \<in> W" "page_index_serialize (pi_entries ix) \<noteq> d"
  shows "\<exists>e s. commit A index_put_fails id v = (Inl e, v\<lparr>vf_dirty := [], vf_store := s, vf_index := ix\<rparr>)"
proof -
  let ?s = "snd (put A (index_put_fails 0) (vf_store v) d)" and ?ser = "page_index_serialize (pi_entries ix)"
  let ?H = "cid_from_data (oa_b3 A)"
  have b: "store_clean A (vf_store v)" "inj_on ?H W" "d \<in> W" using assms(1,2) by (simp_all add: vfs_base_def)
  have f: "flt_write (index_put_fails 0) = None" "flt_rename (index_put_fails 0) = None" "flt_write (index_put_fails 1) \<noteq> None"
    by (simp_all add: index_put_fails_def no_faults_def)
  have sp: "store_pages (put A) index_put_fails 0 [(n, d)] (vf_store v) (vf_index v) = (None, ?s, ix)"
    using store_one_page[of index_put_fails A n d] f(1,2) assms(3) by simp
  have "?H ?ser \<noteq> ?H d" using inj_onD[OF b(2) _ assms(5) b(3)] assms(6) by blast
  then have "obj_lookup A ?s (?H ?ser) = None" using put_clean(3)[OF b(1), of "?H ?ser" d] assms(4) by simp
  moreover have "cid_wf (?H ?ser)" using cid_from_data_wf[OF store_inv_api(4)[OF store_cleanD(1)[OF b(1)]]] .
  ultimately have "\<not> obj_exists A (index_put_fails 1) ?s (?H ?ser)" by (simp add: obj_lookup_def obj_exists_def)
  then have "\<not> is_ok (fst (put A (index_put_fails 1) ?s ?ser))" using put_fails[OF _ f(3)] by blast
  then obtain e s' where "put A (index_put_fails 1) ?s ?ser = (Inl e, s')"
    by (cases "put A (index_put_fails 1) ?s ?ser"; cases "fst (put A (index_put_fails 1) ?s ?ser)") (auto simp: is_ok_def)
  with sp assms(2) show ?thesis
    by (intro exI[of _ "VfsStoreError ''put failed''"] exI[of _ s']) (simp add: commit_def Let_def del: store_pages.simps)
qed

lemma write_one:
  "vf_dirty v = [] \<Longrightarrow> length d = vf_page_size v \<Longrightarrow> write_page v n d = (Inr (), v\<lparr>vf_dirty := [(n, d)]\<rparr>)"
  by (simp add: write_page_def)

lemma update_back: "map_of es n = Some c \<Longrightarrow> map_of (AList.update n c (AList.update n c' es)) = map_of es"
  by (simp add: update_conv' fun_eq_iff)

text \<open>The state after the failed commit and the read that follows it.\<close>

lemma failed_commit_read:
  assumes "vfs_base A P W v" "vf_dirty v = []" "vf_root v = Some r" "n \<noteq> - 1" "length d1 = vf_page_size v" "d1 \<in> W"
    and "cached P (vf_cache v) r n = None"
    and "es1 = AList.update n (cid_from_data (oa_b3 A) d1) (pi_entries (vf_index v))"
    and "page_index_serialize es1 \<in> W" "page_index_serialize es1 \<noteq> d1"
    and "obj_lookup A (vf_store v) (cid_from_data (oa_b3 A) (page_index_serialize es1)) = None"
  obtains e v2 v3 where "commit A index_put_fails id (snd (write_page v n d1)) = (Inl e, v2)"
    "read_page A P no_faults v2 n = (Inr d1, v3)" "vfs_base A P W v3" "vf_dirty v3 = []" "vf_page_size v3 = vf_page_size v"
    "vf_root v3 = Some r" "pi_entries (vf_index v3) = es1" "cached P (vf_cache v3) r n = Some d1"
proof -
  let ?H = "cid_from_data (oa_b3 A)"
  have P: "page_lru_ok P" using assms(1) by (simp add: vfs_base_def)
  let ?v1 = "v\<lparr>vf_dirty := [(n, d1)]\<rparr>" and ?ix = "page_index_set n (?H d1) (vf_index v)"
  have ix: "pi_entries ?ix = es1" by (simp add: page_index_set_def assms(8))
  have v1: "write_page v n d1 = (Inr (), ?v1)" using write_one[OF assms(2)] assms(5) by simp
  have b1: "vfs_base A P W ?v1" using write_page_correct(1)[OF assms(1,4,6)] v1 by simp
  obtain e s2 where c2: "commit A index_put_fails id ?v1 = (Inl e, ?v1\<lparr>vf_dirty := [], vf_store := s2, vf_index := ?ix\<rparr>)"
    using commit_one_fails[OF b1, of n d1 ?ix] assms(9-11) ix by auto
  let ?v2 = "?v1\<lparr>vf_dirty := [], vf_store := s2, vf_index := ?ix\<rparr>"
  have b2: "vfs_base A P W ?v2" using commit_store[OF b1, of id index_put_fails] c2 assms(9) ix by simp
  have "page_index_get (vf_index ?v2) n = Some (?H d1)" by (simp add: page_index_get_def ix assms(8) update_conv')
  then obtain d where d: "page_data A ?v2 n = Some d" "?H d = ?H d1" "d \<in> W" by (rule page_data_hash[OF b2])
  have "d = d1" using inj_onD[of ?H W d d1] assms(1,6) d(2,3) by (simp add: vfs_base_def)
  then have p2: "page_data A ?v2 n = Some d1" using d(1) by simp
  have root2: "cache_root ?v2 = r" by (simp add: cache_root_def assms(3))
  obtain s3 pc where r3: "read_page A P no_faults ?v2 n = (Inr d1, ?v2\<lparr>vf_store := s3, vf_cache := page_cache_put P r n d1 pc\<rparr>)"
    using read_page_miss[OF b2 _ p2, of no_faults] assms(7) root2 by (auto simp: no_faults_def)
  have "vfs_base A P W (snd (read_page A P no_faults ?v2 n))" using read_page_store[OF b2, of no_faults n] by (simp add: no_faults_def)
  then show thesis using that[of e ?v2] c2 v1 r3 cached_put(1)[OF P] assms(3) ix by simp
qed

text \<open>Committing the old page again restores the old root, and the cache keeps what it holds for it.\<close>

lemma recommit_old_page:
  assumes "vfs_base A P W v" "vf_dirty v = []" "length d0 = vf_page_size v" "d0 \<in> W" "n \<noteq> - 1"
    and "entries_ok es" "map_of es n = Some (cid_from_data (oa_b3 A) d0)" "page_index_serialize es \<in> W"
    and "pi_entries (vf_index v) = AList.update n c' es" "r = cid_from_data (oa_b3 A) (page_index_serialize es)"
  obtains v5 where "commit A (\<lambda>_. no_faults) id (snd (write_page v n d0)) = (Inr r, v5)" "page_data A v5 n = Some d0"
    "vf_cache v5 = vf_cache v" "vf_root v5 = Some r"
proof -
  let ?H = "cid_from_data (oa_b3 A)"
  let ?v4 = "v\<lparr>vf_dirty := [(n, d0)]\<rparr>" and ?ix = "page_index_set n (?H d0) (vf_index v)"
  have v4: "write_page v n d0 = (Inr (), ?v4)" using write_one[OF assms(2)] assms(3) by simp
  have b4: "vfs_base A P W ?v4" using write_page_correct(1)[OF assms(1,5,4)] v4 by simp
  have "blake3_ok (oa_b3 A)" using store_inv_api(4)[OF store_cleanD(1)[of A "vf_store v"]] assms(1) by (simp add: vfs_base_def)
  then have "entries_ok (pi_entries ?ix)"
    using assms(1,5) entries_wf_update cid_from_data_wf by (simp add: vfs_base_def entries_ok_def page_index_set_def dom_update)
  then have ser: "page_index_serialize (pi_entries ?ix) = page_index_serialize es"
    using serialize_eq_iff[OF _ assms(6)] update_back[OF assms(7)] by (simp add: page_index_set_def assms(9))
  obtain s5 where c5: "commit A (\<lambda>_. no_faults) id ?v4 =
      (Inr r, ?v4\<lparr>vf_dirty := [], vf_store := s5, vf_index := page_index_set_root r ?ix, vf_root := Some r\<rparr>)"
    using commit_one_ok[of ?v4 n d0 "\<lambda>_. no_faults" ?ix A r] assms(10) ser by (auto simp: no_faults_def)
  let ?v5 = "?v4\<lparr>vf_dirty := [], vf_store := s5, vf_index := page_index_set_root r ?ix, vf_root := Some r\<rparr>"
  have "page_data A ?v5 = page_data A ?v4 ++ map_of (vf_dirty ?v4)"
    by (rule commit_base(2)[OF b4 _ c5]) (simp_all add: page_index_set_root_def ser assms(8))
  then show thesis using that[of ?v5] v4 c5 by simp
qed

section \<open>Properties\<close>

text \<open>
  C40. A failed commit leads to stale reads.  From a state whose page \<open>n\<close> holds \<open>d0\<close> under root \<open>r\<close>:
  write \<open>d1\<close>, commit with a failure while storing the index, read the page, write \<open>d0\<close> again and
  commit without failure.  The first commit reports an error, and yet the read returns \<open>d1\<close>; the
  second commit returns to root \<open>r\<close> and the page again holds \<open>d0\<close>, but reading it returns \<open>d1\<close>.
\<close>

theorem failed_commit_stale_read:
  assumes "vfs_inv A P W v" "vf_dirty v = []" "vf_root v = Some r" "page_data A v n = Some d0" "n \<noteq> - 1"
    and "length d0 = vf_page_size v" "length d1 = vf_page_size v" "d0 \<in> W" "d1 \<in> W" "cached P (vf_cache v) r n = None"
    and "es1 = AList.update n (cid_from_data (oa_b3 A) d1) (pi_entries (vf_index v))"
    and "page_index_serialize es1 \<in> W" "page_index_serialize es1 \<noteq> d1"
    and "obj_lookup A (vf_store v) (cid_from_data (oa_b3 A) (page_index_serialize es1)) = None"
  shows "let v1 = snd (write_page v n d1);
             (x2, v2) = commit A index_put_fails id v1;
             (x3, v3) = read_page A P no_faults v2 n;
             v4 = snd (write_page v3 n d0);
             (x5, v5) = commit A (\<lambda>_. no_faults) id v4
         in \<not> is_ok x2 \<and> x3 = Inr d1 \<and> x5 = Inr r \<and> page_data A v5 n = Some d0 \<and>
            fst (read_page A P no_faults v5 n) = Inr d1"
proof -
  let ?H = "cid_from_data (oa_b3 A)" and ?es = "pi_entries (vf_index v)"
  have b: "vfs_base A P W v" and syn: "vfs_synced A P W v" and P: "page_lru_ok P" using assms(1) by (simp_all add: vfs_inv_def vfs_base_def)
  have r: "r = ?H (page_index_serialize ?es)" "page_index_serialize ?es \<in> W" using syn assms(3) by (simp_all add: vfs_synced_def)
  have ok: "entries_ok ?es" using b by (simp add: vfs_base_def)
  obtain c where c: "page_index_get (vf_index v) n = Some c" using assms(4) by (auto simp: page_data_def split: option.splits)
  have "c = ?H d0" using page_data_hash[OF b c] assms(4) by (metis option.inject)
  then have c0: "map_of ?es n = Some (?H d0)" using c by (simp add: page_index_get_def)
  obtain e v2 v3 where v3: "commit A index_put_fails id (snd (write_page v n d1)) = (Inl e, v2)"
    "read_page A P no_faults v2 n = (Inr d1, v3)" "vfs_base A P W v3" "vf_dirty v3 = []" "vf_page_size v3 = vf_page_size v"
    "vf_root v3 = Some r" "pi_entries (vf_index v3) = es1" "cached P (vf_cache v3) r n = Some d1"
    by (rule failed_commit_read[OF b assms(2,3,5,7,9-14)])
  have len: "length d0 = vf_page_size v3" using v3(5) assms(6) by simp
  have es: "pi_entries (vf_index v3) = AList.update n (?H d1) ?es" using v3(7) assms(11) by simp
  obtain v5 where v5: "commit A (\<lambda>_. no_faults) id (snd (write_page v3 n d0)) = (Inr r, v5)" "page_data A v5 n = Some d0"
    "vf_cache v5 = vf_cache v3" "vf_root v5 = Some r"
    by (rule recommit_old_page[OF v3(3,4) len assms(8,5) ok c0 r(2) es r(1)])
  have "cached P (vf_cache v5) (cache_root v5) n = Some d1" using v3(8) v5(3,4) by (simp add: cache_root_def)
  then have "fst (read_page A P no_faults v5 n) = Inr d1" using read_page_hit[OF P, of v5 n d1 A no_faults] by auto
  then show ?thesis using v3(1,2) v5(1,2) by (simp add: Let_def)
qed

lemma demo_index_fresh:
  "obj_lookup demo_api (vf_store demo_vfs) (Cid (sum_hash (page_index_serialize (demo_index 10)))) = None"
proof -
  let ?v = "snd (write_page demo_vfs0 1 (demo_page 1))"
  let ?c = "Cid (sum_hash (page_index_serialize (demo_index 10)))"
  have f: "vf_dirty ?v = [(1, demo_page 1)]" "vf_index ?v = page_index_new" "vf_store ?v = store_new demo_api [] 4"
    by (simp_all add: write_page_def length_demo_page demo_vfs0_fields)
  have ix: "pi_entries (page_index_set 1 (Cid (sum_hash (demo_page 1))) page_index_new) = demo_index 1"
    by (simp add: page_index_set_def page_index_new_def demo_index_def)
  let ?s0 = "store_new demo_api [] 4"
  let ?s1 = "snd (put demo_api no_faults ?s0 (demo_page 1))"
  have st: "vf_store demo_vfs = snd (put demo_api no_faults ?s1 (page_index_serialize (demo_index 1)))"
    using commit_one_eq[OF f(1), of "\<lambda>_. no_faults", OF _ refl refl, of demo_api]
    by (simp add: demo_vfs_def f(2,3) ix no_faults_def)
  have c0: "store_clean demo_api ?s0" by (rule demo_new_clean)
  have c1: "store_clean demo_api ?s1" by (rule put_clean(1)[OF c0])
  have "?c \<noteq> cid_from_data (oa_b3 demo_api) (page_index_serialize (demo_index 1))" "?c \<noteq> cid_from_data (oa_b3 demo_api) (demo_page 1)"
    by (simp_all add: sum_hash_def sum_list_demo_page sum_list_demo_index)
  then have "obj_lookup demo_api (vf_store demo_vfs) ?c = obj_lookup demo_api ?s0 ?c"
    unfolding st using put_clean(3)[OF c1] put_clean(3)[OF c0] by simp
  then show ?thesis by (simp add: obj_lookup_def store_new_def fs_lookup_def)
qed

theorem failed_commit_stale_read_witness:
  "vfs_inv demo_api demo_lru demo_world demo_vfs \<and>
   (let v1 = snd (write_page demo_vfs 1 (demo_page 10));
        (x2, v2) = commit demo_api index_put_fails id v1;
        (x3, v3) = read_page demo_api demo_lru no_faults v2 1;
        v4 = snd (write_page v3 1 (demo_page 1));
        (x5, v5) = commit demo_api (\<lambda>_. no_faults) id v4
    in \<not> is_ok x2 \<and> x3 = Inr (demo_page 10) \<and> x5 = Inr (Cid (sum_hash (page_index_serialize (demo_index 1)))) \<and>
       page_data demo_api v5 1 = Some (demo_page 1) \<and> fst (read_page demo_api demo_lru no_faults v5 1) = Inr (demo_page 10))"
proof -
  note d = demo_vfs_state
  have u: "AList.update 1 (cid_from_data (oa_b3 demo_api) (demo_page 10)) (pi_entries (vf_index demo_vfs)) = demo_index 10"
    by (simp add: d(5) demo_index_def)
  have ne: "page_index_serialize (demo_index 10) \<noteq> demo_page 10"
    using sum_list_demo_index[of 10] sum_list_demo_page[of 10] by auto
  have fresh: "obj_lookup demo_api (vf_store demo_vfs) (cid_from_data (oa_b3 demo_api) (page_index_serialize (demo_index 10))) = None"
    using demo_index_fresh by simp
  have "cached demo_lru (vf_cache demo_vfs) (Cid (sum_hash (page_index_serialize (demo_index 1)))) 1 = None"
    by (simp only: d(7) cached_new[OF demo_lru_ok])
  from failed_commit_stale_read[OF d(1,3,4,2) _ _ _ _ _ this u[symmetric] _ ne fresh] d(1)
  show ?thesis by (simp add: length_demo_page d(6) demo_world_def)
qed

end
