(* ===== verification/Crypto.thy ===== *)
theory Crypto
  imports Types
begin

text \<open>
  Hashing helpers and the Merkle root (craftec-crypto/src/hash.rs) and the persistent key store
  (craftec-crypto/src/sign.rs).  The root binds a leaf list among the lists of its length: two
  lists with the same root are equal or exhibit two different inputs of the hash with one output.
  It does not bind the length, because an odd layer repeats its last node.
\<close>

section \<open>Hashing\<close>

definition hash_bytes :: "blake3 \<Rightarrow> bytes \<Rightarrow> bytes" where
  "hash_bytes B d = b3_hash B d"

definition hash_page :: "blake3 \<Rightarrow> bytes \<Rightarrow> cid" where
  "hash_page B page = cid_from_data B page"

definition verify_cid :: "blake3 \<Rightarrow> bytes \<Rightarrow> cid \<Rightarrow> bool" where
  "verify_cid B d expected = cid_verify B expected d"

section \<open>Merkle root\<close>

fun merkle_layer :: "blake3 \<Rightarrow> bytes list \<Rightarrow> bytes list" where
  "merkle_layer B [] = []"
| "merkle_layer B [x] = [b3_hash B (x @ x)]"
| "merkle_layer B (x # y # zs) = b3_hash B (x @ y) # merkle_layer B zs"

lemma length_merkle_layer [simp]: "length (merkle_layer B xs) = (length xs + 1) div 2"
  by (induction B xs rule: merkle_layer.induct) simp_all

function merkle_loop :: "blake3 \<Rightarrow> bytes list \<Rightarrow> bytes list" where
  "merkle_loop B current = (if length current > 1 then merkle_loop B (merkle_layer B current) else current)"
  by pat_completeness auto

termination
  by (relation "measure (\<lambda>(B, current). length current)") auto

declare merkle_loop.simps [simp del]

definition merkle_root :: "blake3 \<Rightarrow> bytes list \<Rightarrow> bytes" where
  "merkle_root B leaves = (if leaves = [] then replicate 32 0 else hd (merkle_loop B leaves))"

text \<open>The 64-byte blocks hashed while computing a layer, and while computing the root.\<close>

fun layer_inputs :: "bytes list \<Rightarrow> bytes list" where
  "layer_inputs [] = []"
| "layer_inputs [x] = [x @ x]"
| "layer_inputs (x # y # zs) = (x @ y) # layer_inputs zs"

function node_inputs :: "blake3 \<Rightarrow> bytes list \<Rightarrow> bytes list" where
  "node_inputs B current = (if length current > 1 then layer_inputs current @ node_inputs B (merkle_layer B current) else [])"
  by pat_completeness auto

termination
  by (relation "measure (\<lambda>(B, current). length current)") auto

declare node_inputs.simps [simp del]

definition hash_collision :: "blake3 \<Rightarrow> bytes list \<Rightarrow> bytes list \<Rightarrow> bool" where
  "hash_collision B xs ys \<longleftrightarrow> (\<exists>x \<in> set xs. \<exists>y \<in> set ys. x \<noteq> y \<and> b3_hash B x = b3_hash B y)"

lemma hash_collision_append:
  "hash_collision B xs ys \<or> hash_collision B xs' ys' \<Longrightarrow> hash_collision B (xs @ xs') (ys @ ys')"
  by (auto simp: hash_collision_def)

lemma merkle_layer_binding:
  assumes "merkle_layer B xs = merkle_layer B ys" "length xs = length ys" "\<forall>x \<in> set xs \<union> set ys. length x = 32"
  shows "xs = ys \<or> hash_collision B (layer_inputs xs) (layer_inputs ys)"
  using assms
proof (induction B xs arbitrary: ys rule: merkle_layer.induct)
  case (1 B)
  then show ?case by simp
next
  case (2 B x)
  then obtain y where "ys = [y]" by (cases ys) auto
  with 2 show ?case by (auto simp: hash_collision_def)
next
  case (3 B x y zs)
  then obtain x' y' zs' where ys: "ys = x' # y' # zs'" by (cases ys; cases "tl ys") auto
  with 3 have h: "b3_hash B (x @ y) = b3_hash B (x' @ y')" and l: "length x = length x'" by auto
  have "zs = zs' \<or> hash_collision B (layer_inputs zs) (layer_inputs zs')" using 3 ys by simp
  with h l show ?case unfolding ys by (cases "x @ y = x' @ y'") (auto simp: hash_collision_def)
qed

lemma merkle_layer_width: "blake3_ok B \<Longrightarrow> y \<in> set (merkle_layer B xs) \<Longrightarrow> length y = 32"
  by (induction B xs rule: merkle_layer.induct) (auto simp: blake3_ok_def)

lemma merkle_loop_binding:
  assumes "blake3_ok B" "merkle_loop B xs = merkle_loop B ys" "length xs = length ys" "\<forall>x \<in> set xs \<union> set ys. length x = 32"
  shows "xs = ys \<or> hash_collision B (node_inputs B xs) (node_inputs B ys)"
  using assms
proof (induction B xs arbitrary: ys rule: merkle_loop.induct)
  case (1 B xs)
  show ?case
  proof (cases "length xs > 1")
    case True
    let ?xs = "merkle_layer B xs" and ?ys = "merkle_layer B ys"
    have eqs: "node_inputs B xs = layer_inputs xs @ node_inputs B ?xs" "node_inputs B ys = layer_inputs ys @ node_inputs B ?ys"
      using True 1(4) by (simp_all add: node_inputs.simps[of B xs] node_inputs.simps[of B ys])
    have "merkle_loop B ?xs = merkle_loop B ?ys"
      using 1(3,4) True by (simp add: merkle_loop.simps[of B xs] merkle_loop.simps[of B ys])
    then have "?xs = ?ys \<or> hash_collision B (node_inputs B ?xs) (node_inputs B ?ys)"
      using 1(1)[OF True 1(2), of ?ys] 1(4) merkle_layer_width[OF 1(2)] by auto
    then show ?thesis
      using merkle_layer_binding[OF _ 1(4,5), of B] hash_collision_append unfolding eqs by blast
  next
    case False
    then show ?thesis using 1(3,4) by (simp add: merkle_loop.simps[of B xs] merkle_loop.simps[of B ys])
  qed
qed

lemma length_merkle_loop: "xs \<noteq> [] \<Longrightarrow> length (merkle_loop B xs) = 1"
proof (induction B xs rule: merkle_loop.induct)
  case (1 B xs)
  have "length (merkle_layer B xs) > 0" using 1(2) by (cases xs) simp_all
  then have "merkle_layer B xs \<noteq> []" by (metis length_greater_0_conv)
  moreover have "length xs = 1" if "\<not> length xs > 1" using 1(2) that by (cases xs) auto
  ultimately show ?case using 1 by (cases "length xs > 1") (auto simp: merkle_loop.simps[of B xs])
qed

lemma merkle_layer_dup: "odd (length xs) \<Longrightarrow> merkle_layer B (xs @ [last xs]) = merkle_layer B xs"
  by (induction B xs rule: merkle_layer.induct) auto

section \<open>Key store\<close>

text \<open>
  The key file is \<open>None\<close> when it does not exist.  The faults are a failed read, a failed creation of
  the directory, and a write that stops after some bytes; \<open>entropy\<close> is the secret the operating
  system's generator would give.
\<close>

record key_faults =
  kf_read :: bool
  kf_mkdir :: bool
  kf_write :: "nat option"

record key_store =
  ks_keypair :: node_keypair

definition key_store_new :: "key_faults \<Rightarrow> bytes \<Rightarrow> bytes option \<Rightarrow> (key_store, craftec_error) result \<times> bytes option" where
  "key_store_new flt entropy file =
     (case file of
        Some bs \<Rightarrow>
          (if kf_read flt then (Inl (IoError ''read''), file)
           else if length bs \<noteq> 32 then (Inl (IdentityError ''node.key must be 32 bytes''), file)
           else (Inr \<lparr>ks_keypair = NodeKeypair bs\<rparr>, file))
      | None \<Rightarrow>
          (if kf_mkdir flt then (Inl (IoError ''create_dir_all''), file)
           else case kf_write flt of
                  Some n \<Rightarrow> (Inl (IoError ''write''), Some (take n entropy))
                | None \<Rightarrow> (Inr \<lparr>ks_keypair = NodeKeypair entropy\<rparr>, Some entropy)))"

definition key_store_sign :: "ed25519 \<Rightarrow> key_store \<Rightarrow> bytes \<Rightarrow> signature" where
  "key_store_sign E ks msg = keypair_sign E (ks_keypair ks) msg"

definition key_store_verify :: "ed25519 \<Rightarrow> key_store \<Rightarrow> bytes \<Rightarrow> signature \<Rightarrow> node_id \<Rightarrow> bool" where
  "key_store_verify E ks msg sig pubkey = identity_verify E msg sig pubkey"

definition key_store_node_id :: "ed25519 \<Rightarrow> key_store \<Rightarrow> node_id" where
  "key_store_node_id E ks = keypair_node_id E (ks_keypair ks)"

section \<open>Properties\<close>

text \<open>
  The Merkle root.  It is computed for every leaf list.  Two lists of 32-byte leaves of the same
  length and with the same root are equal, or two different blocks among those hashed for the two
  roots have the same digest.  The length is not bound: repeating the last leaf of a list of odd
  length greater than one does not change the root, and a single leaf is its own root.
\<close>

theorem merkle_root_binding:
  assumes "blake3_ok B" "\<forall>x \<in> set xs \<union> set ys. length x = 32"
  shows "(length xs = length ys \<and> merkle_root B xs = merkle_root B ys \<longrightarrow>
      xs = ys \<or> hash_collision B (node_inputs B xs) (node_inputs B ys)) \<and>
    (odd (length xs) \<and> length xs > 1 \<longrightarrow> merkle_root B (xs @ [last xs]) = merkle_root B xs) \<and>
    merkle_root B [x] = x \<and> merkle_root B [] = replicate 32 0"
proof (intro conjI impI)
  assume a: "length xs = length ys \<and> merkle_root B xs = merkle_root B ys"
  show "xs = ys \<or> hash_collision B (node_inputs B xs) (node_inputs B ys)"
  proof (cases "xs = []")
    case True
    then show ?thesis using a by simp
  next
    case False
    then have ne: "ys \<noteq> []" using a by auto
    then have "hd (merkle_loop B xs) = hd (merkle_loop B ys)" using a False by (simp add: merkle_root_def)
    then have "merkle_loop B xs = merkle_loop B ys"
      using length_merkle_loop[OF False, of B] length_merkle_loop[OF ne, of B]
      by (cases "merkle_loop B xs"; cases "merkle_loop B ys") simp_all
    then show ?thesis using merkle_loop_binding assms a by blast
  qed
next
  assume "odd (length xs) \<and> length xs > 1"
  then show "merkle_root B (xs @ [last xs]) = merkle_root B xs"
    using merkle_layer_dup[of xs B] by (auto simp: merkle_root_def merkle_loop.simps[of B xs] merkle_loop.simps[of B "xs @ [last xs]"])
qed (simp_all add: merkle_root_def merkle_loop.simps)

definition demo_blake3 :: blake3 where
  "demo_blake3 = \<lparr>b3_hash = \<lambda>d. sum_list d # replicate 31 0, b3_xof = \<lambda>x i. 0\<rparr>"

theorem merkle_root_binding_witness:
  "blake3_ok demo_blake3 \<and>
   merkle_root demo_blake3 [replicate 32 1, replicate 32 2, replicate 32 3] =
   merkle_root demo_blake3 [replicate 32 1, replicate 32 2, replicate 32 3, replicate 32 3]"
proof -
  have b: "blake3_ok demo_blake3" by (simp add: blake3_ok_def demo_blake3_def)
  then show ?thesis
    using merkle_root_binding[OF b, of "[replicate 32 1, replicate 32 2, replicate 32 3]" "[]"] by simp
qed

text \<open>
  The node identity is persistent.  Once a key store has been opened, the key file holds its
  secret, every later opening that can read the file yields the same store and leaves the file
  alone, whatever entropy the system offers, and what the store signs is accepted under its
  identifier.  A first start whose write stops early leaves a file that every later start rejects.
\<close>

theorem key_store_persistent:
  assumes "ed25519_ok E" "length entropy = 32"
  shows "(\<forall>ks file'. key_store_new flt entropy file = (Inr ks, file') \<longrightarrow>
      file' = Some (secret_bytes (ks_keypair ks)) \<and>
      (\<forall>flt' entropy'. \<not> kf_read flt' \<longrightarrow> key_store_new flt' entropy' file' = (Inr ks, file')) \<and>
      (\<forall>msg ks'. key_store_verify E ks' msg (key_store_sign E ks msg) (key_store_node_id E ks))) \<and>
    (\<forall>n < 32. \<forall>flt' entropy'. file = None \<and> \<not> kf_mkdir flt \<and> kf_write flt = Some n \<longrightarrow>
      \<not> is_ok (fst (key_store_new flt' entropy' (snd (key_store_new flt entropy file)))))"
  using assms
  by (auto simp: key_store_new_def key_store_verify_def key_store_sign_def key_store_node_id_def identity_verify_def
      keypair_sign_def keypair_node_id_def ed25519_ok_def is_ok_def split: option.splits if_splits)

theorem key_store_persistent_witness:
  "\<exists>E. ed25519_ok E \<and>
   (let none = \<lparr>kf_read = False, kf_mkdir = False, kf_write = None\<rparr>;
        r = key_store_new none (replicate 32 5) None
    in is_ok (fst r) \<and> key_store_new none (replicate 32 6) (snd r) = r)"
proof -
  define E where "E = \<lparr>ed_public = \<lambda>sk. take 32 (sk @ replicate 32 0), ed_sign = \<lambda>sk m. m, ed_key_ok = \<lambda>_. True, ed_verify = \<lambda>_ m s. m = s\<rparr>"
  have E: "ed25519_ok E" by (auto simp: ed25519_ok_def E_def min_def)
  let ?none = "\<lparr>kf_read = False, kf_mkdir = False, kf_write = None\<rparr>"
  have r: "key_store_new ?none (replicate 32 5) None = (Inr \<lparr>ks_keypair = NodeKeypair (replicate 32 5)\<rparr>, Some (replicate 32 5))"
    by (simp add: key_store_new_def)
  show ?thesis
    using E key_store_persistent[OF E, of "replicate 32 5" ?none None] r by (auto simp: Let_def is_ok_def)
qed

end
