(* ===== verification/Sql.thy ===== *)
theory Sql
  imports Vfs
begin

text \<open>
  CraftSQL (craftec-sql/src): the database over the CID-VFS (database.rs), the checks of the commit
  pipeline (commit.rs), signed writes from other nodes (rpc_write.rs) and migrations (schema.rs).
  The libsql engine is a parameter that maps a statement and the database file to a result and the
  new file.  A Rust string is the list of its UTF-8 bytes, as characters.
\<close>

section \<open>Values and errors\<close>

text \<open>\<open>i64\<close> and \<open>f64\<close> values are carried as their 64 bits.\<close>

datatype column_value = CvNull | CvInteger u64 | CvReal u64 | CvText string | CvBlob bytes

datatype libsql_value = LvNull | LvInteger u64 | LvReal u64 | LvText string | LvBlob bytes

fun libsql_value_to_column :: "libsql_value \<Rightarrow> column_value" where
  "libsql_value_to_column LvNull = CvNull"
| "libsql_value_to_column (LvInteger n) = CvInteger n"
| "libsql_value_to_column (LvReal r) = CvReal r"
| "libsql_value_to_column (LvText s) = CvText s"
| "libsql_value_to_column (LvBlob b) = CvBlob b"

datatype sql_error =
    UnauthorizedWriter node_id node_id
  | InvalidSignature node_id
  | CasConflict cid cid
  | VfsFailure vfs_error
  | SqlSyntaxError
  | MigrationFailed
  | NotInitialised
  | AlreadyExists string
  | SerializationError string
  | LibsqlError
  | SqlIo

definition str_bytes :: "string \<Rightarrow> bytes" where
  "str_bytes s = map of_char s"

record sql_engine =
  eng_execute :: "string \<Rightarrow> bytes \<Rightarrow> bool \<times> bytes"
  eng_query :: "string \<Rightarrow> bytes \<Rightarrow> libsql_value list list option \<times> bytes"

text \<open>The outcomes of the input and output of one operation.\<close>

record sql_io =
  si_open_ok :: bool
  si_read_ok :: bool
  si_puts :: "nat \<Rightarrow> io_faults"
  si_order :: "(u32 \<times> bytes) list \<Rightarrow> (u32 \<times> bytes) list"

section \<open>Checks of the commit pipeline\<close>

record commit_context =
  cc_writer :: node_id
  cc_sql :: string
  cc_expected_root :: "cid option"

definition check_cas :: "commit_context \<Rightarrow> cid option \<Rightarrow> (unit, sql_error) result" where
  "check_cas ctx current =
     (case (cc_expected_root ctx, current) of
        (Some e, Some c) \<Rightarrow> if e \<noteq> c then Inl (CasConflict e c) else Inr ()
      | _ \<Rightarrow> Inr ())"

definition check_ownership :: "commit_context \<Rightarrow> node_id \<Rightarrow> (unit, sql_error) result" where
  "check_ownership ctx owner = (if cc_writer ctx \<noteq> owner then Inl (UnauthorizedWriter (cc_writer ctx) owner) else Inr ())"

section \<open>The database\<close>

record ('b, 'c, 'p) database =
  db_id :: cid
  db_owner :: node_id
  db_vfs :: "('b, 'c, 'p) vfs"
  db_root_cid :: cid
  db_file :: bytes
  db_events :: "event list option"

definition page_of_chunk :: "nat \<Rightarrow> bytes \<Rightarrow> bytes" where
  "page_of_chunk page_size chunk = chunk @ drop (length chunk) (replicate page_size 0)"

fun write_chunks :: "nat \<Rightarrow> nat \<Rightarrow> bytes list \<Rightarrow> ('b, 'c, 'p) vfs \<Rightarrow> (unit, vfs_error) result \<times> ('b, 'c, 'p) vfs" where
  "write_chunks page_size i [] v = (Inr (), v)"
| "write_chunks page_size i (ch # chs) v =
     (case write_page v (of_nat i) (page_of_chunk page_size ch) of
        (Inl e, v') \<Rightarrow> (Inl e, v')
      | (Inr _, v') \<Rightarrow> write_chunks page_size (i + 1) chs v')"

definition sync_pages_to_vfs ::
  "('b, 'c) obj_api \<Rightarrow> sql_io \<Rightarrow> bytes \<Rightarrow> ('b, 'c, 'p) vfs \<Rightarrow> (cid, sql_error) result \<times> ('b, 'c, 'p) vfs" where
  "sync_pages_to_vfs A io file v =
     (if \<not> si_read_ok io then (Inl SqlIo, v)
      else case write_chunks (vf_page_size v) 0 (chunks (vf_page_size v) file) v of
             (Inl e, v') \<Rightarrow> (Inl (VfsFailure e), v')
           | (Inr _, v') \<Rightarrow>
               (case commit A (si_puts io) (si_order io) v' of
                  (Inl e, v'') \<Rightarrow> (Inl (VfsFailure e), v'')
                | (Inr root, v'') \<Rightarrow> (Inr root, v'')))"

text \<open>The statements that \<open>create\<close> runs, each stopping at the first error.\<close>

fun run_queries :: "sql_engine \<Rightarrow> string list \<Rightarrow> bytes \<Rightarrow> bool \<times> bytes" where
  "run_queries E [] file = (True, file)"
| "run_queries E (q # qs) file =
     (case eng_query E q file of (None, file') \<Rightarrow> (False, file') | (Some _, file') \<Rightarrow> run_queries E qs file')"

fun run_statements :: "sql_engine \<Rightarrow> string list \<Rightarrow> bytes \<Rightarrow> bool \<times> bytes" where
  "run_statements E [] file = (True, file)"
| "run_statements E (q # qs) file =
     (case eng_execute E q file of (False, file') \<Rightarrow> (False, file') | (True, file') \<Rightarrow> run_statements E qs file')"

definition database_create ::
  "sql_engine \<Rightarrow> ('b, 'c) obj_api \<Rightarrow> sql_io \<Rightarrow> node_id \<Rightarrow> bytes \<Rightarrow> ('b, 'c, 'p) vfs \<Rightarrow>
     (('b, 'c, 'p) database, sql_error) result \<times> bytes \<times> ('b, 'c, 'p) vfs" where
  "database_create E A io owner file v =
     (if \<not> si_open_ok io then (Inl SqlIo, file, v)
      else case run_queries E [''PRAGMA page_size = 16384'', ''PRAGMA journal_mode = DELETE'', ''PRAGMA busy_timeout = 5000''] file of
        (False, f1) \<Rightarrow> (Inl LibsqlError, f1, v)
      | (True, f1) \<Rightarrow>
          (case run_statements E [''CREATE TABLE IF NOT EXISTS _craftec_meta (key TEXT PRIMARY KEY, value TEXT)'',
                                  ''INSERT OR REPLACE INTO _craftec_meta VALUES ('' @ [CHR 0x27] @ ''version'' @ [CHR 0x27] @ '', '' @ [CHR 0x27] @ ''1'' @ [CHR 0x27] @ '')''] f1 of
             (False, f2) \<Rightarrow> (Inl LibsqlError, f2, v)
           | (True, f2) \<Rightarrow>
               (case run_queries E [''PRAGMA busy_timeout = 5000''] f2 of
                  (False, f3) \<Rightarrow> (Inl LibsqlError, f3, v)
                | (True, f3) \<Rightarrow>
                    (case sync_pages_to_vfs A io f3 v of
                       (Inl e, v') \<Rightarrow> (Inl e, f3, v')
                     | (Inr root, v') \<Rightarrow>
                         (Inr \<lparr>db_id = cid_from_data (oa_b3 A) (node_id_bytes owner), db_owner = owner, db_vfs = v',
                               db_root_cid = root, db_file = f3, db_events = None\<rparr>, f3, v')))))"

definition database_execute ::
  "sql_engine \<Rightarrow> ('b, 'c) obj_api \<Rightarrow> sql_io \<Rightarrow> string \<Rightarrow> node_id \<Rightarrow> ('b, 'c, 'p) database \<Rightarrow>
     (unit, sql_error) result \<times> ('b, 'c, 'p) database" where
  "database_execute E A io sql writer db =
     (case check_ownership \<lparr>cc_writer = writer, cc_sql = sql, cc_expected_root = None\<rparr> (db_owner db) of
        Inl e \<Rightarrow> (Inl e, db)
      | Inr _ \<Rightarrow>
          (case eng_execute E sql (db_file db) of
             (False, file) \<Rightarrow> (Inl SqlSyntaxError, db\<lparr>db_file := file\<rparr>)
           | (True, file) \<Rightarrow>
               (case sync_pages_to_vfs A io file (db_vfs db) of
                  (Inl e, v) \<Rightarrow> (Inl e, db\<lparr>db_file := file, db_vfs := v\<rparr>)
                | (Inr root, v) \<Rightarrow>
                    (Inr (), db\<lparr>db_file := file, db_vfs := v, db_root_cid := root,
                       db_events := map_option (\<lambda>es. es @ [PageCommitted (db_id db) 0 root]) (db_events db)\<rparr>))))"

definition database_query ::
  "sql_engine \<Rightarrow> string \<Rightarrow> ('b, 'c, 'p) database \<Rightarrow> (column_value list list, sql_error) result \<times> ('b, 'c, 'p) database" where
  "database_query E sql db =
     (case vfs_snapshot (db_vfs db) of
        Inl e \<Rightarrow> (Inl (VfsFailure e), db)
      | Inr _ \<Rightarrow>
          (case eng_query E sql (db_file db) of
             (None, file) \<Rightarrow> (Inl SqlSyntaxError, db\<lparr>db_file := file\<rparr>)
           | (Some rows, file) \<Rightarrow> (Inr (map (map libsql_value_to_column) rows), db\<lparr>db_file := file\<rparr>)))"

definition database_set_event_sender :: "('b, 'c, 'p) database \<Rightarrow> ('b, 'c, 'p) database" where
  "database_set_event_sender db = db\<lparr>db_events := Some []\<rparr>"

section \<open>Signed writes\<close>

record signed_write =
  sw_writer :: node_id
  sw_sql :: string
  sw_expected_root :: "cid option"
  sw_signature :: signature

definition build_signed_payload :: "node_id \<Rightarrow> string \<Rightarrow> cid option \<Rightarrow> bytes" where
  "build_signed_payload writer sql root =
     to_le_bytes32 (of_nat (length (node_id_bytes writer))) @ node_id_bytes writer @
     to_le_bytes32 (of_nat (length (str_bytes sql))) @ str_bytes sql @
     (case root of None \<Rightarrow> [0] | Some c \<Rightarrow> 1 # cid_bytes c)"

definition verify_signature :: "ed25519 \<Rightarrow> signed_write \<Rightarrow> (unit, sql_error) result" where
  "verify_signature ed msg =
     (if \<not> identity_verify ed (build_signed_payload (sw_writer msg) (sw_sql msg) (sw_expected_root msg)) (sw_signature msg) (sw_writer msg)
      then Inl (InvalidSignature (sw_writer msg)) else Inr ())"

text \<open>
  The handler has two parts with an interruption between them: the checks, and the execution under
  the lock of the write connection.
\<close>

definition signed_write_check :: "ed25519 \<Rightarrow> signed_write \<Rightarrow> ('b, 'c, 'p) database \<Rightarrow> (unit, sql_error) result" where
  "signed_write_check ed msg db =
     (case verify_signature ed msg of
        Inl e \<Rightarrow> Inl e
      | Inr _ \<Rightarrow>
          let ctx = \<lparr>cc_writer = sw_writer msg, cc_sql = sw_sql msg, cc_expected_root = sw_expected_root msg\<rparr>
          in case check_ownership ctx (db_owner db) of
               Inl e \<Rightarrow> Inl e
             | Inr _ \<Rightarrow> check_cas ctx (Some (db_root_cid db)))"

definition signed_write_execute ::
  "sql_engine \<Rightarrow> ('b, 'c) obj_api \<Rightarrow> sql_io \<Rightarrow> signed_write \<Rightarrow> ('b, 'c, 'p) database \<Rightarrow> (cid, sql_error) result \<times> ('b, 'c, 'p) database" where
  "signed_write_execute E A io msg db =
     (case database_execute E A io (sw_sql msg) (sw_writer msg) db of
        (Inl e, db') \<Rightarrow> (Inl e, db')
      | (Inr _, db') \<Rightarrow> (Inr (db_root_cid db'), db'))"

definition handle_signed_write ::
  "ed25519 \<Rightarrow> sql_engine \<Rightarrow> ('b, 'c) obj_api \<Rightarrow> sql_io \<Rightarrow> signed_write \<Rightarrow> ('b, 'c, 'p) database \<Rightarrow>
     (cid, sql_error) result \<times> ('b, 'c, 'p) database" where
  "handle_signed_write ed E A io msg db =
     (case signed_write_check ed msg db of
        Inl e \<Rightarrow> (Inl e, db)
      | Inr _ \<Rightarrow> signed_write_execute E A io msg db)"

section \<open>Migrations\<close>

text \<open>
  \<open>trim().is_empty()\<close>: the text consists of Unicode white space, read from its UTF-8 bytes.
\<close>

definition three_byte_space :: "nat \<Rightarrow> nat \<Rightarrow> nat \<Rightarrow> bool" where
  "three_byte_space a b c \<longleftrightarrow>
     (a, b, c) \<in> {(0xE1, 0x9A, 0x80), (0xE2, 0x80, 0xA8), (0xE2, 0x80, 0xA9), (0xE2, 0x80, 0xAF), (0xE2, 0x81, 0x9F), (0xE3, 0x80, 0x80)} \<or>
     a = 0xE2 \<and> b = 0x80 \<and> 0x80 \<le> c \<and> c \<le> 0x8A"

fun is_blank :: "nat list \<Rightarrow> bool" where
  "is_blank [] = True"
| "is_blank (a # as) =
     (if a \<in> {9, 10, 11, 12, 13, 32} then is_blank as
      else case as of [] \<Rightarrow> False
           | b # bs \<Rightarrow>
               if a = 0xC2 \<and> b \<in> {0x85, 0xA0} then is_blank bs
               else case bs of [] \<Rightarrow> False | c # cs \<Rightarrow> if three_byte_space a b c then is_blank cs else False)"

definition validate_migration_sql :: "string \<Rightarrow> (unit, sql_error) result" where
  "validate_migration_sql sql = (if is_blank (map of_char sql) then Inl MigrationFailed else Inr ())"

definition migrate ::
  "sql_engine \<Rightarrow> ('b, 'c) obj_api \<Rightarrow> sql_io \<Rightarrow> ('b, 'c, 'p) database \<Rightarrow> node_id \<Rightarrow> string \<Rightarrow> (unit, sql_error) result \<times> ('b, 'c, 'p) database" where
  "migrate E A io db owner sql =
     (case validate_migration_sql sql of
        Inl e \<Rightarrow> (Inl e, db)
      | Inr _ \<Rightarrow>
          (case database_execute E A io sql owner db of
             (Inl e, db') \<Rightarrow> (Inl (case e of UnauthorizedWriter _ _ \<Rightarrow> e | _ \<Rightarrow> MigrationFailed), db')
           | (Inr u, db') \<Rightarrow> (Inr u, db')))"

section \<open>The page image of the database file\<close>

definition page_image :: "nat \<Rightarrow> bytes \<Rightarrow> nat \<Rightarrow> bytes" where
  "page_image ps file i = page_of_chunk ps (take ps (drop (i * ps) file))"

definition page_total :: "nat \<Rightarrow> bytes \<Rightarrow> nat" where
  "page_total ps file = length (chunks ps file)"

lemma chunks_nth: "i < length (chunks n xs) \<Longrightarrow> chunks n xs ! i = take n (drop (i * n) xs)"
proof (induction n xs arbitrary: i rule: chunks.induct)
  case (1 n xs)
  show ?case
  proof (cases "n = 0 \<or> xs = []")
    case False
    then have c: "chunks n xs = take n xs # chunks n (drop n xs)" by (simp add: chunks.simps[of n xs])
    then show ?thesis using 1 False by (cases i) (auto simp: add.commute)
  qed (use 1 in \<open>auto simp: chunks.simps[of n xs]\<close>)
qed

lemma chunks_nonempty: "ch \<in> set (chunks n xs) \<Longrightarrow> ch \<noteq> [] \<and> length ch \<le> n"
proof (induction n xs rule: chunks.induct)
  case (1 n xs)
  then show ?case by (auto simp: chunks.simps[of n xs] split: if_splits)
qed

lemma length_page_of_chunk: "length ch \<le> n \<Longrightarrow> length (page_of_chunk n ch) = n"
  by (simp add: page_of_chunk_def)

lemma unat_page_number: "i < 2 ^ 32 - 1 \<Longrightarrow> unat (of_nat i :: u32) = i \<and> (of_nat i :: u32) \<noteq> - 1"
proof -
  assume i: "i < 2 ^ 32 - 1"
  then have u: "unat (of_nat i :: u32) = i" by (simp add: unat_of_nat)
  have "unat (- 1 :: u32) = 2 ^ 32 - 1" by (simp add: unsigned_minus_1_eq_mask mask_eq_exp_minus_1)
  with u i have "(of_nat i :: u32) \<noteq> - 1" by (metis less_irrefl)
  with u show ?thesis by simp
qed

lemma write_chunks_ok:
  assumes "vfs_inv A P W v" "i + length chs \<le> 2 ^ 32 - 1"
    and "\<forall>ch \<in> set chs. length ch \<le> vf_page_size v \<and> page_of_chunk (vf_page_size v) ch \<in> W"
  shows "\<exists>v'. write_chunks (vf_page_size v) i chs v = (Inr (), v') \<and> vfs_inv A P W v' \<and> page_data A v' = page_data A v \<and>
    map_of (vf_dirty v') = (\<lambda>n. if i \<le> unat n \<and> unat n < i + length chs
      then Some (page_of_chunk (vf_page_size v) (chs ! (unat n - i))) else map_of (vf_dirty v) n)"
  using assms
proof (induction chs arbitrary: i v)
  case Nil
  have "(\<lambda>n. if i \<le> unat n \<and> unat n < i + length [] then Some (page_of_chunk (vf_page_size v) ([] ! (unat n - i))) else map_of (vf_dirty v) n) =
      map_of (vf_dirty v)" by (rule ext) auto
  then show ?case using Nil by simp
next
  case (Cons ch chs)
  let ?ps = "vf_page_size v"
  have ch: "length ch \<le> ?ps" "page_of_chunk ?ps ch \<in> W" using Cons.prems(3) by simp_all
  have i: "unat (of_nat i :: u32) = i" "(of_nat i :: u32) \<noteq> - 1" using unat_page_number[of i] Cons.prems(2) by auto
  have b: "vfs_base A P W v" "vfs_synced A P W v" using Cons.prems(1) by (simp_all add: vfs_inv_def)
  obtain v1 where w0: "write_page v (of_nat i) (page_of_chunk ?ps ch) = (Inr (), v1)" "vf_page_size v1 = ?ps"
    using length_page_of_chunk[OF ch(1)] by (simp add: write_page_def)
  note w = write_page_correct[OF b(1) i(2) ch(2), unfolded w0(1) snd_conv fst_conv]
  have "vfs_inv A P W v1" using w(1,2) b(2) by (simp add: vfs_inv_def)
  from Cons.IH[OF this, of "i + 1"] Cons.prems(2,3) obtain v' where v':
    "write_chunks ?ps (i + 1) chs v1 = (Inr (), v')" "vfs_inv A P W v'" "page_data A v' = page_data A v1"
    "map_of (vf_dirty v') = (\<lambda>n. if i + 1 \<le> unat n \<and> unat n < i + 1 + length chs
      then Some (page_of_chunk ?ps (chs ! (unat n - (i + 1)))) else map_of (vf_dirty v1) n)"
    unfolding w0(2) by auto
  note d = w(4)[OF refl]
  have "map_of (vf_dirty v') n = (if i \<le> unat n \<and> unat n < i + length (ch # chs)
      then Some (page_of_chunk ?ps ((ch # chs) ! (unat n - i))) else map_of (vf_dirty v) n)" for n
  proof (cases "unat n = i")
    case True
    then have "n = of_nat i" using i(1) by (metis word_unat_eq_iff)
    then show ?thesis unfolding v'(4) d using True by simp
  next
    case False
    then have "n \<noteq> of_nat i" using i(1) by auto
    then show ?thesis unfolding v'(4) d using False by (auto simp: nth_Cons' Suc_le_eq)
  qed
  then show ?case using v'(1-3) w0(1) w(3) by (intro exI[of _ v'] conjI ext) simp_all
qed

lemma concat_pages:
  "\<forall>i. i + 1 < length chs \<longrightarrow> length (chs ! i) = n \<Longrightarrow> take (length (concat chs)) (concat (map (page_of_chunk n) chs)) = concat chs"
proof (induction chs)
  case (Cons ch chs)
  have "\<forall>i. i + 1 < length chs \<longrightarrow> length (chs ! i) = n"
  proof (intro allI impI)
    fix i assume "i + 1 < length chs"
    then show "length (chs ! i) = n" using Cons.prems[rule_format, of "i + 1"] by simp
  qed
  note IH = Cons.IH[OF this]
  show ?case
  proof (cases "chs = []")
    case False
    then have "length ch = n" using Cons.prems[rule_format, of 0] by simp
    then show ?thesis using IH by (simp add: page_of_chunk_def)
  qed (simp add: page_of_chunk_def)
qed simp

text \<open>
  C33. The page image of a commit.  When a database file is synchronised, its bytes become the
  committed pages zero, one, two and so on, the last one padded with zeros, so that the file is
  recovered from the pages; the root is the hash of the index.  Pages past the end of the file keep
  what they held, so a file that shrinks leaves its old pages behind.
\<close>

theorem sync_pages_correct:
  assumes "vfs_inv A P W v" "vf_dirty v = []" "0 < vf_page_size v" "page_total (vf_page_size v) file \<le> 2 ^ 32 - 1"
    and "\<forall>i < page_total (vf_page_size v) file. page_image (vf_page_size v) file i \<in> W"
    and "\<forall>xs. mset (si_order io xs) = mset xs" "sync_pages_to_vfs A io file v = (Inr r, v')"
    and "page_index_serialize (pi_entries (vf_index v')) \<in> W"
  shows "vfs_inv A P W v' \<and> vf_root v' = Some r \<and>
    (\<forall>n. page_data A v' n = (if unat n < page_total (vf_page_size v) file
       then Some (page_image (vf_page_size v) file (unat n)) else page_data A v n)) \<and>
    take (length file) (concat (map (page_image (vf_page_size v) file) [0..<page_total (vf_page_size v) file])) = file"
proof -
  let ?ps = "vf_page_size v" and ?chs = "chunks (vf_page_size v) file"
  have img: "page_of_chunk ?ps (?chs ! i) = page_image ?ps file i" if "i < length ?chs" for i
    using chunks_nth[OF that] by (simp add: page_image_def)
  have "\<forall>ch \<in> set ?chs. length ch \<le> ?ps \<and> page_of_chunk ?ps ch \<in> W"
    using chunks_nonempty assms(5) img by (fastforce simp: in_set_conv_nth page_total_def)
  from write_chunks_ok[OF assms(1) _ this, of 0] assms(4) obtain v1 where v1:
    "write_chunks ?ps 0 ?chs v = (Inr (), v1)" "vfs_inv A P W v1" "page_data A v1 = page_data A v"
    "map_of (vf_dirty v1) = (\<lambda>n. if unat n < length ?chs then Some (page_of_chunk ?ps (?chs ! unat n)) else None)"
    using assms(2) by (auto simp: page_total_def fun_eq_iff)
  have c: "commit A (si_puts io) (si_order io) v1 = (Inr r, v')"
    using assms(7) v1(1) by (auto simp: sync_pages_to_vfs_def split: if_splits prod.splits sum.splits)
  from commit_correct[OF v1(2) _ c assms(8)] assms(6)
  have r: "vfs_inv A P W v'" "page_data A v' = page_data A v1 ++ map_of (vf_dirty v1)" "vf_root v' = Some r" by auto
  have "page_data A v' n = (if unat n < page_total ?ps file then Some (page_image ?ps file (unat n)) else page_data A v n)" for n
    unfolding r(2) v1(3,4) by (auto simp: map_add_def page_total_def img)
  moreover have "take (length file) (concat (map (page_image ?ps file) [0..<page_total ?ps file])) = file"
  proof -
    have "map (page_image ?ps file) [0..<length ?chs] = map (page_of_chunk ?ps) ?chs"
      using img by (intro nth_equalityI) auto
    moreover have "\<forall>i. i + 1 < length ?chs \<longrightarrow> length (?chs ! i) = ?ps"
    proof (intro allI impI)
      fix i assume i2: "i + 1 < length ?chs"
      then have i: "i < length ?chs" "i + 1 < length ?chs" by simp_all
      have "(i + 1) * ?ps < length file"
        using chunks_nonempty[OF nth_mem[OF i(2)]] chunks_nth[OF i(2)] assms(3) by (auto simp: not_le)
      then show "length (?chs ! i) = ?ps" by (simp add: chunks_nth[OF i(1)])
    qed
    ultimately show ?thesis using concat_pages[of ?chs ?ps] concat_chunks[of ?ps "file"] assms(3) by (simp add: page_total_def)
  qed
  ultimately show ?thesis using r by blast
qed

section \<open>What a signature covers\<close>

lemma unat_of_char: "unat (of_char ch :: u8) = of_char ch"
proof -
  have "(of_char ch :: u8) = of_nat (of_char ch)" by (simp add: of_nat_of_char)
  moreover have "(of_char ch :: nat) < 256" by simp
  ultimately show ?thesis by (simp add: unat_of_nat)
qed

lemma str_bytes_inject: "str_bytes s = str_bytes t \<longleftrightarrow> s = t"
proof
  assume "str_bytes s = str_bytes t"
  then have "map (\<lambda>b. unat b) (str_bytes s) = map (\<lambda>b. unat b) (str_bytes t)" by simp
  then have "map of_char s = (map of_char t :: nat list)" by (simp add: str_bytes_def unat_of_char comp_def)
  then show "s = t" by (rule map_injective) (simp add: inj_def of_char_eq_iff)
qed simp

lemma length_prefix_inject:
  assumes "to_le_bytes32 (of_nat (length xs)) @ xs @ as = to_le_bytes32 (of_nat (length ys)) @ ys @ bs"
    and "length xs < 2 ^ 32" "length ys < 2 ^ 32"
  shows "xs = ys \<and> as = bs"
proof -
  have "to_le_bytes32 (of_nat (length xs)) = to_le_bytes32 (of_nat (length ys))" "xs @ as = ys @ bs"
    using assms(1) by (simp_all add: to_le_bytes32_def)
  then have "nat_of_le (to_le_bytes32 (of_nat (length xs))) = nat_of_le (to_le_bytes32 (of_nat (length ys)))" by simp
  then have "length xs = length ys"
    using assms(2,3) by (simp add: to_le_bytes32_def nat_of_le_to_le unat_of_nat)
  with \<open>xs @ as = ys @ bs\<close> show ?thesis by simp
qed

lemma signed_payload_inject:
  assumes "build_signed_payload w s r = build_signed_payload w' s' r'"
    and "length (node_id_bytes w) = 32" "length (node_id_bytes w') = 32" "length s < 2 ^ 32" "length s' < 2 ^ 32"
  shows "w = w' \<and> s = s' \<and> r = r'"
proof -
  have "node_id_bytes w = node_id_bytes w' \<and>
      to_le_bytes32 (of_nat (length (str_bytes s))) @ str_bytes s @ (case r of None \<Rightarrow> [0] | Some c \<Rightarrow> 1 # cid_bytes c) =
      to_le_bytes32 (of_nat (length (str_bytes s'))) @ str_bytes s' @ (case r' of None \<Rightarrow> [0] | Some c \<Rightarrow> 1 # cid_bytes c)"
    by (rule length_prefix_inject) (use assms in \<open>simp_all add: build_signed_payload_def\<close>)
  moreover from this have "str_bytes s = str_bytes s' \<and>
      (case r of None \<Rightarrow> [0] | Some c \<Rightarrow> 1 # cid_bytes c) = (case r' of None \<Rightarrow> [0] | Some c \<Rightarrow> 1 # cid_bytes c)"
    by (intro length_prefix_inject) (use assms in \<open>simp_all add: str_bytes_def\<close>)
  ultimately show ?thesis
    by (auto simp: str_bytes_inject node_id.expand cid.expand split: option.splits)
qed

section \<open>Success without faults\<close>

definition io_fine :: "sql_io \<Rightarrow> bool" where
  "io_fine io \<longleftrightarrow> si_read_ok io \<and> (\<forall>i. flt_write (si_puts io i) = None \<and> flt_rename (si_puts io i) = None) \<and>
     (\<forall>xs. mset (si_order io xs) = mset xs)"

lemma store_pages_succeed:
  "\<forall>i. flt_write (flts i) = None \<and> flt_rename (flts i) = None \<Longrightarrow> \<exists>s' ix'. store_pages (put A) flts i ps s ix = (None, s', ix')"
proof (induction ps arbitrary: i s ix)
  case (Cons p ps)
  obtain n d where p: "p = (n, d)" by (cases p)
  obtain s' where "put A (flts i) s d = (Inr (cid_from_data (oa_b3 A) d), s')"
    using put_succeeds[of "flts i" A s d] Cons.prems by (cases "put A (flts i) s d") auto
  then show ?case using Cons.IH[OF Cons.prems] by (simp add: p)
qed simp

lemma commit_io_fine:
  assumes "io_fine io" "vf_dirty v \<noteq> []"
  shows "\<exists>r v'. commit A (si_puts io) (si_order io) v = (Inr r, v') \<and> vf_page_size v' = vf_page_size v"
proof -
  have "mset (si_order io (vf_dirty v)) \<noteq> mset []" using assms by (simp add: io_fine_def)
  then have ne: "si_order io (vf_dirty v) \<noteq> []" by metis
  obtain s ix where s: "store_pages (put A) (si_puts io) 0 (si_order io (vf_dirty v)) (vf_store v) (vf_index v) = (None, s, ix)"
    using store_pages_succeed[of "si_puts io"] assms(1) unfolding io_fine_def by metis
  let ?n = "length (si_order io (vf_dirty v))" and ?d = "page_index_serialize (pi_entries ix)"
  obtain s' where "put A (si_puts io ?n) s ?d = (Inr (cid_from_data (oa_b3 A) ?d), s')"
    using put_succeeds[of "si_puts io ?n" A s ?d] assms(1) by (cases "put A (si_puts io ?n) s ?d") (auto simp: io_fine_def)
  then show ?thesis using ne s by (simp add: commit_def Let_def)
qed

lemma write_chunks_succeed:
  "\<forall>ch \<in> set chs. length ch \<le> vf_page_size v \<Longrightarrow>
     \<exists>v'. write_chunks (vf_page_size v) i chs v = (Inr (), v') \<and> vf_page_size v' = vf_page_size v \<and>
       (chs \<noteq> [] \<or> vf_dirty v \<noteq> [] \<longrightarrow> vf_dirty v' \<noteq> [])"
proof (induction chs arbitrary: i v)
  case (Cons ch chs)
  obtain v1 where v1: "write_page v (of_nat i) (page_of_chunk (vf_page_size v) ch) = (Inr (), v1)" "vf_page_size v1 = vf_page_size v"
    "vf_dirty v1 \<noteq> []"
    using length_page_of_chunk[of ch "vf_page_size v"] Cons.prems by (simp add: write_page_def)
  then show ?case using Cons.IH[of v1 "Suc i"] Cons.prems by auto
qed simp

lemma sync_succeeds:
  assumes "io_fine io" "file \<noteq> []" "0 < vf_page_size v"
  shows "\<exists>r v'. sync_pages_to_vfs A io file v = (Inr r, v') \<and> vf_page_size v' = vf_page_size v"
proof -
  have "chunks (vf_page_size v) file \<noteq> []" using assms(2,3) by (simp add: chunks.simps)
  moreover have "\<forall>ch \<in> set (chunks (vf_page_size v) file). length ch \<le> vf_page_size v" using chunks_nonempty by blast
  ultimately obtain v1 where v1: "write_chunks (vf_page_size v) 0 (chunks (vf_page_size v) file) v = (Inr (), v1)"
    "vf_page_size v1 = vf_page_size v" "vf_dirty v1 \<noteq> []"
    using write_chunks_succeed by blast
  from commit_io_fine[OF assms(1) v1(3)] obtain r v' where "commit A (si_puts io) (si_order io) v1 = (Inr r, v')" "vf_page_size v' = vf_page_size v1"
    by blast
  then show ?thesis using v1 assms(1) by (simp add: sync_pages_to_vfs_def io_fine_def)
qed

lemma execute_succeeds:
  assumes "io_fine io" "writer = db_owner db" "eng_execute E sql (db_file db) = (True, file)" "file \<noteq> []" "0 < vf_page_size (db_vfs db)"
  shows "\<exists>db'. database_execute E A io sql writer db = (Inr (), db') \<and> db_owner db' = db_owner db \<and>
    vf_page_size (db_vfs db') = vf_page_size (db_vfs db)"
proof -
  obtain r v' where "sync_pages_to_vfs A io file (db_vfs db) = (Inr r, v')" "vf_page_size v' = vf_page_size (db_vfs db)"
    using sync_succeeds[OF assms(1,4,5)] by blast
  then show ?thesis using assms(2,3) by (simp add: database_execute_def check_ownership_def)
qed

section \<open>Authorisation\<close>

lemma signed_write_check_iff:
  "signed_write_check ed msg db = Inr () \<longleftrightarrow>
     identity_verify ed (build_signed_payload (sw_writer msg) (sw_sql msg) (sw_expected_root msg)) (sw_signature msg) (sw_writer msg) \<and>
     sw_writer msg = db_owner db \<and> (sw_expected_root msg = None \<or> sw_expected_root msg = Some (db_root_cid db))"
  by (auto simp: signed_write_check_def verify_signature_def check_ownership_def check_cas_def Let_def split: option.splits if_splits)

text \<open>
  Signed writes.  A write reaches the database exactly when its signature verifies under the key of
  the writer over the writer, the statement and the expected root, the writer is the owner, and the
  expected root, if given, is the current one; otherwise it changes nothing.  The signed bytes
  determine all three parts.  A write without an expected root passes the checks of any later state
  of the database again, so a captured message can be replayed.
\<close>

theorem signed_write_gate:
  "(if identity_verify ed (build_signed_payload (sw_writer msg) (sw_sql msg) (sw_expected_root msg)) (sw_signature msg) (sw_writer msg) \<and>
       sw_writer msg = db_owner db \<and> (sw_expected_root msg = None \<or> sw_expected_root msg = Some (db_root_cid db))
    then handle_signed_write ed E A io msg db = signed_write_execute E A io msg db
    else \<exists>e. handle_signed_write ed E A io msg db = (Inl e, db)) \<and>
   (length (node_id_bytes w) = 32 \<and> length (node_id_bytes w') = 32 \<and> length s < 2 ^ 32 \<and> length s' < 2 ^ 32 \<and>
      build_signed_payload w s r = build_signed_payload w' s' r' \<longrightarrow> w = w' \<and> s = s' \<and> r = r') \<and>
   (signed_write_check ed msg db = Inr () \<and> sw_expected_root msg = None \<and> db_owner later = db_owner db \<longrightarrow>
      handle_signed_write ed E A io msg later = signed_write_execute E A io msg later)"
proof -
  have h: "handle_signed_write ed E A io msg d =
      (if signed_write_check ed msg d = Inr () then signed_write_execute E A io msg d else (Inl (projl (signed_write_check ed msg d)), d))" for d
    by (cases "signed_write_check ed msg d") (simp_all add: handle_signed_write_def)
  show ?thesis
    using signed_payload_inject[of w s r w' s' r'] unfolding h signed_write_check_iff by auto
qed

theorem signed_write_gate_witness:
  "build_signed_payload (NodeId (replicate 32 1)) ''x'' None \<noteq> build_signed_payload (NodeId (replicate 32 1)) ''y'' None"
  using signed_write_gate[of _ _ _ _ _ _ "NodeId (replicate 32 1)" "NodeId (replicate 32 1)" "''x''" "''y''" None None] by auto

section \<open>Concurrent writes\<close>

text \<open>Handlers of signed writes, interleaved: the checks of a handler, then its execution under the lock.\<close>

datatype write_phase = Waiting | Passed | Finished "(cid, sql_error) result"

inductive write_step ::
  "ed25519 \<Rightarrow> sql_engine \<Rightarrow> ('b, 'c) obj_api \<Rightarrow> sql_io \<Rightarrow>
     ('b, 'c, 'p) database \<times> (signed_write \<times> write_phase) list \<Rightarrow> ('b, 'c, 'p) database \<times> (signed_write \<times> write_phase) list \<Rightarrow> bool"
  for ed E A io where
  pass: "i < length ts \<Longrightarrow> ts ! i = (msg, Waiting) \<Longrightarrow> signed_write_check ed msg db = Inr () \<Longrightarrow>
    write_step ed E A io (db, ts) (db, ts[i := (msg, Passed)])"
| reject: "i < length ts \<Longrightarrow> ts ! i = (msg, Waiting) \<Longrightarrow> signed_write_check ed msg db = Inl e \<Longrightarrow>
    write_step ed E A io (db, ts) (db, ts[i := (msg, Finished (Inl e))])"
| exec: "i < length ts \<Longrightarrow> ts ! i = (msg, Passed) \<Longrightarrow> signed_write_execute E A io msg db = (r, db') \<Longrightarrow>
    write_step ed E A io (db, ts) (db', ts[i := (msg, Finished r)])"

lemma signed_execute_succeeds:
  assumes "io_fine io" "sw_writer msg = db_owner db" "eng_execute E (sw_sql msg) (db_file db) = (True, file)" "file \<noteq> []"
    and "0 < vf_page_size (db_vfs db)"
  shows "\<exists>r db'. signed_write_execute E A io msg db = (Inr r, db') \<and> r = db_root_cid db' \<and> db_owner db' = db_owner db \<and>
    0 < vf_page_size (db_vfs db')"
  using execute_succeeds[OF assms, of A] assms(5) by (auto simp: signed_write_execute_def)


definition demo_engine :: sql_engine where
  "demo_engine = \<lparr>eng_execute = \<lambda>sql f. (True, str_bytes sql @ [1]), eng_query = \<lambda>sql f. (Some [], f)\<rparr>"

definition demo_ed :: ed25519 where
  "demo_ed = \<lparr>ed_public = \<lambda>sk. sk, ed_sign = \<lambda>sk m. [], ed_key_ok = \<lambda>k. True, ed_verify = \<lambda>k m s. True\<rparr>"

definition demo_io :: sql_io where
  "demo_io = \<lparr>si_open_ok = True, si_read_ok = True, si_puts = \<lambda>_. no_faults, si_order = \<lambda>xs. xs\<rparr>"

definition demo_db :: "(bytes list, cid \<Rightarrow> bytes option, cid \<times> u32 \<Rightarrow> bytes option) database" where
  "demo_db = \<lparr>db_id = Cid [], db_owner = NodeId [1], db_vfs = demo_vfs0, db_root_cid = Cid [3], db_file = [], db_events = None\<rparr>"

definition demo_write :: "string \<Rightarrow> signed_write" where
  "demo_write sql = \<lparr>sw_writer = NodeId [1], sw_sql = sql, sw_expected_root = Some (Cid [3]), sw_signature = Signature []\<rparr>"


section \<open>A concrete synchronisation\<close>

definition sync_index :: entries where
  "sync_index = [(0, Cid (sum_hash (demo_page 1)))]"

definition sync_world :: "bytes set" where
  "sync_world = {demo_page 1, page_index_serialize sync_index}"

lemma sum_list_sync_index: "sum_list (page_index_serialize sync_index) = 2"
proof -
  have z: "sum_list (to_le_bytes32 0) = 0" by code_simp
  have "page_index_serialize sync_index = to_le_bytes32 1 @ to_le_bytes32 0 @ (1 # replicate 31 0)"
    by (simp add: page_index_serialize_def sync_index_def entry_bytes_def sum_hash_def sum_list_demo_page)
  then show ?thesis by (simp only: sum_list_append sum_list_le_1 z sum_list.Cons sum_list_zeros) simp
qed

lemma sync_world_inv: "vfs_inv demo_api demo_lru sync_world demo_vfs0"
proof -
  have p: "is_power_of_two 512" by (simp add: is_power_of_two_def image_iff) (rule bexI[of _ 9]; simp)
  have e: "vfs_new demo_lru (store_new demo_api [] 4) 512 = Inr demo_vfs0" by (simp add: vfs_new_def p demo_vfs0_def)
  have "inj_on (cid_from_data (oa_b3 demo_api)) sync_world"
    using sum_list_demo_page[of 1] sum_list_sync_index by (auto simp: inj_on_def sync_world_def sum_hash_def)
  moreover have "ran (obj_lookup demo_api (store_new demo_api [] 4)) \<subseteq> sync_world"
    by (auto simp: ran_def obj_lookup_def store_new_def fs_lookup_def)
  ultimately show ?thesis by (rule vfs_new_inv[OF e demo_new_clean demo_lru_ok])
qed

lemma demo_chunk: "chunks 512 [1 :: u8] = [[1]]" "page_of_chunk 512 [1] = demo_page 1"
proof -
  show "chunks 512 [1 :: u8] = [[1]]" by (simp add: chunks.simps)
  have "drop 1 (replicate 512 (0 :: u8)) = replicate 511 0" by (simp only: drop_replicate) simp
  then show "page_of_chunk 512 [1] = demo_page 1" by (simp only: page_of_chunk_def demo_page_def length_Cons list.size append_Cons append_Nil) simp
qed

theorem sync_pages_correct_witness:
  "\<exists>r v'. sync_pages_to_vfs demo_api demo_io [1] demo_vfs0 = (Inr r, v') \<and> page_data demo_api v' 0 = Some (demo_page 1)"
proof -
  let ?v = "demo_vfs0\<lparr>vf_dirty := [(0, demo_page 1)]\<rparr>"
  have w: "write_chunks 512 0 [[1]] demo_vfs0 = (Inr (), ?v)"
    by (simp add: demo_chunk write_page_def length_demo_page demo_vfs0_fields)
  let ?ix = "page_index_set 0 (Cid (sum_hash (demo_page 1))) page_index_new"
  have ix: "pi_entries ?ix = sync_index" by (simp add: page_index_set_def page_index_new_def sync_index_def)
  let ?r = "Cid (sum_hash (page_index_serialize sync_index))"
  obtain st where c: "commit demo_api (\<lambda>_. no_faults) id ?v =
      (Inr ?r, ?v\<lparr>vf_dirty := [], vf_store := st, vf_index := page_index_set_root ?r ?ix, vf_root := Some ?r\<rparr>)"
    using commit_one_ok[of ?v 0 "demo_page 1" "\<lambda>_. no_faults" ?ix demo_api ?r] ix by (auto simp: no_faults_def demo_vfs0_fields)
  let ?v' = "?v\<lparr>vf_dirty := [], vf_store := st, vf_index := page_index_set_root ?r ?ix, vf_root := Some ?r\<rparr>"
  have s: "sync_pages_to_vfs demo_api demo_io [1] demo_vfs0 = (Inr ?r, ?v')"
    using w c by (simp add: sync_pages_to_vfs_def demo_io_def demo_vfs0_fields demo_chunk id_def)
  have img: "page_image 512 [1] i = demo_page 1" if "i < page_total 512 [1]" for i
    using that by (simp add: page_image_def page_total_def demo_chunk)
  have "page_index_serialize (pi_entries (vf_index ?v')) \<in> sync_world" by (simp add: page_index_set_root_def ix sync_world_def)
  moreover have "page_total 512 [1] = 1" by (simp add: page_total_def demo_chunk)
  moreover have "\<forall>xs. mset (si_order demo_io xs) = mset xs" by (simp add: demo_io_def)
  ultimately have "page_data demo_api ?v' 0 = Some (demo_page 1)"
    using sync_pages_correct[OF sync_world_inv _ _ _ _ _ s] img by (simp add: demo_vfs0_fields sync_world_def)
  with s show ?thesis by blast
qed

end
