(* ===== verification/Wire.thy ===== *)
theory Wire
  imports Types
begin

text \<open>
  The wire protocol of \<open>craftec-types/src/wire.rs\<close>: the messages, their tags, and the framing of
  peer messages (version 0 and 1) and of RPC requests and responses.  The \<open>postcard\<close> serializer
  is a parameter.  Decoding reads untrusted bytes, so indexing and slicing are modelled with the
  panic of the source: a decoder returns \<open>None\<close> when the Rust code would panic.
\<close>

section \<open>Messages\<close>

text \<open>\<open>f64\<close> and \<open>i64\<close> values are carried as their 64 bits, \<open>usize\<close> as 64-bit words.\<close>

datatype rpc_value = RvNull | RvInteger u64 | RvReal u64 | RvText string | RvBlob bytes

datatype rpc_request =
    ReqStatus
  | ReqStorePut bytes
  | ReqStoreGet cid
  | ReqStoreList
  | ReqSqlQuery string
  | ReqSqlExecute string node_id signature
  | ReqPeers
  | ReqPieceInfo cid

datatype rpc_response =
    RespStatus node_id u64 u64 cid u64
  | RespStorePut cid
  | RespStoreGet "bytes option"
  | RespStoreList "cid list"
  | RespSqlQuery "rpc_value list list"
  | RespSqlExecute cid
  | RespPeers "node_id list" u64
  | RespPieceInfo cid u32 "u32 option" "node_id list"
  | RespError u32 string

datatype wire_message =
    Ping u64
  | Pong u64
  | PieceRequest cid "u32 list" u64
  | PieceResponse "coded_piece list" u64
  | ProviderAnnounce cid node_id
  | SignedWrite bytes signature node_id u64
  | SwimJoin node_id u16
  | SwimAlive node_id u64
  | SwimSuspect node_id u64 node_id
  | SwimDead node_id u64 node_id
  | HealthReport cid u32 u32
  | SwimPing node_id u64 "wire_message list"
  | SwimPingAck node_id u64 u64

fun is_swim :: "wire_message \<Rightarrow> bool" where
  "is_swim (SwimJoin _ _) = True"
| "is_swim (SwimAlive _ _) = True"
| "is_swim (SwimSuspect _ _ _) = True"
| "is_swim (SwimDead _ _ _) = True"
| "is_swim (SwimPing _ _ _) = True"
| "is_swim (SwimPingAck _ _ _) = True"
| "is_swim _ = False"

fun type_tag :: "wire_message \<Rightarrow> u32" where
  "type_tag (Ping _) = 0x0001"
| "type_tag (Pong _) = 0x0002"
| "type_tag (PieceRequest _ _ _) = 0x0010"
| "type_tag (PieceResponse _ _) = 0x0011"
| "type_tag (ProviderAnnounce _ _) = 0x0020"
| "type_tag (SignedWrite _ _ _ _) = 0x0030"
| "type_tag (SwimJoin _ _) = 0x0100"
| "type_tag (SwimAlive _ _) = 0x0101"
| "type_tag (SwimSuspect _ _ _) = 0x0102"
| "type_tag (SwimDead _ _ _) = 0x0103"
| "type_tag (SwimPing _ _ _) = 0x0104"
| "type_tag (SwimPingAck _ _ _) = 0x0105"
| "type_tag (HealthReport _ _ _) = 0x0040"

section \<open>Serialization\<close>

record 'm postcard =
  pc_encode :: "'m \<Rightarrow> bytes option"
  pc_decode :: "bytes \<Rightarrow> 'm option"

text \<open>Reading back a serialized value gives the value.\<close>

definition postcard_ok :: "'m postcard \<Rightarrow> bool" where
  "postcard_ok P \<longleftrightarrow> (\<forall>m b. pc_encode P m = Some b \<longrightarrow> pc_decode P b = Some m)"

definition ser_error :: "string \<Rightarrow> craftec_error" where
  "ser_error = SerializationError"

definition WIRE_VERSION :: u8 where "WIRE_VERSION = 1"
definition FRAME_HEADER_SIZE :: nat where "FRAME_HEADER_SIZE = 17"
definition FRAME_HEADER_V0_SIZE :: nat where "FRAME_HEADER_V0_SIZE = 9"
definition TYPE_TAG_RPC_REQUEST :: u32 where "TYPE_TAG_RPC_REQUEST = 0x0200"
definition TYPE_TAG_RPC_RESPONSE :: u32 where "TYPE_TAG_RPC_RESPONSE = 0x0201"

text \<open>A message without a frame.\<close>

definition wire_encode :: "wire_message postcard \<Rightarrow> wire_message \<Rightarrow> (bytes, craftec_error) result" where
  "wire_encode P msg = (case pc_encode P msg of None \<Rightarrow> Inl (ser_error ''postcard encode error'') | Some b \<Rightarrow> Inr b)"

definition wire_decode :: "wire_message postcard \<Rightarrow> bytes \<Rightarrow> (wire_message, craftec_error) result" where
  "wire_decode P b = (case pc_decode P b of None \<Rightarrow> Inl (ser_error ''postcard decode error'') | Some msg \<Rightarrow> Inr msg)"

text \<open>The common frame layout; \<open>payload.len() as u32\<close> truncates.\<close>

definition frame :: "u32 \<Rightarrow> u64 \<Rightarrow> bytes \<Rightarrow> bytes" where
  "frame tag hlc_ts payload =
     to_be_bytes32 tag @ [WIRE_VERSION] @ to_be_bytes64 hlc_ts @
     to_be_bytes32 (of_nat (length payload)) @ payload"

definition encode_framed_with_hlc ::
  "wire_message postcard \<Rightarrow> wire_message \<Rightarrow> u64 \<Rightarrow> (bytes, craftec_error) result" where
  "encode_framed_with_hlc P msg hlc_ts =
     (case pc_encode P msg of
        None \<Rightarrow> Inl (ser_error ''postcard encode error'')
      | Some payload \<Rightarrow> Inr (frame (type_tag msg) hlc_ts payload))"

definition encode_framed :: "wire_message postcard \<Rightarrow> wire_message \<Rightarrow> (bytes, craftec_error) result" where
  "encode_framed P msg = encode_framed_with_hlc P msg 0"

definition encode_rpc_request ::
  "rpc_request postcard \<Rightarrow> rpc_request \<Rightarrow> u64 \<Rightarrow> (bytes, craftec_error) result" where
  "encode_rpc_request P req hlc_ts =
     (case pc_encode P req of
        None \<Rightarrow> Inl (ser_error ''postcard encode error'')
      | Some payload \<Rightarrow> Inr (frame TYPE_TAG_RPC_REQUEST hlc_ts payload))"

definition encode_rpc_response ::
  "rpc_response postcard \<Rightarrow> rpc_response \<Rightarrow> u64 \<Rightarrow> (bytes, craftec_error) result" where
  "encode_rpc_response P resp hlc_ts =
     (case pc_encode P resp of
        None \<Rightarrow> Inl (ser_error ''postcard encode error'')
      | Some payload \<Rightarrow> Inr (frame TYPE_TAG_RPC_RESPONSE hlc_ts payload))"

section \<open>Reading with bounds checks\<close>

text \<open>Indexing and slicing of the source: \<open>None\<close> is the panic out of range.\<close>

definition index_at :: "bytes \<Rightarrow> nat \<Rightarrow> u8 option" where
  "index_at d i = (if i < length d then Some (d ! i) else None)"

definition slice_at :: "bytes \<Rightarrow> nat \<Rightarrow> nat \<Rightarrow> bytes option" where
  "slice_at d a b = (if a \<le> b \<and> b \<le> length d then Some (slice a b d) else None)"

definition index_range :: "bytes \<Rightarrow> nat \<Rightarrow> nat \<Rightarrow> bytes option" where
  "index_range d a n = those (map (index_at d) [a..<a + n])"

definition decode_payload :: "'m postcard \<Rightarrow> bytes \<Rightarrow> nat \<Rightarrow> nat \<Rightarrow> u64 \<Rightarrow>
  ('m \<times> u64, craftec_error) result option" where
  "decode_payload P d hdr payload_len hlc_ts =
     Option.bind (slice_at d hdr (hdr + payload_len)) (\<lambda>payload.
       Some (case pc_decode P payload of
               None \<Rightarrow> Inl (ser_error ''postcard decode error'')
             | Some m \<Rightarrow> Inr (m, hlc_ts)))"

definition decode_framed_with_hlc ::
  "wire_message postcard \<Rightarrow> bytes \<Rightarrow> (wire_message \<times> u64, craftec_error) result option" where
  "decode_framed_with_hlc P d =
     (if length d < FRAME_HEADER_V0_SIZE then Some (Inl (ser_error ''frame too short''))
      else Option.bind (index_at d 4) (\<lambda>version.
        if version = 0 then
          Option.bind (index_range d 5 4) (\<lambda>lenb.
            let payload_len = unat (from_be_bytes32 lenb) in
            if length d < FRAME_HEADER_V0_SIZE + payload_len then Some (Inl (ser_error ''v0 frame truncated''))
            else decode_payload P d FRAME_HEADER_V0_SIZE payload_len 0)
        else if version = 1 then
          (if length d < FRAME_HEADER_SIZE then Some (Inl (ser_error ''v1 frame too short''))
           else Option.bind (index_range d 5 8) (\<lambda>tsb.
             Option.bind (index_range d 13 4) (\<lambda>lenb.
               let hlc_ts = from_be_bytes64 tsb; payload_len = unat (from_be_bytes32 lenb) in
               if length d < FRAME_HEADER_SIZE + payload_len then Some (Inl (ser_error ''v1 frame truncated''))
               else decode_payload P d FRAME_HEADER_SIZE payload_len hlc_ts)))
        else Some (Inl (ser_error ''unsupported wire version''))))"

definition decode_framed ::
  "wire_message postcard \<Rightarrow> bytes \<Rightarrow> (wire_message, craftec_error) result option" where
  "decode_framed P d = map_option (map_sum (\<lambda>e. e) fst) (decode_framed_with_hlc P d)"

text \<open>The two RPC decoders differ in the expected tag only.\<close>

definition decode_rpc :: "u32 \<Rightarrow> 'm postcard \<Rightarrow> bytes \<Rightarrow> ('m \<times> u64, craftec_error) result option" where
  "decode_rpc expected P d =
     (if length d < FRAME_HEADER_SIZE then Some (Inl (ser_error ''RPC frame too short''))
      else Option.bind (index_range d 0 4) (\<lambda>tagb.
        if from_be_bytes32 tagb \<noteq> expected then Some (Inl (ser_error ''unexpected RPC type tag''))
        else Option.bind (index_at d 4) (\<lambda>version.
          if version \<noteq> WIRE_VERSION then Some (Inl (ser_error ''unsupported wire version''))
          else Option.bind (index_range d 5 8) (\<lambda>tsb.
            Option.bind (index_range d 13 4) (\<lambda>lenb.
              let hlc_ts = from_be_bytes64 tsb; payload_len = unat (from_be_bytes32 lenb) in
              if length d < FRAME_HEADER_SIZE + payload_len then Some (Inl (ser_error ''RPC frame truncated''))
              else decode_payload P d FRAME_HEADER_SIZE payload_len hlc_ts)))))"

definition decode_rpc_request :: "rpc_request postcard \<Rightarrow> bytes \<Rightarrow> (rpc_request \<times> u64, craftec_error) result option" where
  "decode_rpc_request = decode_rpc TYPE_TAG_RPC_REQUEST"

definition decode_rpc_response :: "rpc_response postcard \<Rightarrow> bytes \<Rightarrow> (rpc_response \<times> u64, craftec_error) result option" where
  "decode_rpc_response = decode_rpc TYPE_TAG_RPC_RESPONSE"

section \<open>Bounds\<close>

lemma wire_roundtrip: "postcard_ok P \<Longrightarrow> wire_encode P msg = Inr b \<Longrightarrow> wire_decode P b = Inr msg"
  by (auto simp: postcard_ok_def wire_encode_def wire_decode_def split: option.splits)

lemma those_map_Some: "(\<And>x. x \<in> set xs \<Longrightarrow> f x = Some (g x)) \<Longrightarrow> those (map f xs) = Some (map g xs)"
  by (induction xs) auto

lemma index_range_Some: "a + n \<le> length d \<Longrightarrow> index_range d a n = Some (slice a (a + n) d)"
proof -
  assume a: "a + n \<le> length d"
  have "index_range d a n = Some (map ((!) d) [a..<a + n])"
    unfolding index_range_def using a by (intro those_map_Some) (simp add: index_at_def)
  also have "map ((!) d) [a..<a + n] = slice a (a + n) d"
    using a by (intro nth_equalityI) (simp_all add: slice_def)
  finally show ?thesis .
qed

lemma slice_at_Some: "a \<le> b \<Longrightarrow> b \<le> length d \<Longrightarrow> slice_at d a b = Some (slice a b d)"
  by (simp add: slice_at_def)

lemma index_at_Some: "i < length d \<Longrightarrow> index_at d i = Some (d ! i)"
  by (simp add: index_at_def)

lemmas wire_consts = FRAME_HEADER_SIZE_def FRAME_HEADER_V0_SIZE_def WIRE_VERSION_def
lemmas wire_bounds = index_range_Some index_at_Some slice_at_Some

lemma decode_payload_total: "hdr + n \<le> length d \<Longrightarrow> decode_payload P d hdr n ts \<noteq> None"
  by (simp add: decode_payload_def slice_at_Some)

section \<open>Layout of a frame\<close>

lemma frame_parts:
  "length (frame tag ts p) = FRAME_HEADER_SIZE + length p"
  "slice 0 4 (frame tag ts p) = to_be_bytes32 tag"
  "frame tag ts p ! 4 = WIRE_VERSION"
  "slice 5 13 (frame tag ts p) = to_be_bytes64 ts"
  "slice 13 17 (frame tag ts p) = to_be_bytes32 (of_nat (length p))"
  "slice FRAME_HEADER_SIZE (FRAME_HEADER_SIZE + length p) (frame tag ts p) = p"
proof -
  have s: "slice 0 n (xs @ ys) = xs" if "length xs = n" for n and xs ys :: bytes using that by (simp add: slice_def)
  show "length (frame tag ts p) = FRAME_HEADER_SIZE + length p"
    by (simp add: frame_def FRAME_HEADER_SIZE_def)
  show "slice 0 4 (frame tag ts p) = to_be_bytes32 tag" unfolding frame_def by (rule s) simp
  show "frame tag ts p ! 4 = WIRE_VERSION" by (simp add: frame_def nth_append)
  show "slice 5 13 (frame tag ts p) = to_be_bytes64 ts" by (simp add: frame_def slice_def)
  show "slice 13 17 (frame tag ts p) = to_be_bytes32 (of_nat (length p))" by (simp add: frame_def slice_def)
  show "slice FRAME_HEADER_SIZE (FRAME_HEADER_SIZE + length p) (frame tag ts p) = p"
    by (simp add: frame_def slice_def FRAME_HEADER_SIZE_def)
qed

lemma unat_payload_len: "length p < 2 ^ 32 \<Longrightarrow> unat (of_nat (length p) :: u32) = length p"
  by (simp add: unat_of_nat)

lemma slice_append_left: "b \<le> length xs \<Longrightarrow> slice a b (xs @ ys) = slice a b xs"
  by (simp add: slice_def)

text \<open>The header fields as the decoders read them, with arbitrary bytes after the frame.\<close>

lemma frame_reads:
  assumes "length p < 2 ^ 32"
  shows "index_range (frame tag ts p @ rest) 0 4 = Some (to_be_bytes32 tag)"
    "index_at (frame tag ts p @ rest) 4 = Some WIRE_VERSION"
    "index_range (frame tag ts p @ rest) 5 8 = Some (to_be_bytes64 ts)"
    "index_range (frame tag ts p @ rest) 13 4 = Some (to_be_bytes32 (of_nat (length p)))"
    "slice_at (frame tag ts p @ rest) FRAME_HEADER_SIZE (FRAME_HEADER_SIZE + length p) = Some p"
    "unat (from_be_bytes32 (to_be_bytes32 (of_nat (length p)))) = length p"
  using frame_parts[where tag = tag and ts = ts and p = p] assms
  by (simp_all add: index_range_Some index_at_Some slice_at_Some slice_append_left nth_append
      unat_payload_len FRAME_HEADER_SIZE_def)

lemma decode_payload_frame:
  "postcard_ok P \<Longrightarrow> pc_encode P m = Some p \<Longrightarrow> length p < 2 ^ 32 \<Longrightarrow>
   decode_payload P (frame tag ts p @ rest) FRAME_HEADER_SIZE (length p) ts' = Some (Inr (m, ts'))"
  by (simp add: decode_payload_def frame_reads postcard_ok_def)

lemma decode_framed_frame:
  assumes "postcard_ok P" "pc_encode P m = Some p" "length p < 2 ^ 32"
  shows "decode_framed_with_hlc P (frame tag ts p @ rest) = Some (Inr (m, ts))"
  using decode_payload_frame[OF assms] frame_reads[OF assms(3)] frame_parts(1)[of tag ts p]
  by (simp add: decode_framed_with_hlc_def WIRE_VERSION_def FRAME_HEADER_V0_SIZE_def FRAME_HEADER_SIZE_def)

lemma decode_rpc_frame:
  assumes "postcard_ok P" "pc_encode P m = Some p" "length p < 2 ^ 32"
  shows "decode_rpc tag P (frame tag ts p @ rest) = Some (Inr (m, ts))"
  using decode_payload_frame[OF assms] frame_reads[OF assms(3)] frame_parts(1)[of tag ts p]
  by (simp add: decode_rpc_def FRAME_HEADER_SIZE_def)

lemma decode_rpc_total: "decode_rpc tag P d \<noteq> None"
proof (cases "length d < FRAME_HEADER_SIZE")
  case True
  then show ?thesis by (simp add: decode_rpc_def)
next
  case False
  then show ?thesis
    by (auto simp: decode_rpc_def wire_bounds FRAME_HEADER_SIZE_def Let_def intro!: decode_payload_total
        simp del: not_None_eq)
qed

text \<open>The peer decoder reads nothing before byte 4.\<close>

lemma reads_same_tail:
  assumes "length d = length d'" "drop 4 d = drop 4 d'" "4 \<le> a"
  shows "index_at d a = index_at d' a" "index_range d a n = index_range d' a n" "slice_at d a b = slice_at d' a b"
proof -
  have nth: "d ! i = d' ! i" if "4 \<le> i" "i < length d" for i
    using arg_cong[OF assms(2), of "\<lambda>x. x ! (i - 4)"] that assms(1) by simp
  then show "index_at d a = index_at d' a" using assms by (simp add: index_at_def)
  have "index_at d i = index_at d' i" if "i \<in> set [a..<a + n]" for i
    using that nth assms by (auto simp: index_at_def)
  then show "index_range d a n = index_range d' a n" unfolding index_range_def by (metis map_cong)
  have "drop a d = drop a d'" using arg_cong[OF assms(2), of "drop (a - 4)"] assms(3) by simp
  then show "slice_at d a b = slice_at d' a b" using assms(1) by (simp add: slice_at_def slice_def)
qed

lemma decode_framed_same_tail:
  assumes "length d = length d'" "drop 4 d = drop 4 d'"
  shows "decode_framed_with_hlc P d = decode_framed_with_hlc P d'"
proof -
  note r = reads_same_tail[OF assms]
  have p: "decode_payload P d h = decode_payload P d' h" if "4 \<le> h" for h
    by (intro ext) (simp only: decode_payload_def r(3)[OF that])
  have reads: "index_at d 4 = index_at d' 4" "index_range d 5 = index_range d' 5" "index_range d 13 = index_range d' 13"
    "decode_payload P d FRAME_HEADER_SIZE = decode_payload P d' FRAME_HEADER_SIZE"
    "decode_payload P d FRAME_HEADER_V0_SIZE = decode_payload P d' FRAME_HEADER_V0_SIZE"
    using r(1)[of 4] r(2)[of 5] r(2)[of 13] p[of FRAME_HEADER_SIZE] p[of FRAME_HEADER_V0_SIZE]
    by (simp_all add: ext FRAME_HEADER_SIZE_def FRAME_HEADER_V0_SIZE_def)
  show ?thesis unfolding decode_framed_with_hlc_def assms(1) reads ..
qed

section \<open>Properties\<close>

text \<open>
  C7. Framing round trip: every peer message, RPC request and RPC response whose serialized
  payload is shorter than 4 GiB is decoded from its frame to itself together with its timestamp,
  whatever bytes follow the frame.
\<close>

theorem framed_roundtrip:
  assumes "postcard_ok P" "pc_encode P msg = Some p" "length p < 2 ^ 32"
    and "postcard_ok Q" "pc_encode Q req = Some q" "length q < 2 ^ 32"
    and "postcard_ok S" "pc_encode S resp = Some s" "length s < 2 ^ 32"
  shows "(\<exists>f. encode_framed_with_hlc P msg ts = Inr f \<and> decode_framed_with_hlc P (f @ rest) = Some (Inr (msg, ts))) \<and>
    (\<exists>f. encode_rpc_request Q req ts = Inr f \<and> decode_rpc_request Q (f @ rest) = Some (Inr (req, ts))) \<and>
    (\<exists>f. encode_rpc_response S resp ts = Inr f \<and> decode_rpc_response S (f @ rest) = Some (Inr (resp, ts)))"
  using decode_framed_frame[OF assms(1-3)] decode_rpc_frame[OF assms(4-6)] decode_rpc_frame[OF assms(7-9)] assms
  by (simp add: encode_framed_with_hlc_def encode_rpc_request_def encode_rpc_response_def
      decode_rpc_request_def decode_rpc_response_def)

theorem framed_roundtrip_witness:
  "let P = \<lparr>pc_encode = \<lambda>m. if m = Ping 7 then Some [1, 7] else None, pc_decode = \<lambda>b. if b = [1, 7] then Some (Ping 7) else None\<rparr>
   in \<exists>f. encode_framed_with_hlc P (Ping 7) 99 = Inr f \<and> decode_framed_with_hlc P (f @ [0, 0]) = Some (Inr (Ping 7, 99))"
proof -
  let ?P = "\<lparr>pc_encode = \<lambda>m. if m = Ping 7 then Some [1, 7] else None, pc_decode = \<lambda>b. if b = [1, 7] then Some (Ping 7) else None\<rparr>"
  let ?Q = "\<lparr>pc_encode = \<lambda>m. if m = ReqStatus then Some [0] else None, pc_decode = \<lambda>b. Some ReqStatus\<rparr>"
  let ?S = "\<lparr>pc_encode = \<lambda>m. if m = RespStoreGet None then Some [2] else None, pc_decode = \<lambda>b. Some (RespStoreGet None)\<rparr>"
  have "postcard_ok ?P" "postcard_ok ?Q" "postcard_ok ?S" by (auto simp: postcard_ok_def split: if_splits)
  from framed_roundtrip[OF this(1) _ _ this(2) _ _ this(3), of "Ping 7" "[1, 7]" ReqStatus "[0]" "RespStoreGet None" "[2]" 99 "[0, 0]"]
  show ?thesis unfolding Let_def by simp
qed

text \<open>
  C8. Decoding never panics: for every byte string, from any sender, the peer decoder and both RPC
  decoders return a message or an error; every index and every slice they take is in range.
\<close>

theorem decode_never_panics:
  "decode_framed_with_hlc P d \<noteq> None \<and> decode_framed P d \<noteq> None \<and>
   decode_rpc_request Q d \<noteq> None \<and> decode_rpc_response S d \<noteq> None"
proof -
  have "decode_framed_with_hlc P d \<noteq> None"
  proof (cases "length d < FRAME_HEADER_V0_SIZE")
    case True
    then show ?thesis by (simp add: decode_framed_with_hlc_def)
  next
    case False
    then show ?thesis
      by (auto simp: decode_framed_with_hlc_def wire_bounds FRAME_HEADER_V0_SIZE_def FRAME_HEADER_SIZE_def Let_def
          intro!: decode_payload_total simp del: not_None_eq)
  qed
  then show ?thesis
    by (simp add: decode_framed_def decode_rpc_request_def decode_rpc_response_def decode_rpc_total
        del: not_None_eq)
qed

text \<open>
  The tags of the SWIM messages are exactly the range 0x0100 to 0x0105, RPC tags are disjoint
  from all peer tags, and the peer decoder does not look at the tag: a frame decodes to its
  payload under any tag.
\<close>

theorem type_tag_classes:
  "(is_swim m \<longleftrightarrow> 0x0100 \<le> type_tag m \<and> type_tag m \<le> 0x0105) \<and>
   type_tag m \<noteq> TYPE_TAG_RPC_REQUEST \<and> type_tag m \<noteq> TYPE_TAG_RPC_RESPONSE \<and>
   decode_framed_with_hlc P (frame tag ts p) = decode_framed_with_hlc P (frame tag' ts p)"
proof -
  have "decode_framed_with_hlc P (frame tag ts p) = decode_framed_with_hlc P (frame tag' ts p)"
    by (rule decode_framed_same_tail) (simp_all add: frame_def)
  moreover have "(is_swim m \<longleftrightarrow> 0x0100 \<le> type_tag m \<and> type_tag m \<le> 0x0105) \<and>
      type_tag m \<noteq> TYPE_TAG_RPC_REQUEST \<and> type_tag m \<noteq> TYPE_TAG_RPC_RESPONSE"
    by (cases m) (simp_all add: TYPE_TAG_RPC_REQUEST_def TYPE_TAG_RPC_RESPONSE_def word_le_nat_alt)
  ultimately show ?thesis by blast
qed

end
