(* ===== verification/Host.thy ===== *)
theory Host
  imports Crypto Sql Wire
begin

text \<open>
  The functions the compute engine offers to its programs (craftec-com/src/host.rs) and the run of a
  program (runtime.rs).  A program passes 32-bit integers, which the host reads as addresses of the
  program's memory; a panic of the host is \<open>None\<close>.  The WebAssembly engine, the serializer of rows and
  the outcomes of input and output are parameters.
\<close>

section \<open>Addresses\<close>

type_synonym i32 = "32 word"
type_synonym i64 = "64 word"

text \<open>\<open>as usize\<close> extends the sign; \<open>saturating_add\<close> stops at the largest value, and \<open>+\<close> wraps.\<close>

definition i32_as_usize :: "i32 \<Rightarrow> u64" where
  "i32_as_usize w = scast w"

definition saturating_add64 :: "u64 \<Rightarrow> u64 \<Rightarrow> u64" where
  "saturating_add64 a b = (if unat a + unat b \<ge> 2 ^ 64 then - 1 else a + b)"

definition slice_usize :: "bytes \<Rightarrow> u64 \<Rightarrow> u64 \<Rightarrow> bytes option" where
  "slice_usize d a b = slice_at d (unat a) (unat b)"

section \<open>UTF-8\<close>

text \<open>\<open>str::from_utf8\<close> accepts exactly the well-formed sequences of the Unicode standard.\<close>

definition utf8_cont :: "nat \<Rightarrow> bool" where
  "utf8_cont b \<longleftrightarrow> 0x80 \<le> b \<and> b \<le> 0xBF"

definition utf8_second :: "nat \<Rightarrow> nat \<Rightarrow> bool" where
  "utf8_second a b \<longleftrightarrow> utf8_cont b \<and> (a = 0xE0 \<longrightarrow> 0xA0 \<le> b) \<and> (a = 0xED \<longrightarrow> b \<le> 0x9F) \<and> (a = 0xF0 \<longrightarrow> 0x90 \<le> b) \<and> (a = 0xF4 \<longrightarrow> b \<le> 0x8F)"

fun utf8_valid :: "nat list \<Rightarrow> bool" where
  "utf8_valid [] = True"
| "utf8_valid (a # as) =
     (if a < 0x80 then utf8_valid as
      else if 0xC2 \<le> a \<and> a \<le> 0xDF then (case as of b # bs \<Rightarrow> utf8_second a b \<and> utf8_valid bs | _ \<Rightarrow> False)
      else if 0xE0 \<le> a \<and> a \<le> 0xEF then (case as of b # c # cs \<Rightarrow> utf8_second a b \<and> utf8_cont c \<and> utf8_valid cs | _ \<Rightarrow> False)
      else if 0xF0 \<le> a \<and> a \<le> 0xF4 then
        (case as of b # c # d # ds \<Rightarrow> utf8_second a b \<and> utf8_cont c \<and> utf8_cont d \<and> utf8_valid ds | _ \<Rightarrow> False)
      else False)"

definition bytes_str :: "bytes \<Rightarrow> string" where
  "bytes_str bs = map (\<lambda>b. char_of (unat b)) bs"

definition from_utf8 :: "bytes \<Rightarrow> string option" where
  "from_utf8 bs = (if utf8_valid (map unat bs) then Some (bytes_str bs) else None)"

section \<open>The state of a call\<close>

definition SIGN_RATE_LIMIT :: u32 where "SIGN_RATE_LIMIT = 10"

record ('b, 'c, 'p) host_state =
  hs_store :: "('b, 'c) store"
  hs_database :: "('b, 'c, 'p) database option"
  hs_keystore :: key_store
  hs_scratch :: bytes
  hs_sign_count :: u32

definition host_state_new :: "('b, 'c) store \<Rightarrow> ('b, 'c, 'p) database option \<Rightarrow> key_store \<Rightarrow> ('b, 'c, 'p) host_state" where
  "host_state_new s db ks = \<lparr>hs_store = s, hs_database = db, hs_keystore = ks, hs_scratch = [], hs_sign_count = 0\<rparr>"

record ('b, 'c) host_api =
  ha_obj :: "('b, 'c) obj_api"
  ha_ed :: ed25519
  ha_engine :: sql_engine
  ha_encode_rows :: "column_value list list \<Rightarrow> bytes option"

text \<open>A program has a memory, if it exports one.\<close>

type_synonym memory = "bytes option"

section \<open>The host functions\<close>

definition craft_store_get ::
  "('b, 'c) host_api \<Rightarrow> io_faults \<Rightarrow> memory \<Rightarrow> i32 \<Rightarrow> i32 \<Rightarrow> ('b, 'c, 'p) host_state \<Rightarrow> (i64 \<times> ('b, 'c, 'p) host_state) option" where
  "craft_store_get H flt mem cid_ptr cid_len h =
     (case mem of
        None \<Rightarrow> Some (- 3, h)
      | Some md \<Rightarrow>
          let start = i32_as_usize cid_ptr; stop = saturating_add64 start (i32_as_usize cid_len)
          in if unat stop > length md \<or> cid_len \<noteq> 32 then Some (- 2, h)
             else Option.bind (slice_usize md start stop) (\<lambda>bs.
               if length bs \<noteq> 32 then None
               else case get (ha_obj H) flt (hs_store h) (Cid bs) of
                      (Inr (Some d), s) \<Rightarrow> Some (of_nat (length d), h\<lparr>hs_store := s, hs_scratch := d\<rparr>)
                    | (Inr None, s) \<Rightarrow> Some (- 1, h\<lparr>hs_store := s\<rparr>)
                    | (Inl e, s) \<Rightarrow> Some (- 3, h\<lparr>hs_store := s\<rparr>)))"

definition craft_store_put ::
  "('b, 'c) host_api \<Rightarrow> io_faults \<Rightarrow> memory \<Rightarrow> i32 \<Rightarrow> i32 \<Rightarrow> ('b, 'c, 'p) host_state \<Rightarrow> (i64 \<times> ('b, 'c, 'p) host_state) option" where
  "craft_store_put H flt mem data_ptr data_len h =
     (case mem of
        None \<Rightarrow> Some (- 3, h)
      | Some md \<Rightarrow>
          let start = i32_as_usize data_ptr; stop = saturating_add64 start (i32_as_usize data_len)
          in if unat stop > length md then Some (- 2, h)
             else Option.bind (slice_usize md start stop) (\<lambda>payload.
               case put (ha_obj H) flt (hs_store h) payload of
                 (Inr c, s) \<Rightarrow> Some (32, h\<lparr>hs_store := s, hs_scratch := cid_bytes c\<rparr>)
               | (Inl e, s) \<Rightarrow> Some (- 3, h\<lparr>hs_store := s\<rparr>)))"

definition craft_sql_query ::
  "('b, 'c) host_api \<Rightarrow> memory \<Rightarrow> i32 \<Rightarrow> i32 \<Rightarrow> ('b, 'c, 'p) host_state \<Rightarrow> (i64 \<times> ('b, 'c, 'p) host_state) option" where
  "craft_sql_query H mem sql_ptr sql_len h =
     (case mem of
        None \<Rightarrow> Some (- 3, h)
      | Some md \<Rightarrow>
          let start = i32_as_usize sql_ptr; stop = saturating_add64 start (i32_as_usize sql_len)
          in if unat stop > length md then Some (- 2, h)
             else Option.bind (slice_usize md start stop) (\<lambda>bs.
               case from_utf8 bs of
                 None \<Rightarrow> Some (- 2, h)
               | Some sql \<Rightarrow>
                   (case hs_database h of
                      None \<Rightarrow> Some (- 1, h)
                    | Some db \<Rightarrow>
                        (case database_query (ha_engine H) sql db of
                           (Inl e, db') \<Rightarrow> Some (- 2, h\<lparr>hs_database := Some db'\<rparr>)
                         | (Inr rows, db') \<Rightarrow>
                             (case ha_encode_rows H rows of
                                None \<Rightarrow> Some (- 3, h\<lparr>hs_database := Some db'\<rparr>)
                              | Some b \<Rightarrow> Some (of_nat (length b), h\<lparr>hs_database := Some db', hs_scratch := b\<rparr>))))))"

definition craft_sign ::
  "('b, 'c) host_api \<Rightarrow> memory \<Rightarrow> i32 \<Rightarrow> i32 \<Rightarrow> ('b, 'c, 'p) host_state \<Rightarrow> (i64 \<times> ('b, 'c, 'p) host_state) option" where
  "craft_sign H mem msg_ptr msg_len h =
     (if hs_sign_count h \<ge> SIGN_RATE_LIMIT then Some (- 1, h)
      else case mem of
             None \<Rightarrow> Some (- 3, h)
           | Some md \<Rightarrow>
               let start = i32_as_usize msg_ptr; stop = saturating_add64 start (i32_as_usize msg_len)
               in if unat stop > length md then Some (- 2, h)
                  else Option.bind (slice_usize md start stop) (\<lambda>msg.
                    Some (64, h\<lparr>hs_sign_count := hs_sign_count h + 1,
                                hs_scratch := signature_bytes (key_store_sign (ha_ed H) (hs_keystore h) msg)\<rparr>)))"

text \<open>The only function that writes the memory; its additions are unchecked.\<close>

definition craft_read_result :: "memory \<Rightarrow> i32 \<Rightarrow> i32 \<Rightarrow> i32 \<Rightarrow> ('b, 'c, 'p) host_state \<Rightarrow> (i32 \<times> memory) option" where
  "craft_read_result mem dst_ptr offset len h =
     (let off = i32_as_usize offset; n = i32_as_usize len
      in if unat (off + n) > length (hs_scratch h) then Some (- 1, mem)
         else Option.bind (slice_usize (hs_scratch h) off (off + n)) (\<lambda>chunk.
           case mem of
             None \<Rightarrow> Some (- 2, mem)
           | Some md \<Rightarrow>
               let dst = i32_as_usize dst_ptr
               in if unat (dst + n) > length md then Some (- 3, mem)
                  else Option.bind (slice_usize md dst (dst + n)) (\<lambda>old.
                    if length old \<noteq> length chunk then None
                    else Some (ucast n, Some (take (unat dst) md @ chunk @ drop (unat dst + unat n) md)))))"

datatype log_text = LogBytes bytes | LogOutOfBounds | LogNoMemory

definition craft_log :: "memory \<Rightarrow> i32 \<Rightarrow> i32 \<Rightarrow> i32 \<Rightarrow> (nat \<times> log_text) option" where
  "craft_log mem level msg_ptr msg_len =
     Option.bind (case mem of
         None \<Rightarrow> Some LogNoMemory
       | Some md \<Rightarrow>
           let start = i32_as_usize msg_ptr; stop = saturating_add64 start (i32_as_usize msg_len)
           in if unat stop \<le> length md then map_option LogBytes (slice_usize md start stop) else Some LogOutOfBounds)
       (\<lambda>msg. Some (if level = 0 then 0 else if level = 1 then 1 else if level = 2 then 2 else if level = 3 then 3 else 4, msg))"

text \<open>
  What one invocation does to the host: a sequence of calls of the registered functions, between which
  the program changes its own memory.
\<close>

datatype host_call =
    CallStoreGet io_faults i32 i32
  | CallStorePut io_faults i32 i32
  | CallSqlQuery i32 i32
  | CallSign i32 i32
  | CallReadResult i32 i32 i32
  | CallLog i32 i32 i32
  | GuestWrites bytes

fun host_step ::
  "('b, 'c) host_api \<Rightarrow> host_call \<Rightarrow> memory \<Rightarrow> ('b, 'c, 'p) host_state \<Rightarrow> (i64 \<times> memory \<times> ('b, 'c, 'p) host_state) option" where
  "host_step H (CallStoreGet flt p l) mem h = map_option (\<lambda>(r, h'). (r, mem, h')) (craft_store_get H flt mem p l h)"
| "host_step H (CallStorePut flt p l) mem h = map_option (\<lambda>(r, h'). (r, mem, h')) (craft_store_put H flt mem p l h)"
| "host_step H (CallSqlQuery p l) mem h = map_option (\<lambda>(r, h'). (r, mem, h')) (craft_sql_query H mem p l h)"
| "host_step H (CallSign p l) mem h = map_option (\<lambda>(r, h'). (r, mem, h')) (craft_sign H mem p l h)"
| "host_step H (CallReadResult d off l) mem h = map_option (\<lambda>(r, mem'). (scast r, mem', h)) (craft_read_result mem d off l h)"
| "host_step H (CallLog level p l) mem h = map_option (\<lambda>_. (0, mem, h)) (craft_log mem level p l)"
| "host_step H (GuestWrites md) mem h = Some (0, map_option (\<lambda>_. md) mem, h)"

fun host_run ::
  "('b, 'c) host_api \<Rightarrow> host_call list \<Rightarrow> memory \<Rightarrow> ('b, 'c, 'p) host_state \<Rightarrow> (i64 list \<times> memory \<times> ('b, 'c, 'p) host_state) option" where
  "host_run H [] mem h = Some ([], mem, h)"
| "host_run H (c # cs) mem h =
     (case host_step H c mem h of
        None \<Rightarrow> None
      | Some (r, mem', h') \<Rightarrow> map_option (\<lambda>(rs, x). (r # rs, x)) (host_run H cs mem' h'))"

section \<open>Running a program\<close>

datatype com_error =
    WasmCompilationFailed string
  | FuelExhausted u64 u64
  | HostFunctionError string string
  | ProgramNotFound cid
  | SchedulerError string
  | RuntimeConfigError string
  | EntryPointNotFound string
  | Trap string
  | ComSqlError sql_error

definition DEFAULT_FUEL_LIMIT :: u64 where "DEFAULT_FUEL_LIMIT = 10000000"

record com_runtime =
  cr_fuel_limit :: u64

text \<open>Creating the engine can fail; the limit is per execution.\<close>

definition com_runtime_new :: "bool \<Rightarrow> u64 \<Rightarrow> (com_runtime, com_error) result" where
  "com_runtime_new engine_ok fuel_limit = (if engine_ok then Inr \<lparr>cr_fuel_limit = fuel_limit\<rparr> else Inl (RuntimeConfigError ''engine''))"

definition com_runtime_with_default_fuel :: "bool \<Rightarrow> (com_runtime, com_error) result" where
  "com_runtime_with_default_fuel engine_ok = com_runtime_new engine_ok DEFAULT_FUEL_LIMIT"

text \<open>
  The WebAssembly engine: compiling a module, instantiating it with the host functions, finding a
  function, and calling it, which returns values or an error text and the fuel that is left.
\<close>

record ('m, 'i, 'v) wasm_api =
  wa_compile :: "bytes \<Rightarrow> string + 'm"
  wa_set_fuel :: "u64 \<Rightarrow> bool"
  wa_link :: bool
  wa_instantiate :: "'m \<Rightarrow> string + 'i"
  wa_entry :: "'i \<Rightarrow> string \<Rightarrow> bool"
  wa_call :: "'i \<Rightarrow> string \<Rightarrow> 'v list \<Rightarrow> (string + 'v list) \<times> u64 option"

fun str_contains :: "string \<Rightarrow> string \<Rightarrow> bool" where
  "str_contains pat [] \<longleftrightarrow> pat = []"
| "str_contains pat (x # xs) \<longleftrightarrow> take (length pat) (x # xs) = pat \<or> str_contains pat xs"

definition call_error :: "u64 \<Rightarrow> u64 option \<Rightarrow> string \<Rightarrow> com_error" where
  "call_error limit left err =
     (if str_contains ''fuel'' err \<or> str_contains ''Fuel'' err
      then FuelExhausted (limit - (case left of None \<Rightarrow> 0 | Some f \<Rightarrow> f)) limit
      else Trap err)"

definition execute_agent :: "('m, 'i, 'v) wasm_api \<Rightarrow> com_runtime \<Rightarrow> bytes \<Rightarrow> string \<Rightarrow> 'v list \<Rightarrow> ('v list, com_error) result" where
  "execute_agent W rt wasm_bytes entry_point args =
     (case wa_compile W wasm_bytes of
        Inl e \<Rightarrow> Inl (WasmCompilationFailed e)
      | Inr m \<Rightarrow>
          if \<not> wa_set_fuel W (cr_fuel_limit rt) then Inl (RuntimeConfigError ''set_fuel'')
          else if \<not> wa_link W then Inl (RuntimeConfigError ''register'')
          else case wa_instantiate W m of
                 Inl e \<Rightarrow> Inl (Trap e)
               | Inr i \<Rightarrow>
                   if \<not> wa_entry W i entry_point then Inl (EntryPointNotFound entry_point)
                   else case wa_call W i entry_point args of
                          (Inl e, left) \<Rightarrow> Inl (call_error (cr_fuel_limit rt) left e)
                        | (Inr vs, left) \<Rightarrow> Inr vs)"

lemma com_runtime_new_case [simp]:
  "(case com_runtime_new ok f of Inl e \<Rightarrow> x e | Inr rt \<Rightarrow> y rt) = (if ok then y \<lparr>cr_fuel_limit = f\<rparr> else x (RuntimeConfigError ''engine''))"
  by (simp add: com_runtime_new_def)

section \<open>Address arithmetic\<close>

lemma sint_i32_bounds: "- (2 ^ 31) \<le> sint (w :: i32)" "sint (w :: i32) < 2 ^ 31"
  using sint_greater_eq[of w] sint_less[of w] by simp_all

lemma uint_as_usize: "uint (i32_as_usize w) = sint w mod 2 ^ 64"
  unfolding i32_as_usize_def by (simp add: unsigned_of_int take_bit_eq_mod signed_def)

lemma unat_as_usize:
  "0 \<le> sint w \<Longrightarrow> unat (i32_as_usize w) = nat (sint w)" "sint w < 0 \<Longrightarrow> unat (i32_as_usize w) = nat (sint w + 2 ^ 64)"
proof -
  assume "0 \<le> sint w"
  then show "unat (i32_as_usize w) = nat (sint w)"
    using sint_i32_bounds(2)[of w] by (simp add: unat_eq_nat_uint uint_as_usize)
next
  assume w: "sint w < 0"
  have "sint w mod 2 ^ 64 = (sint w + 2 ^ 64) mod 2 ^ 64" by simp
  also have "\<dots> = sint w + 2 ^ 64" using w sint_i32_bounds(1)[of w] by (intro mod_pos_pos_trivial) simp_all
  finally show "unat (i32_as_usize w) = nat (sint w + 2 ^ 64)" by (simp add: unat_eq_nat_uint uint_as_usize)
qed

lemma unat_saturating_add: "unat (saturating_add64 a b) = min (unat a + unat b) (2 ^ 64 - 1)"
proof (cases "unat a + unat b \<ge> 2 ^ 64")
  case True
  have "unat (- 1 :: u64) = 2 ^ 64 - 1" by (simp add: unsigned_minus_1_eq_mask mask_eq_exp_minus_1)
  then show ?thesis using True by (simp add: saturating_add64_def)
next
  case False
  then have "unat (a + b) = unat a + unat b" by (simp add: unat_word_ariths)
  then show ?thesis using False by (simp add: saturating_add64_def min_def)
qed

text \<open>What a pair of arguments means: a range of the memory, if it is one.\<close>

definition guest_range :: "bytes \<Rightarrow> i32 \<Rightarrow> i32 \<Rightarrow> bytes option" where
  "guest_range md p l =
     (if 0 \<le> sint p \<and> 0 \<le> sint l \<and> sint p + sint l \<le> int (length md)
      then Some (slice (nat (sint p)) (nat (sint p + sint l)) md) else None)"

lemma checked_range:
  assumes "length md \<le> 2 ^ 32"
  shows "(if unat (saturating_add64 (i32_as_usize p) (i32_as_usize l)) > length md then None
    else slice_usize md (i32_as_usize p) (saturating_add64 (i32_as_usize p) (i32_as_usize l))) = guest_range md p l"
    and "unat (saturating_add64 (i32_as_usize p) (i32_as_usize l)) > length md \<longleftrightarrow> guest_range md p l = None"
proof -
  let ?a = "unat (i32_as_usize p)" and ?b = "unat (i32_as_usize l)"
  have c: "guest_range md p l = (if ?a + ?b \<le> length md then Some (slice ?a (?a + ?b) md) else None)"
  proof (cases "0 \<le> sint p \<and> 0 \<le> sint l")
    case True
    then have "?a = nat (sint p)" "?b = nat (sint l)" by (simp_all add: unat_as_usize)
    then show ?thesis using True by (auto simp: guest_range_def nat_add_distrib zle_int[symmetric])
  next
    case False
    then have "?a = nat (sint p + 2 ^ 64) \<and> sint p < 0 \<or> ?b = nat (sint l + 2 ^ 64) \<and> sint l < 0"
      using unat_as_usize(2)[of p] unat_as_usize(2)[of l] by linarith
    then have "?a + ?b > 2 ^ 32" using sint_i32_bounds(1)[of p] sint_i32_bounds(1)[of l] by auto
    then show ?thesis using False assms by (auto simp: guest_range_def)
  qed
  show "(if unat (saturating_add64 (i32_as_usize p) (i32_as_usize l)) > length md then None
      else slice_usize md (i32_as_usize p) (saturating_add64 (i32_as_usize p) (i32_as_usize l))) = guest_range md p l"
    using assms by (auto simp: c unat_saturating_add slice_usize_def slice_at_def min_def)
  show "unat (saturating_add64 (i32_as_usize p) (i32_as_usize l)) > length md \<longleftrightarrow> guest_range md p l = None"
    using assms by (auto simp: c unat_saturating_add min_def)
qed

lemma checked_bind:
  assumes "length md \<le> 2 ^ 32"
  shows "(if unat (saturating_add64 (i32_as_usize p) (i32_as_usize l)) > length md then x
    else Option.bind (slice_usize md (i32_as_usize p) (saturating_add64 (i32_as_usize p) (i32_as_usize l))) f) =
    (case guest_range md p l of None \<Rightarrow> x | Some bs \<Rightarrow> f bs)"
  using checked_range[OF assms, of p l] by (auto split: option.splits if_splits)

lemma guest_range_length: "guest_range md p l = Some bs \<Longrightarrow> length bs = nat (sint l)"
  by (auto simp: guest_range_def split: if_splits)

lemma craft_store_put_range:
  assumes "length md \<le> 2 ^ 32"
  shows "craft_store_put H flt (Some md) p l h =
      (case guest_range md p l of None \<Rightarrow> Some (- 2, h)
       | Some d \<Rightarrow> (case put (ha_obj H) flt (hs_store h) d of
           (Inr c, s) \<Rightarrow> Some (32, h\<lparr>hs_store := s, hs_scratch := cid_bytes c\<rparr>) | (Inl e, s) \<Rightarrow> Some (- 3, h\<lparr>hs_store := s\<rparr>)))"
  by (simp only: craft_store_put_def option.case Let_def checked_bind[OF assms])

lemma craft_store_get_range:
  assumes "length md \<le> 2 ^ 32"
  shows "craft_store_get H flt (Some md) p l h =
      (case (if l = 32 then guest_range md p l else None) of None \<Rightarrow> Some (- 2, h)
       | Some bs \<Rightarrow> (case get (ha_obj H) flt (hs_store h) (Cid bs) of
           (Inr (Some d), s) \<Rightarrow> Some (of_nat (length d), h\<lparr>hs_store := s, hs_scratch := d\<rparr>)
         | (Inr None, s) \<Rightarrow> Some (- 1, h\<lparr>hs_store := s\<rparr>) | (Inl e, s) \<Rightarrow> Some (- 3, h\<lparr>hs_store := s\<rparr>)))"
  using guest_range_length[of md p l] unfolding craft_store_get_def option.case Let_def
  by (cases "l = 32"; cases "guest_range md p l") (simp_all only: simp_thms if_False if_True not_True_eq_False checked_bind[OF assms] option.case, simp_all)

lemma craft_sign_range:
  assumes "length md \<le> 2 ^ 32"
  shows "craft_sign H (Some md) p l h =
      (if hs_sign_count h \<ge> 10 then Some (- 1, h)
       else case guest_range md p l of None \<Rightarrow> Some (- 2, h)
       | Some msg \<Rightarrow> Some (64, h\<lparr>hs_sign_count := hs_sign_count h + 1,
           hs_scratch := signature_bytes (key_store_sign (ha_ed H) (hs_keystore h) msg)\<rparr>))"
  by (simp only: craft_sign_def option.case Let_def checked_bind[OF assms] SIGN_RATE_LIMIT_def)

lemma craft_sql_query_range:
  assumes "length md \<le> 2 ^ 32"
  shows "craft_sql_query H (Some md) p l h =
      (case guest_range md p l of None \<Rightarrow> Some (- 2, h)
       | Some bs \<Rightarrow> (case from_utf8 bs of None \<Rightarrow> Some (- 2, h)
         | Some sql \<Rightarrow> (case hs_database h of None \<Rightarrow> Some (- 1, h)
           | Some db \<Rightarrow> (case database_query (ha_engine H) sql db of
               (Inl e, db') \<Rightarrow> Some (- 2, h\<lparr>hs_database := Some db'\<rparr>)
             | (Inr rows, db') \<Rightarrow> (case ha_encode_rows H rows of
                 None \<Rightarrow> Some (- 3, h\<lparr>hs_database := Some db'\<rparr>)
               | Some b \<Rightarrow> Some (of_nat (length b), h\<lparr>hs_database := Some db', hs_scratch := b\<rparr>))))))"
  by (simp only: craft_sql_query_def option.case Let_def checked_bind[OF assms])

lemmas host_range = craft_store_put_range craft_store_get_range craft_sign_range craft_sql_query_range


lemma unat_add_usize:
  "0 \<le> sint a + sint b \<Longrightarrow> unat (i32_as_usize a + i32_as_usize b) = nat (sint a + sint b)"
  "sint a + sint b < 0 \<Longrightarrow> 2 ^ 63 \<le> unat (i32_as_usize a + i32_as_usize b)"
proof -
  have u: "unat (i32_as_usize a + i32_as_usize b) = nat ((sint a + sint b) mod 2 ^ 64)"
    by (simp add: unat_eq_nat_uint uint_word_ariths uint_as_usize mod_add_eq)
  note b = sint_i32_bounds[of a] sint_i32_bounds[of b]
  show "0 \<le> sint a + sint b \<Longrightarrow> unat (i32_as_usize a + i32_as_usize b) = nat (sint a + sint b)"
    unfolding u using b by simp
  assume n: "sint a + sint b < 0"
  have "(sint a + sint b) mod 2 ^ 64 = (sint a + sint b + 2 ^ 64) mod 2 ^ 64" by simp
  also have "\<dots> = sint a + sint b + 2 ^ 64" using n b by (intro mod_pos_pos_trivial) simp_all
  finally show "2 ^ 63 \<le> unat (i32_as_usize a + i32_as_usize b)" unfolding u using b by simp
qed

lemma slice_usize_add:
  assumes "0 \<le> sint a + sint l" "sint a + sint l \<le> int (length d)"
  shows "slice_usize d (i32_as_usize a) (i32_as_usize a + i32_as_usize l) =
    (if 0 \<le> sint a \<and> 0 \<le> sint l then Some (take (nat (sint l)) (drop (nat (sint a)) d)) else None)"
proof (cases "0 \<le> sint a")
  case True
  then show ?thesis using assms
    by (auto simp: slice_usize_def slice_at_def slice_def unat_add_usize unat_as_usize drop_take nat_add_distrib nat_diff_distrib)
next
  case False
  then have "unat (i32_as_usize a) > nat (sint a + sint l)"
    using assms sint_i32_bounds[of a] sint_i32_bounds[of l] by (simp add: unat_as_usize)
  then show ?thesis using False assms by (auto simp: slice_usize_def slice_at_def unat_add_usize)
qed

lemma ucast_as_usize: "ucast (i32_as_usize w) = w"
  unfolding i32_as_usize_def by (rule bit_word_eqI) (auto simp: bit_simps)

lemma read_result_eq:
  assumes "length (hs_scratch h) < 2 ^ 63" "length md \<le> 2 ^ 32"
  shows "craft_read_result (Some md) dst off len h =
    (let d = sint dst; j = sint off; n = sint len; s = hs_scratch h
     in if j + n < 0 \<or> int (length s) < j + n then Some (- 1, Some md)
        else if j < 0 \<or> n < 0 then None
        else if d + n < 0 \<or> int (length md) < d + n then Some (- 3, Some md)
        else if d < 0 then None
        else Some (len, Some (take (nat d) md @ take (nat n) (drop (nat j) s) @ drop (nat (d + n)) md)))"
proof (cases "sint off + sint len < 0 \<or> int (length (hs_scratch h)) < sint off + sint len")
  case True
  then have "unat (i32_as_usize off + i32_as_usize len) > length (hs_scratch h)"
    using unat_add_usize[of off len] assms(1) by (cases "0 \<le> sint off + sint len") auto
  then show ?thesis using True by (simp add: craft_read_result_def Let_def)
next
  case ok: False
  then have "\<not> unat (i32_as_usize off + i32_as_usize len) > length (hs_scratch h)"
    by (simp add: unat_add_usize not_less nat_le_iff)
  moreover have "slice_usize (hs_scratch h) (i32_as_usize off) (i32_as_usize off + i32_as_usize len) =
    (if 0 \<le> sint off \<and> 0 \<le> sint len then Some (take (nat (sint len)) (drop (nat (sint off)) (hs_scratch h))) else None)"
    using ok by (intro slice_usize_add) simp_all
  moreover have l: "0 \<le> sint off \<Longrightarrow> 0 \<le> sint len \<Longrightarrow>
      length (take (nat (sint len)) (drop (nat (sint off)) (hs_scratch h))) = nat (sint len)"
    using ok by simp
  ultimately have r: "craft_read_result (Some md) dst off len h =
      (if sint off < 0 \<or> sint len < 0 then None
       else if unat (i32_as_usize dst + i32_as_usize len) > length md then Some (- 3, Some md)
       else Option.bind (slice_usize md (i32_as_usize dst) (i32_as_usize dst + i32_as_usize len)) (\<lambda>old.
         if length old \<noteq> nat (sint len) then None
         else Some (len, Some (take (unat (i32_as_usize dst)) md @ take (nat (sint len)) (drop (nat (sint off)) (hs_scratch h)) @
           drop (unat (i32_as_usize dst) + unat (i32_as_usize len)) md))))"
    unfolding craft_read_result_def Let_def ucast_as_usize using l by auto
  show ?thesis
  proof (cases "sint dst + sint len < 0 \<or> int (length md) < sint dst + sint len")
    case True
    then have "unat (i32_as_usize dst + i32_as_usize len) > length md"
      using unat_add_usize[of dst len] assms(2) by (cases "0 \<le> sint dst + sint len") auto
    then show ?thesis using True ok by (simp add: r Let_def)
  next
    case False
    then have "\<not> unat (i32_as_usize dst + i32_as_usize len) > length md" by (simp add: unat_add_usize not_less nat_le_iff)
    moreover have "slice_usize md (i32_as_usize dst) (i32_as_usize dst + i32_as_usize len) =
      (if 0 \<le> sint dst \<and> 0 \<le> sint len then Some (take (nat (sint len)) (drop (nat (sint dst)) md)) else None)"
      using False by (intro slice_usize_add) simp_all
    ultimately show ?thesis using False ok
      by (auto simp: r Let_def unat_as_usize nat_add_distrib min_def)
  qed
qed

text \<open>
  C27. What \<open>craft_read_result\<close> does on every argument.  It copies the named part of the last result to the
  named place of the memory when both ranges exist, and refuses a range past the end.  But its
  additions are not saturating, as those of the other host functions are: an argument that is negative
  with a sum that is in range, such as offset -1 and length 1, passes the check and panics the host.
\<close>

theorem read_result_exact:
  assumes "length (hs_scratch h) < 2 ^ 63" "length md \<le> 2 ^ 32"
  shows "craft_read_result (Some md) dst off len h =
    (let d = sint dst; j = sint off; n = sint len; s = hs_scratch h
     in if j + n < 0 \<or> int (length s) < j + n then Some (- 1, Some md)
        else if j < 0 \<or> n < 0 then None
        else if d + n < 0 \<or> int (length md) < d + n then Some (- 3, Some md)
        else if d < 0 then None
        else Some (len, Some (take (nat d) md @ take (nat n) (drop (nat j) s) @ drop (nat (d + n)) md))) \<and>
    craft_read_result (Some md) dst (- 1) 1 h = None"
  using read_result_eq[OF assms, of dst off len] read_result_eq[OF assms, of dst "- 1" 1] by (simp add: Let_def)

definition signed_call :: "host_call \<Rightarrow> i64 \<Rightarrow> bool" where
  "signed_call c r \<longleftrightarrow> (case c of CallSign p l \<Rightarrow> r = 64 | _ \<Rightarrow> False)"

lemma host_step_sign:
  assumes "host_step H c mem h = Some (r, mem', h')" "hs_sign_count h \<le> 10"
  shows "hs_keystore h' = hs_keystore h \<and> hs_sign_count h' \<le> 10 \<and>
    unat (hs_sign_count h') = unat (hs_sign_count h) + (if signed_call c r then 1 else 0)"
proof (cases c)
  case (CallSign p l)
  have "hs_sign_count h < 10 \<Longrightarrow> hs_sign_count h + 1 \<le> 10 \<and> unat (hs_sign_count h + 1) = unat (hs_sign_count h) + 1"
    by (auto simp: word_less_nat_alt word_le_nat_alt unat_word_ariths)
  then show ?thesis using assms CallSign
    by (auto simp: craft_sign_def signed_call_def Let_def SIGN_RATE_LIMIT_def not_le split: if_splits option.splits bind_splits)
qed (use assms in \<open>auto simp: craft_store_get_def craft_store_put_def craft_sql_query_def signed_call_def Let_def
  split: if_splits option.splits bind_splits prod.splits sum.splits\<close>)

lemma host_run_sign:
  "host_run H cs mem h = Some (rs, mem', h') \<Longrightarrow> hs_sign_count h \<le> 10 \<Longrightarrow>
   hs_keystore h' = hs_keystore h \<and> hs_sign_count h' \<le> 10 \<and> length rs = length cs \<and>
   unat (hs_sign_count h') = unat (hs_sign_count h) + length (filter (\<lambda>(c, r). signed_call c r) (zip cs rs))"
proof (induction cs arbitrary: mem h rs)
  case (Cons c cs)
  then obtain r m1 h1 rs1 where s: "host_step H c mem h = Some (r, m1, h1)" "host_run H cs m1 h1 = Some (rs1, mem', h')" "rs = r # rs1"
    by (auto split: option.splits)
  show ?case using host_step_sign[OF s(1) Cons.prems(2)] Cons.IH[OF s(2)] s(3) by auto
qed simp

text \<open>
  However a program calls the host, with any arguments and any failures of the storage, one
  invocation obtains at most ten signatures: every one is counted, the counter does not wrap, and no
  call changes the key that signs.
\<close>

theorem sign_limit:
  assumes "host_run H cs mem (host_state_new s db ks) = Some (rs, mem', h')"
  shows "length (filter (\<lambda>(c, r). signed_call c r) (zip cs rs)) = unat (hs_sign_count h') \<and>
    unat (hs_sign_count h') \<le> 10 \<and> hs_keystore h' = ks"
  using host_run_sign[OF assms] by (auto simp: host_state_new_def word_le_nat_alt)

text \<open>
  A program can store bytes and get them back.  On a clean store, when the disk works and the
  named ranges lie in the memory, storing answers 32, copying the 32 bytes of the result writes the
  content identifier into the memory and nowhere else, and asking for the object at that place returns
  the length of the bytes, which are then the result to copy.
\<close>

theorem guest_store_roundtrip:
  assumes "store_clean (ha_obj H) (hs_store h)" "length md \<le> 2 ^ 32" "guest_range md p l = Some d"
    and "obj_lookup (ha_obj H) (hs_store h) (cid_from_data (oa_b3 (ha_obj H)) d) \<in> {None, Some d}"
    and "0 \<le> sint dst" "sint dst + 32 \<le> int (length md)"
  shows "\<exists>h'. host_run H [CallStorePut no_faults p l, CallReadResult dst 0 32, CallStoreGet no_faults dst 32] (Some md) h =
      Some ([32, 32, of_nat (length d)],
        Some (take (nat (sint dst)) md @ cid_bytes (cid_from_data (oa_b3 (ha_obj H)) d) @ drop (nat (sint dst + 32)) md), h') \<and>
    hs_scratch h' = d \<and> store_clean (ha_obj H) (hs_store h')"
proof -
  let ?A = "ha_obj H" and ?c = "cid_from_data (oa_b3 (ha_obj H)) d"
  obtain s where s: "put ?A no_faults (hs_store h) d = (Inr ?c, s)"
    using put_succeeds[of no_faults ?A "hs_store h" d] by (cases "put ?A no_faults (hs_store h) d") (simp add: no_faults_def)
  note pc = put_clean[OF assms(1), where flt = no_faults and d = d, unfolded s snd_conv fst_conv]
  have wf: "length (cid_bytes ?c) = 32"
    using cid_from_data_wf[OF store_inv_api(4)[OF store_cleanD(1)[OF assms(1)]]] by (simp add: cid_wf_def CID_SIZE_def)
  have look: "obj_lookup ?A s ?c = Some d" using pc(2)[of ?c] pc(5) assms(4) by auto
  define h1 where "h1 = h\<lparr>hs_store := s, hs_scratch := cid_bytes ?c\<rparr>"
  define md1 where "md1 = take (nat (sint dst)) md @ cid_bytes ?c @ drop (nat (sint dst + 32)) md"
  have dn: "nat (sint dst) + 32 \<le> length md" "nat (sint dst + 32) = nat (sint dst) + 32" using assms(5,6) by simp_all
  have l1: "length md1 = length md" using dn wf by (simp add: md1_def)
  have 1: "craft_store_put H no_faults (Some md) p l h = Some (32, h1)"
    by (simp add: craft_store_put_range[OF assms(2)] assms(3) s h1_def)
  have 2: "craft_read_result (Some md) dst 0 32 h1 = Some (32, Some md1)"
    using assms(2,5,6) wf by (subst read_result_eq) (auto simp: h1_def md1_def Let_def)
  have g: "guest_range md1 dst 32 = Some (cid_bytes ?c)"
    using assms(5,6) wf dn l1 by (simp add: guest_range_def md1_def slice_def)
  obtain s' where s': "get ?A no_faults s ?c = (Inr (Some d), s')"
    using get_clean(2)[OF pc(1), of no_faults ?c] look wf
    by (cases "get ?A no_faults s ?c") (simp add: no_faults_def cid_wf_def CID_SIZE_def)
  have 3: "craft_store_get H no_faults (Some md1) dst 32 h1 = Some (of_nat (length d), h1\<lparr>hs_store := s', hs_scratch := d\<rparr>)"
    using assms(2) l1 by (simp add: craft_store_get_range g s' h1_def)
  have "store_clean ?A s'" using get_keeps_clean[OF pc(1), of no_faults ?c] s' by (simp add: no_faults_def)
  then show ?thesis by (simp add: 1 2 3 md1_def[symmetric])
qed

definition demo_host :: "(bytes list, cid \<Rightarrow> bytes option) host_api" where
  "demo_host = \<lparr>ha_obj = demo_api, ha_ed = demo_ed, ha_engine = demo_engine, ha_encode_rows = \<lambda>_. Some []\<rparr>"

definition demo_host_state :: "(bytes list, cid \<Rightarrow> bytes option, cid \<times> u32 \<Rightarrow> bytes option) host_state" where
  "demo_host_state = host_state_new (store_new demo_api [] 4) None \<lparr>ks_keypair = NodeKeypair [1]\<rparr>"

definition demo_memory :: bytes where
  "demo_memory = 7 # replicate 40 0"


theorem read_result_exact_witness:
  "craft_read_result (Some demo_memory) 0 (- 1) 1 demo_host_state = None \<and>
   craft_read_result (Some demo_memory) 0 0 0 demo_host_state = Some (0, Some demo_memory)"
  using read_result_exact[of demo_host_state demo_memory 0 0 0] by (simp add: demo_host_state_def host_state_new_def demo_memory_def)

theorem sign_limit_witness:
  "\<exists>rs mem h. host_run demo_host (replicate 12 (CallSign 0 1)) (Some demo_memory) demo_host_state = Some (rs, mem, h) \<and>
     length (filter (\<lambda>(c, r). signed_call c r) (zip (replicate 12 (CallSign 0 1)) rs)) \<le> 10 \<and> hs_sign_count h = 10"
proof -
  have l: "length demo_memory \<le> 2 ^ 32" by (simp add: demo_memory_def)
  have g: "guest_range demo_memory 0 1 = Some [7]" by (simp add: guest_range_def demo_memory_def slice_def)
  have r: "replicate (numeral k) x = x # replicate (pred_numeral k) x" for k and x :: host_call by (simp add: numeral_eq_Suc)
  have "\<exists>rs mem h. host_run demo_host (replicate 12 (CallSign 0 1)) (Some demo_memory) demo_host_state = Some (rs, mem, h) \<and> hs_sign_count h = 10"
    by (simp add: r craft_sign_range[OF l] g demo_host_state_def host_state_new_def word_le_nat_alt)
  then show ?thesis unfolding demo_host_state_def using sign_limit by fastforce
qed

theorem guest_store_roundtrip_witness:
  "\<exists>mem h'. host_run demo_host [CallStorePut no_faults 0 1, CallReadResult 2 0 32, CallStoreGet no_faults 2 32] (Some demo_memory) demo_host_state =
      Some ([32, 32, 1], mem, h') \<and> hs_scratch h' = [7]"
proof -
  have "store_clean (ha_obj demo_host) (hs_store demo_host_state)"
    by (simp add: demo_host_def demo_host_state_def host_state_new_def demo_new_clean)
  moreover have "guest_range demo_memory 0 1 = Some [7]" by (simp add: guest_range_def demo_memory_def slice_def)
  moreover have "obj_lookup (ha_obj demo_host) (hs_store demo_host_state) (cid_from_data (oa_b3 (ha_obj demo_host)) [7]) \<in> {None, Some [7]}"
    by (simp add: demo_host_state_def host_state_new_def obj_lookup_def store_new_def fs_lookup_def)
  ultimately show ?thesis
    using guest_store_roundtrip[of demo_host demo_host_state demo_memory 0 1 "[7]" 2] by (auto simp: demo_memory_def)
qed

end
