(* ===== verification/Scheduler.thy ===== *)
theory Scheduler
  imports Host
begin

text \<open>
  The scheduler of the compute engine (craftec-com/src/scheduler.rs).  Loading, starting and stopping
  a program act on shared tables; a started program is a task that runs its entry point again and
  again.  A task gives up control only while it sleeps, so an abort takes effect there, and a call of
  \<open>start_program\<close> only while it fetches the program; what happens between two such points is one step.
  The result of a run is arbitrary: \<open>None\<close> is a panic of the task.
\<close>

section \<open>Program states\<close>

datatype program_state =
    Loaded cid nat
  | Running cid nat
  | Stopped cid string
  | Quarantined cid string

fun program_wasm_cid :: "program_state \<Rightarrow> cid" where
  "program_wasm_cid (Loaded c t) = c"
| "program_wasm_cid (Running c t) = c"
| "program_wasm_cid (Stopped c r) = c"
| "program_wasm_cid (Quarantined c r) = c"

fun program_is_running :: "program_state \<Rightarrow> bool" where
  "program_is_running (Running c t) = True"
| "program_is_running _ = False"

fun program_label :: "program_state \<Rightarrow> string" where
  "program_label (Loaded c t) = ''loaded''"
| "program_label (Running c t) = ''running''"
| "program_label (Stopped c r) = ''stopped''"
| "program_label (Quarantined c r) = ''quarantined''"

definition CRASH_QUARANTINE_THRESHOLD :: u32 where "CRASH_QUARANTINE_THRESHOLD = 10"

section \<open>The scheduler and its tasks\<close>

record scheduler =
  sc_programs :: "cid \<rightharpoonup> program_state"
  sc_handles :: "cid \<rightharpoonup> nat"
  sc_crash_counts :: "cid \<rightharpoonup> u32"

definition scheduler_new :: scheduler where
  "scheduler_new = \<lparr>sc_programs = Map.empty, sc_handles = Map.empty, sc_crash_counts = Map.empty\<rparr>"

text \<open>A task is ready to run its program, runs it, sleeps for some milliseconds, or has ended.\<close>

datatype task_phase = Ready | Executing | Sleeping nat | Ended

record prog_task =
  pt_cid :: cid
  pt_wasm :: bytes
  pt_crashes :: u32
  pt_phase :: task_phase
  pt_aborted :: bool

text \<open>The system: the tables, every task ever spawned, and the calls of \<open>start_program\<close> that are fetching.\<close>

record sched_system =
  ss_sched :: scheduler
  ss_tasks :: "prog_task list"
  ss_starts :: "cid list"

definition system_new :: sched_system where
  "system_new = \<lparr>ss_sched = scheduler_new, ss_tasks = [], ss_starts = []\<rparr>"

definition set_program :: "cid \<Rightarrow> program_state \<Rightarrow> scheduler \<Rightarrow> scheduler" where
  "set_program c st sc = sc\<lparr>sc_programs := (sc_programs sc)(c \<mapsto> st)\<rparr>"

definition set_crashes :: "cid \<Rightarrow> u32 \<Rightarrow> scheduler \<Rightarrow> scheduler" where
  "set_crashes c n sc = sc\<lparr>sc_crash_counts := (sc_crash_counts sc)(c \<mapsto> n)\<rparr>"

definition load_program ::
  "('m, 'i, 'v) wasm_api \<Rightarrow> nat \<Rightarrow> cid \<Rightarrow> bytes \<Rightarrow> sched_system \<Rightarrow> (unit, com_error) result \<times> sched_system" where
  "load_program W now c wasm_bytes sys =
     (case wa_compile W wasm_bytes of
        Inl e \<Rightarrow> (Inl (WasmCompilationFailed e), sys)
      | Inr m \<Rightarrow> (Inr (), sys\<lparr>ss_sched := set_program c (Loaded c now) (ss_sched sys)\<rparr>))"

definition start_check :: "cid \<Rightarrow> scheduler \<Rightarrow> (unit, com_error) result" where
  "start_check c sc =
     (case sc_programs sc c of
        None \<Rightarrow> Inl (ProgramNotFound c)
      | Some (Running _ _) \<Rightarrow> Inl (SchedulerError ''already running'')
      | Some (Quarantined _ _) \<Rightarrow> Inl (SchedulerError ''quarantined'')
      | Some _ \<Rightarrow> Inr ())"

definition start_spawn :: "nat \<Rightarrow> cid \<Rightarrow> bytes \<Rightarrow> sched_system \<Rightarrow> sched_system" where
  "start_spawn now c wasm_bytes sys =
     (let sc = set_crashes c 0 (set_program c (Running c now) (ss_sched sys));
          tsk = \<lparr>pt_cid = c, pt_wasm = wasm_bytes, pt_crashes = 0, pt_phase = Ready, pt_aborted = False\<rparr>
      in sys\<lparr>ss_sched := sc\<lparr>sc_handles := (sc_handles sc)(c \<mapsto> length (ss_tasks sys))\<rparr>, ss_tasks := ss_tasks sys @ [tsk]\<rparr>)"

text \<open>What the fetch answers decides how a call that passed the check goes on.\<close>

definition start_fetched ::
  "nat \<Rightarrow> cid \<Rightarrow> (bytes option, obj_error) result \<Rightarrow> sched_system \<Rightarrow> (unit, com_error) result \<times> sched_system" where
  "start_fetched now c r sys =
     (case r of
        Inl e \<Rightarrow> (Inl (SchedulerError ''store error''), sys)
      | Inr None \<Rightarrow> (Inl (SchedulerError ''WASM binary not found in store''), sys)
      | Inr (Some bs) \<Rightarrow> (Inr (), start_spawn now c bs sys))"

definition start_program ::
  "('b, 'c) obj_api \<Rightarrow> io_faults \<Rightarrow> nat \<Rightarrow> cid \<Rightarrow> ('b, 'c) store \<Rightarrow> sched_system \<Rightarrow>
   (unit, com_error) result \<times> ('b, 'c) store \<times> sched_system" where
  "start_program A flt now c s sys =
     (case start_check c (ss_sched sys) of
        Inl e \<Rightarrow> (Inl e, s, sys)
      | Inr _ \<Rightarrow> let (r, s') = get A flt s c; (x, sys') = start_fetched now c r sys in (x, s', sys'))"

text \<open>
  Aborting a task that is not running its program ends it; one that is running goes on to its next sleep.
\<close>

definition abort_task :: "prog_task \<Rightarrow> prog_task" where
  "abort_task tsk = tsk\<lparr>pt_aborted := True, pt_phase := (if pt_phase tsk = Executing then Executing else Ended)\<rparr>"

definition stop_program :: "cid \<Rightarrow> string \<Rightarrow> sched_system \<Rightarrow> (unit, com_error) result \<times> sched_system" where
  "stop_program c reason sys =
     (let sc = ss_sched sys
      in case sc_programs sc c of
           None \<Rightarrow> (Inl (ProgramNotFound c), sys)
         | Some _ \<Rightarrow>
             (Inr (),
              sys\<lparr>ss_tasks := (case sc_handles sc c of
                     None \<Rightarrow> ss_tasks sys
                   | Some i \<Rightarrow> (ss_tasks sys)[i := abort_task (ss_tasks sys ! i)]),
                  ss_sched := set_program c (Stopped c reason) (sc\<lparr>sc_handles := (sc_handles sc)(c := None)\<rparr>)\<rparr>))"

definition scheduler_is_running :: "scheduler \<Rightarrow> cid \<Rightarrow> bool" where
  "scheduler_is_running sc c = (case sc_programs sc c of None \<Rightarrow> False | Some st \<Rightarrow> program_is_running st)"

definition scheduler_state :: "scheduler \<Rightarrow> cid \<Rightarrow> program_state option" where
  "scheduler_state sc c = sc_programs sc c"

section \<open>The loop of a task\<close>

definition backoff_secs :: "u32 \<Rightarrow> u64" where
  "backoff_secs n = push_bit (unat (min n 6)) 1"

text \<open>One run: what it does to the tables, the crash count of the task, and the sleep or the end.\<close>

definition after_run ::
  "('v list, com_error) result option \<Rightarrow> cid \<Rightarrow> u32 \<Rightarrow> scheduler \<Rightarrow> u32 \<times> task_phase \<times> scheduler" where
  "after_run r c n sc =
     (case r of
        None \<Rightarrow> (n, Ended, sc)
      | Some (Inr _) \<Rightarrow> (0, Sleeping 1000, set_crashes c 0 sc)
      | Some (Inl (FuelExhausted _ _)) \<Rightarrow> (n, Sleeping 100, sc)
      | Some (Inl e) \<Rightarrow>
          let m = n + 1; sc1 = set_crashes c m sc
          in if m \<ge> CRASH_QUARANTINE_THRESHOLD
             then (m, Ended, set_program c (Quarantined c ''consecutive crashes'') sc1)
             else (m, Sleeping (unat (backoff_secs m) * 1000), sc1))"

definition task_run :: "('v list, com_error) result option \<Rightarrow> nat \<Rightarrow> sched_system \<Rightarrow> sched_system" where
  "task_run r i sys =
     (let tsk = ss_tasks sys ! i; (m, ph, sc) = after_run r (pt_cid tsk) (pt_crashes tsk) (ss_sched sys)
      in sys\<lparr>ss_sched := sc, ss_tasks := (ss_tasks sys)
           [i := tsk\<lparr>pt_crashes := m, pt_phase := (if pt_aborted tsk then Ended else ph)\<rparr>]\<rparr>)"

definition task_wake :: "nat \<Rightarrow> sched_system \<Rightarrow> sched_system" where
  "task_wake i sys =
     (let tsk = ss_tasks sys ! i
      in sys\<lparr>ss_tasks := (ss_tasks sys)
           [i := tsk\<lparr>pt_phase := (if scheduler_is_running (ss_sched sys) (pt_cid tsk) then Executing else Ended)\<rparr>]\<rparr>)"

section \<open>Runs of the scheduler\<close>

datatype 'v sched_action =
    ActLoad nat cid bytes
  | ActStart cid
  | ActFetched nat nat "(bytes option, obj_error) result"
  | ActStop cid string
  | ActBegin nat
  | ActRun nat "('v list, com_error) result option"
  | ActWake nat

definition task_phase_at :: "sched_system \<Rightarrow> nat \<Rightarrow> task_phase" where
  "task_phase_at sys i = (if i < length (ss_tasks sys) then pt_phase (ss_tasks sys ! i) else Ended)"

definition set_phase :: "nat \<Rightarrow> task_phase \<Rightarrow> sched_system \<Rightarrow> sched_system" where
  "set_phase i ph sys = sys\<lparr>ss_tasks := (ss_tasks sys)[i := (ss_tasks sys ! i)\<lparr>pt_phase := ph\<rparr>]\<rparr>"

fun sched_do :: "('m, 'i, 'v) wasm_api \<Rightarrow> 'v sched_action \<Rightarrow> sched_system \<Rightarrow> sched_system" where
  "sched_do W (ActLoad now c bs) sys = snd (load_program W now c bs sys)"
| "sched_do W (ActStart c) sys =
     (if start_check c (ss_sched sys) = Inr () then sys\<lparr>ss_starts := ss_starts sys @ [c]\<rparr> else sys)"
| "sched_do W (ActFetched now j r) sys =
     (if j < length (ss_starts sys)
      then snd (start_fetched now (ss_starts sys ! j) r (sys\<lparr>ss_starts := take j (ss_starts sys) @ drop (Suc j) (ss_starts sys)\<rparr>))
      else sys)"
| "sched_do W (ActStop c reason) sys = snd (stop_program c reason sys)"
| "sched_do W (ActBegin i) sys = (if task_phase_at sys i = Ready then set_phase i Executing sys else sys)"
| "sched_do W (ActRun i r) sys = (if task_phase_at sys i = Executing then task_run r i sys else sys)"
| "sched_do W (ActWake i) sys = (case task_phase_at sys i of Sleeping n \<Rightarrow> task_wake i sys | _ \<Rightarrow> sys)"

fun sched_exec :: "('m, 'i, 'v) wasm_api \<Rightarrow> 'v sched_action list \<Rightarrow> sched_system \<Rightarrow> sched_system" where
  "sched_exec W [] sys = sys"
| "sched_exec W (a # as) sys = sched_exec W as (sched_do W a sys)"

section \<open>What every run keeps\<close>

definition tables_ok :: "scheduler \<Rightarrow> bool" where
  "tables_ok sc \<longleftrightarrow> (\<forall>c st. sc_programs sc c = Some st \<longrightarrow> program_wasm_cid st = c) \<and>
     (\<forall>c n. sc_crash_counts sc c = Some n \<longrightarrow> n \<le> CRASH_QUARANTINE_THRESHOLD)"

definition task_ok :: "scheduler \<Rightarrow> prog_task \<Rightarrow> bool" where
  "task_ok sc tsk \<longleftrightarrow> pt_cid tsk \<in> dom (sc_programs sc) \<and>
     (pt_phase tsk \<noteq> Ended \<longrightarrow> pt_crashes tsk < CRASH_QUARANTINE_THRESHOLD) \<and>
     (pt_aborted tsk \<longrightarrow> pt_phase tsk \<in> {Executing, Ended}) \<and>
     (case pt_phase tsk of Sleeping ms \<Rightarrow> 100 \<le> ms \<and> ms \<le> 64000 | _ \<Rightarrow> True)"

definition handles_ok :: "sched_system \<Rightarrow> bool" where
  "handles_ok sys \<longleftrightarrow> (\<forall>c i. sc_handles (ss_sched sys) c = Some i \<longrightarrow> i < length (ss_tasks sys) \<and> pt_cid (ss_tasks sys ! i) = c)"

definition sched_inv :: "sched_system \<Rightarrow> bool" where
  "sched_inv sys \<longleftrightarrow> tables_ok (ss_sched sys) \<and> handles_ok sys \<and> list_all (task_ok (ss_sched sys)) (ss_tasks sys) \<and>
     set (ss_starts sys) \<subseteq> dom (sc_programs (ss_sched sys))"

lemma set_program_simps [simp]:
  "sc_programs (set_program c st sc) = (sc_programs sc)(c \<mapsto> st)" "sc_handles (set_program c st sc) = sc_handles sc"
  "sc_crash_counts (set_program c st sc) = sc_crash_counts sc"
  "sc_programs (set_crashes c n sc) = sc_programs sc" "sc_handles (set_crashes c n sc) = sc_handles sc"
  "sc_crash_counts (set_crashes c n sc) = (sc_crash_counts sc)(c \<mapsto> n)"
  by (simp_all add: set_program_def set_crashes_def)

lemma backoff_bounds: "1000 \<le> unat (backoff_secs n) * 1000 \<and> unat (backoff_secs n) * 1000 \<le> 64000"
proof -
  have "unat (min n 6) \<in> {..6}" by (simp add: min_def word_le_nat_alt)
  also have "{..6} = {0, 1, 2, 3, 4, 5, 6 :: nat}" by auto
  finally show ?thesis by (auto simp: backoff_secs_def)
qed

lemma crash_counted: "n < CRASH_QUARANTINE_THRESHOLD \<Longrightarrow> n + 1 \<le> CRASH_QUARANTINE_THRESHOLD \<and> unat (n + 1) = unat n + 1"
  by (auto simp: CRASH_QUARANTINE_THRESHOLD_def word_less_nat_alt word_le_nat_alt unat_word_ariths)

fun crashed :: "('v list, com_error) result option \<Rightarrow> bool" where
  "crashed (Some (Inl (FuelExhausted _ _))) = False"
| "crashed (Some (Inl _)) = True"
| "crashed _ = False"

lemma after_run_crash:
  "crashed r \<Longrightarrow> after_run r c n sc =
    (if n + 1 \<ge> CRASH_QUARANTINE_THRESHOLD
     then (n + 1, Ended, set_program c (Quarantined c ''consecutive crashes'') (set_crashes c (n + 1) sc))
     else (n + 1, Sleeping (unat (backoff_secs (n + 1)) * 1000), set_crashes c (n + 1) sc))"
  by (cases r rule: crashed.cases) (simp_all add: after_run_def Let_def)

lemma after_run_no_crash:
  assumes "\<not> crashed r"
  shows "after_run r c n sc \<in> {(n, Ended, sc), (0, Sleeping 1000, set_crashes c 0 sc), (n, Sleeping 100, sc)}"
  using assms by (cases r rule: crashed.cases) (simp_all add: after_run_def)

lemma after_run_ok:
  assumes "n < CRASH_QUARANTINE_THRESHOLD" "after_run r c n sc = (m, ph, sc')" "c \<in> dom (sc_programs sc)"
  shows "tables_ok sc \<Longrightarrow> tables_ok sc'" "sc_handles sc' = sc_handles sc" "dom (sc_programs sc') = dom (sc_programs sc)"
    "ph \<noteq> Ended \<Longrightarrow> m < CRASH_QUARANTINE_THRESHOLD" "case ph of Sleeping ms \<Rightarrow> 100 \<le> ms \<and> ms \<le> 64000 | Ended \<Rightarrow> True | _ \<Rightarrow> False"
proof -
  have z: "0 < CRASH_QUARANTINE_THRESHOLD" by (simp add: CRASH_QUARANTINE_THRESHOLD_def)
  have "(tables_ok sc \<longrightarrow> tables_ok sc') \<and> sc_handles sc' = sc_handles sc \<and> dom (sc_programs sc') = dom (sc_programs sc) \<and>
    (ph \<noteq> Ended \<longrightarrow> m < CRASH_QUARANTINE_THRESHOLD) \<and> (case ph of Sleeping ms \<Rightarrow> 100 \<le> ms \<and> ms \<le> 64000 | Ended \<Rightarrow> True | _ \<Rightarrow> False)"
  proof (cases "crashed r")
    case True
    show ?thesis using assms(2,3) crash_counted[OF assms(1)] backoff_bounds[of "n + 1"]
      by (auto simp: after_run_crash[OF True] tables_ok_def not_le split: if_splits)
  next
    case False
    then show ?thesis using after_run_no_crash[OF False, of c n sc] assms z by (auto simp: tables_ok_def split: if_splits)
  qed
  then show "tables_ok sc \<Longrightarrow> tables_ok sc'" "sc_handles sc' = sc_handles sc" "dom (sc_programs sc') = dom (sc_programs sc)"
    "ph \<noteq> Ended \<Longrightarrow> m < CRASH_QUARANTINE_THRESHOLD" "case ph of Sleeping ms \<Rightarrow> 100 \<le> ms \<and> ms \<le> 64000 | Ended \<Rightarrow> True | _ \<Rightarrow> False"
    by blast+
qed

lemma task_ok_mono: "task_ok sc tsk \<Longrightarrow> dom (sc_programs sc) \<subseteq> dom (sc_programs sc') \<Longrightarrow> task_ok sc' tsk"
  by (auto simp: task_ok_def)

lemma tasks_ok_mono:
  "list_all (task_ok sc) ts \<Longrightarrow> dom (sc_programs sc) \<subseteq> dom (sc_programs sc') \<Longrightarrow> list_all (task_ok sc') ts"
  using task_ok_mono by (fastforce simp: list_all_iff)

lemma list_all_update: "list_all P xs \<Longrightarrow> P x \<Longrightarrow> list_all P (xs[i := x])"
  using set_update_subset_insert[of xs i x] by (auto simp: list_all_iff)

lemma nth_update_proj: "f x = f (xs ! i) \<Longrightarrow> f (xs[i := x] ! j) = f (xs ! j)"
  by (cases "i < length xs"; cases "i = j") (simp_all add: list_update_beyond)

lemma nth_update_at: "j < length xs \<Longrightarrow> xs[i := x] ! j = (if i = j then x else xs ! j)"
  by auto

lemma handles_ok_update:
  "handles_ok sys \<Longrightarrow> pt_cid x = pt_cid (ss_tasks sys ! i) \<Longrightarrow> handles_ok (sys\<lparr>ss_tasks := (ss_tasks sys)[i := x]\<rparr>)"
  using nth_update_proj[of pt_cid x "ss_tasks sys" i] by (auto simp: handles_ok_def)

lemma task_phase_at_live: "task_phase_at sys i \<noteq> Ended \<Longrightarrow> i < length (ss_tasks sys) \<and> task_phase_at sys i = pt_phase (ss_tasks sys ! i)"
  by (simp add: task_phase_at_def split: if_splits)

lemma sched_inv_task:
  assumes "sched_inv sys" "i < length (ss_tasks sys)" "task_ok (ss_sched sys) x" "pt_cid x = pt_cid (ss_tasks sys ! i)"
  shows "sched_inv (sys\<lparr>ss_tasks := (ss_tasks sys)[i := x]\<rparr>)"
  using assms handles_ok_update[of sys x i] by (simp add: sched_inv_def list_all_update)

lemma task_run_inv:
  assumes "sched_inv sys" "task_phase_at sys i = Executing"
  shows "sched_inv (task_run r i sys)"
proof -
  let ?t = "ss_tasks sys ! i"
  note l = task_phase_at_live[of sys i, unfolded assms(2), simplified]
  have t: "task_ok (ss_sched sys) ?t" using assms(1) l by (simp add: sched_inv_def list_all_length)
  obtain m ph sc where a: "after_run r (pt_cid ?t) (pt_crashes ?t) (ss_sched sys) = (m, ph, sc)" by (metis prod_cases3)
  have c: "pt_crashes ?t < CRASH_QUARANTINE_THRESHOLD" "pt_cid ?t \<in> dom (sc_programs (ss_sched sys))"
    using t l by (simp_all add: task_ok_def)
  note o = after_run_ok[OF c(1) a c(2)]
  define x where "x = ?t\<lparr>pt_crashes := m, pt_phase := (if pt_aborted ?t then Ended else ph)\<rparr>"
  have e: "task_run r i sys = sys\<lparr>ss_sched := sc, ss_tasks := (ss_tasks sys)[i := x]\<rparr>"
    by (simp only: task_run_def a Let_def prod.case x_def)
  have x: "task_ok sc x" "pt_cid x = pt_cid ?t" using o c by (auto simp: x_def task_ok_def split: task_phase.splits)
  have "list_all (task_ok sc) (ss_tasks sys)"
    using assms(1) o(3) tasks_ok_mono[of "ss_sched sys" _ sc] by (simp add: sched_inv_def)
  then have "list_all (task_ok sc) ((ss_tasks sys)[i := x])" using x(1) by (rule list_all_update)
  moreover have "handles_ok (sys\<lparr>ss_sched := sc, ss_tasks := (ss_tasks sys)[i := x]\<rparr>)"
    using assms(1) o(2) handles_ok_update[OF _ x(2)] by (simp add: sched_inv_def handles_ok_def)
  ultimately show ?thesis unfolding e using assms(1) o(1,3) by (simp add: sched_inv_def)
qed

lemma start_fetched_inv:
  assumes "sched_inv sys" "c \<in> dom (sc_programs (ss_sched sys))"
  shows "sched_inv (snd (start_fetched now c r sys))"
proof (cases "\<exists>bs. r = Inr (Some bs)")
  case True
  have "list_all (task_ok (ss_sched (start_spawn now c bs sys))) (ss_tasks sys)" for bs
    by (rule tasks_ok_mono[of "ss_sched sys"]) (use assms(1) in \<open>auto simp: sched_inv_def start_spawn_def Let_def\<close>)
  moreover have "task_ok (ss_sched (start_spawn now c bs sys)) \<lparr>pt_cid = c, pt_wasm = bs, pt_crashes = 0, pt_phase = Ready, pt_aborted = False\<rparr>" for bs
    by (simp add: task_ok_def start_spawn_def Let_def CRASH_QUARANTINE_THRESHOLD_def)
  moreover have "sc_handles (ss_sched sys) x = Some i \<Longrightarrow> i < Suc (length (ss_tasks sys))" for x i
    using assms(1) by (fastforce simp: sched_inv_def handles_ok_def)
  ultimately show ?thesis using True assms
    by (auto simp: start_fetched_def sched_inv_def start_spawn_def Let_def tables_ok_def handles_ok_def nth_append
        CRASH_QUARANTINE_THRESHOLD_def split: if_splits)
next
  case False
  then show ?thesis using assms(1) by (auto simp: start_fetched_def split: sum.splits option.splits)
qed

lemma stop_program_inv:
  assumes "sched_inv sys"
  shows "sched_inv (snd (stop_program c reason sys))"
proof (cases "sc_programs (ss_sched sys) c")
  case (Some st)
  define ts where "ts = (case sc_handles (ss_sched sys) c of None \<Rightarrow> ss_tasks sys | Some i \<Rightarrow> (ss_tasks sys)[i := abort_task (ss_tasks sys ! i)])"
  define sc where "sc = set_program c (Stopped c reason) ((ss_sched sys)\<lparr>sc_handles := (sc_handles (ss_sched sys))(c := None)\<rparr>)"
  have ab: "task_ok s (abort_task x)" if "task_ok s x" for s x using that by (auto simp: abort_task_def task_ok_def)
  have "list_all (task_ok (ss_sched sys)) ts"
    using assms ab by (auto simp: ts_def sched_inv_def list_all_update list_all_length handles_ok_def nth_list_update split: option.splits)
  then have "list_all (task_ok sc) ts" by (rule tasks_ok_mono) (auto simp: sc_def)
  moreover have "pt_cid (ts ! j) = pt_cid (ss_tasks sys ! j)" "length ts = length (ss_tasks sys)" for j
    using nth_update_proj[of pt_cid "abort_task (ss_tasks sys ! i)" "ss_tasks sys" i j for i]
    by (auto simp: ts_def abort_task_def split: option.splits)
  ultimately have "sched_inv (sys\<lparr>ss_tasks := ts, ss_sched := sc\<rparr>)"
    using assms by (auto simp: sched_inv_def sc_def tables_ok_def handles_ok_def split: if_splits)
  then show ?thesis using Some by (simp add: stop_program_def Let_def ts_def sc_def)
qed (use assms in \<open>simp add: stop_program_def\<close>)

lemma sched_do_inv: "sched_inv sys \<Longrightarrow> sched_inv (sched_do W a sys)"
proof (cases a)
  case (ActLoad now c bs)
  assume inv: "sched_inv sys"
  have "list_all (task_ok (set_program c (Loaded c now) (ss_sched sys))) (ss_tasks sys)"
    by (rule tasks_ok_mono[of "ss_sched sys"]) (use inv in \<open>auto simp: sched_inv_def\<close>)
  then show ?thesis using inv ActLoad
    by (auto simp: load_program_def sched_inv_def tables_ok_def handles_ok_def split: sum.splits if_splits)
next
  case (ActStart c)
  assume "sched_inv sys"
  then show ?thesis using ActStart by (auto simp: sched_inv_def handles_ok_def start_check_def split: option.splits)
next
  case (ActFetched now j r)
  assume inv: "sched_inv sys"
  let ?sys = "sys\<lparr>ss_starts := take j (ss_starts sys) @ drop (Suc j) (ss_starts sys)\<rparr>"
  have "set (take j (ss_starts sys) @ drop (Suc j) (ss_starts sys)) \<subseteq> set (ss_starts sys)"
    using set_take_subset set_drop_subset by fastforce
  then have "sched_inv ?sys" using inv by (auto simp: sched_inv_def handles_ok_def)
  moreover have "j < length (ss_starts sys) \<Longrightarrow> ss_starts sys ! j \<in> dom (sc_programs (ss_sched ?sys))"
    using inv nth_mem[of j "ss_starts sys"] by (simp add: sched_inv_def subset_iff del: domIff)
  ultimately show ?thesis using inv ActFetched start_fetched_inv[of ?sys "ss_starts sys ! j" now r] by simp
next
  case (ActBegin i)
  assume inv: "sched_inv sys"
  have "task_ok (ss_sched sys) (ss_tasks sys ! i)" if "i < length (ss_tasks sys)"
    using inv that by (simp add: sched_inv_def list_all_length)
  then have "task_ok (ss_sched sys) ((ss_tasks sys ! i)\<lparr>pt_phase := Executing\<rparr>)" if "task_phase_at sys i = Ready"
    using task_phase_at_live[of sys i] that by (simp add: task_ok_def)
  then show ?thesis using inv ActBegin task_phase_at_live[of sys i] sched_inv_task[OF inv, of i] by (simp add: set_phase_def)
next
  case (ActWake i)
  assume inv: "sched_inv sys"
  have "task_ok (ss_sched sys) (ss_tasks sys ! i)" if "i < length (ss_tasks sys)"
    using inv that by (simp add: sched_inv_def list_all_length)
  then have "task_ok (ss_sched sys) ((ss_tasks sys ! i)\<lparr>pt_phase := if b then Executing else Ended\<rparr>)" if "task_phase_at sys i = Sleeping n" for n b
    using task_phase_at_live[of sys i] that by (auto simp: task_ok_def)
  then show ?thesis using inv ActWake task_phase_at_live[of sys i] sched_inv_task[OF inv, of i]
    by (auto simp: task_wake_def Let_def split: task_phase.splits)
qed (simp_all add: task_run_inv stop_program_inv)

lemma sched_exec_inv: "sched_inv sys \<Longrightarrow> sched_inv (sched_exec W as sys)"
  by (induction as arbitrary: sys) (simp_all add: sched_do_inv)

lemma system_new_inv: "sched_inv system_new"
  by (simp add: sched_inv_def system_new_def scheduler_new_def tables_ok_def handles_ok_def)

section \<open>One task for each program\<close>

text \<open>
  A program is loaded only while it neither runs nor is quarantined, and two starts of it do not
  overlap.
\<close>

definition serial_ok :: "'v sched_action \<Rightarrow> sched_system \<Rightarrow> bool" where
  "serial_ok a sys \<longleftrightarrow> (case a of
      ActLoad now c bs \<Rightarrow> (case sc_programs (ss_sched sys) c of Some (Running _ _) \<Rightarrow> False | Some (Quarantined _ _) \<Rightarrow> False | _ \<Rightarrow> True)
    | ActStart c \<Rightarrow> c \<notin> set (ss_starts sys)
    | _ \<Rightarrow> True)"

fun serial_run :: "('m, 'i, 'v) wasm_api \<Rightarrow> 'v sched_action list \<Rightarrow> sched_system \<Rightarrow> bool" where
  "serial_run W [] sys = True"
| "serial_run W (a # as) sys \<longleftrightarrow> serial_ok a sys \<and> serial_run W as (sched_do W a sys)"

definition task_live :: "prog_task \<Rightarrow> bool" where
  "task_live tsk \<longleftrightarrow> pt_phase tsk \<noteq> Ended \<and> \<not> pt_aborted tsk"

text \<open>A live task is the one its handle names; then the program runs, or is quarantined, and no start is under way.\<close>

definition live_ok :: "scheduler \<Rightarrow> prog_task list \<Rightarrow> cid list \<Rightarrow> bool" where
  "live_ok sc ts cs \<longleftrightarrow> (\<forall>i < length ts. task_live (ts ! i) \<longrightarrow>
     sc_handles sc (pt_cid (ts ! i)) = Some i \<and> pt_cid (ts ! i) \<notin> set cs \<and> start_check (pt_cid (ts ! i)) sc \<noteq> Inr ())"

definition single_inv :: "sched_system \<Rightarrow> bool" where
  "single_inv sys \<longleftrightarrow> sched_inv sys \<and> distinct (ss_starts sys) \<and> live_ok (ss_sched sys) (ss_tasks sys) (ss_starts sys)"

lemma live_okD:
  "live_ok sc ts cs \<Longrightarrow> i < length ts \<Longrightarrow> task_live (ts ! i) \<Longrightarrow>
   sc_handles sc (pt_cid (ts ! i)) = Some i \<and> pt_cid (ts ! i) \<notin> set cs \<and> start_check (pt_cid (ts ! i)) sc \<noteq> Inr ()"
  by (simp add: live_ok_def)

lemma live_ok_update:
  assumes "live_ok sc ts cs" "pt_cid x = pt_cid (ts ! i)" "task_live x \<Longrightarrow> task_live (ts ! i)"
    and "sc_handles sc' = sc_handles sc" "\<And>c. start_check c sc' = Inr () \<Longrightarrow> start_check c sc = Inr ()"
  shows "live_ok sc' (ts[i := x]) cs"
  unfolding live_ok_def
proof (intro allI impI)
  fix j assume j: "j < length (ts[i := x])" "task_live (ts[i := x] ! j)"
  have c: "pt_cid (ts[i := x] ! j) = pt_cid (ts ! j)" using assms(2) by (rule nth_update_proj)
  have "task_live (ts ! j)" using j assms(3) by (cases "i = j") auto
  then show "sc_handles sc' (pt_cid (ts[i := x] ! j)) = Some j \<and> pt_cid (ts[i := x] ! j) \<notin> set cs \<and>
      start_check (pt_cid (ts[i := x] ! j)) sc' \<noteq> Inr ()"
    using live_okD[OF assms(1), of j] j(1) assms(4,5) unfolding c by auto
qed

lemma start_check_set_program:
  "start_check c (set_program d st sc) = (if c = d then start_check d (set_program d st sc) else start_check c sc)"
  "start_check c (set_crashes d n sc) = start_check c sc" "start_check c (sc\<lparr>sc_handles := hs\<rparr>) = start_check c sc"
  by (simp_all add: start_check_def)

lemma after_run_start_check:
  assumes "after_run r c n sc = (m, ph, sc')"
  shows "sc_handles sc' = sc_handles sc" "start_check d sc' = Inr () \<Longrightarrow> start_check d sc = Inr ()"
proof -
  have q: "start_check c (set_program c (Quarantined c e) s) \<noteq> Inr ()" for e s by (simp add: start_check_def)
  have "sc_handles sc' = sc_handles sc \<and> (start_check d sc' = Inr () \<longrightarrow> start_check d sc = Inr ())"
  proof (cases "crashed r")
    case True
    then show ?thesis using assms q
      by (auto simp: after_run_crash start_check_set_program(1)[of d c] start_check_set_program(2) split: if_splits)
  next
    case False
    then show ?thesis using assms after_run_no_crash[OF False, of c n sc] by (auto simp: start_check_set_program(2))
  qed
  then show "sc_handles sc' = sc_handles sc" "start_check d sc' = Inr () \<Longrightarrow> start_check d sc = Inr ()" by blast+
qed

lemma live_ok_fetched:
  assumes "live_ok (ss_sched sys) (ss_tasks sys) (c # cs)" "c \<notin> set cs" "ss_starts sys = cs"
  shows "live_ok (ss_sched (snd (start_fetched now c r sys))) (ss_tasks (snd (start_fetched now c r sys))) cs"
proof (cases "\<exists>bs. r = Inr (Some bs)")
  case True
  then obtain bs where bs: "r = Inr (Some bs)" by blast
  let ?sys = "start_spawn now c bs sys" and ?n = "length (ss_tasks sys)"
  have t: "ss_tasks ?sys = ss_tasks sys @ [\<lparr>pt_cid = c, pt_wasm = bs, pt_crashes = 0, pt_phase = Ready, pt_aborted = False\<rparr>]"
    and h: "sc_handles (ss_sched ?sys) = (sc_handles (ss_sched sys))(c \<mapsto> ?n)"
    and p: "sc_programs (ss_sched ?sys) = (sc_programs (ss_sched sys))(c \<mapsto> Running c now)"
    by (simp_all add: start_spawn_def Let_def)
  have "live_ok (ss_sched ?sys) (ss_tasks ?sys) cs" unfolding live_ok_def
  proof (intro allI impI)
    fix j assume j: "j < length (ss_tasks ?sys)" "task_live (ss_tasks ?sys ! j)"
    show "sc_handles (ss_sched ?sys) (pt_cid (ss_tasks ?sys ! j)) = Some j \<and> pt_cid (ss_tasks ?sys ! j) \<notin> set cs \<and>
        start_check (pt_cid (ss_tasks ?sys ! j)) (ss_sched ?sys) \<noteq> Inr ()"
    proof (cases "j = ?n")
      case False
      then have "j < ?n" "ss_tasks ?sys ! j = ss_tasks sys ! j" using j(1) by (simp_all add: t nth_append)
      then show ?thesis using live_okD[OF assms(1), of j] j(2) by (simp add: h p start_check_def)
    qed (use assms(2) in \<open>simp add: t h p start_check_def\<close>)
  qed
  then show ?thesis by (simp add: bs start_fetched_def)
next
  case False
  then show ?thesis using assms by (auto simp: start_fetched_def live_ok_def split: sum.splits option.splits)
qed

lemma live_ok_stop:
  assumes "live_ok (ss_sched sys) (ss_tasks sys) (ss_starts sys)"
  shows "live_ok (ss_sched (snd (stop_program c reason sys))) (ss_tasks (snd (stop_program c reason sys))) (ss_starts sys)"
proof (cases "sc_programs (ss_sched sys) c")
  case (Some st)
  let ?sys = "snd (stop_program c reason sys)"
  show ?thesis unfolding live_ok_def
  proof (intro allI impI)
    fix j assume j: "j < length (ss_tasks ?sys)" "task_live (ss_tasks ?sys ! j)"
    have o: "j < length (ss_tasks sys)" "pt_cid (ss_tasks ?sys ! j) = pt_cid (ss_tasks sys ! j)" "task_live (ss_tasks sys ! j)"
      "sc_handles (ss_sched sys) c \<noteq> Some j"
      using j Some by (auto simp: stop_program_def Let_def abort_task_def task_live_def nth_update_at split: option.splits if_splits)
    have d: "pt_cid (ss_tasks sys ! j) \<noteq> c" using live_okD[OF assms o(1,3)] o(4) by auto
    show "sc_handles (ss_sched ?sys) (pt_cid (ss_tasks ?sys ! j)) = Some j \<and> pt_cid (ss_tasks ?sys ! j) \<notin> set (ss_starts sys) \<and>
        start_check (pt_cid (ss_tasks ?sys ! j)) (ss_sched ?sys) \<noteq> Inr ()"
      using live_okD[OF assms o(1,3)] d Some unfolding o(2)
      by (simp add: stop_program_def Let_def start_check_set_program)
  qed
qed (use assms in \<open>simp add: stop_program_def\<close>)

lemma sched_do_single:
  assumes "single_inv sys" "serial_ok a sys"
  shows "single_inv (sched_do W a sys)"
proof -
  have inv: "sched_inv sys" "distinct (ss_starts sys)" and l: "live_ok (ss_sched sys) (ss_tasks sys) (ss_starts sys)"
    using assms(1) by (simp_all add: single_inv_def)
  have "distinct (ss_starts (sched_do W a sys)) \<and>
    live_ok (ss_sched (sched_do W a sys)) (ss_tasks (sched_do W a sys)) (ss_starts (sched_do W a sys))"
  proof (cases a)
    case (ActLoad now c bs)
    have "pt_cid (ss_tasks sys ! i) \<noteq> c" if "i < length (ss_tasks sys)" "task_live (ss_tasks sys ! i)" for i
    proof -
      have "task_ok (ss_sched sys) (ss_tasks sys ! i)" using inv(1) that(1) by (simp add: sched_inv_def list_all_length)
      then show ?thesis using live_okD[OF l that] assms(2) ActLoad
        by (auto simp: serial_ok_def start_check_def task_ok_def split: program_state.splits)
    qed
    then show ?thesis using inv(2) l ActLoad
      by (auto simp: load_program_def live_ok_def start_check_set_program split: sum.splits)
  next
    case (ActStart c)
    have "pt_cid (ss_tasks sys ! i) \<noteq> c" if "i < length (ss_tasks sys)" "task_live (ss_tasks sys ! i)" "start_check c (ss_sched sys) = Inr ()" for i
      using live_okD[OF l that(1,2)] that(3) by auto
    then show ?thesis using inv(2) l ActStart assms(2) by (auto simp: serial_ok_def live_ok_def)
  next
    case (ActFetched now j r)
    let ?cs = "take j (ss_starts sys) @ drop (Suc j) (ss_starts sys)" and ?c = "ss_starts sys ! j"
    have "mset (ss_starts sys) = mset (?c # ?cs)" if "j < length (ss_starts sys)"
      using id_take_nth_drop[OF that] by (metis add_mset_add_single mset.simps(2) mset_append union_mset_add_mset_right)
    then have m: "distinct (?c # ?cs)" "set (ss_starts sys) = set (?c # ?cs)" if "j < length (ss_starts sys)"
      using that inv(2) mset_eq_imp_distinct_iff mset_eq_setD by blast+
    have st: "ss_starts (snd (start_fetched now c r x)) = ss_starts x" for c x
      by (auto simp: start_fetched_def start_spawn_def Let_def split: sum.splits option.splits)
    have "live_ok (ss_sched sys) (ss_tasks sys) (?c # ?cs)" if "j < length (ss_starts sys)"
      using l m(2)[OF that] unfolding live_ok_def by blast
    then show ?thesis using l inv(2) ActFetched m live_ok_fetched[of "sys\<lparr>ss_starts := ?cs\<rparr>" ?c ?cs now r]
      by (simp add: st)
  next
    case (ActStop c reason)
    have "ss_starts (snd (stop_program c reason sys)) = ss_starts sys" by (simp add: stop_program_def Let_def split: option.splits)
    then show ?thesis using ActStop inv(2) live_ok_stop[OF l] by simp
  next
    case (ActBegin i)
    have "task_live ((ss_tasks sys ! i)\<lparr>pt_phase := Executing\<rparr>) \<Longrightarrow> task_live (ss_tasks sys ! i)" if "task_phase_at sys i = Ready"
      using task_phase_at_live[of sys i] that by (simp add: task_live_def)
    then show ?thesis using ActBegin inv(2) l by (simp add: set_phase_def live_ok_update)
  next
    case (ActRun i r)
    let ?t = "ss_tasks sys ! i"
    obtain m ph sc where a: "after_run r (pt_cid ?t) (pt_crashes ?t) (ss_sched sys) = (m, ph, sc)" by (metis prod_cases3)
    have "live_ok sc ((ss_tasks sys)[i := ?t\<lparr>pt_crashes := m, pt_phase := (if pt_aborted ?t then Ended else ph)\<rparr>]) (ss_starts sys)"
      if "task_phase_at sys i = Executing"
      using l task_phase_at_live[of sys i] that after_run_start_check[OF a]
      by (intro live_ok_update[OF l]) (auto simp: task_live_def)
    then show ?thesis using ActRun inv(2) l by (simp add: task_run_def a Let_def)
  next
    case (ActWake i)
    have "live_ok (ss_sched sys) ((ss_tasks sys)[i := (ss_tasks sys ! i)\<lparr>pt_phase := ph\<rparr>]) (ss_starts sys)"
      if "task_phase_at sys i = Sleeping n" for n ph
      using l task_phase_at_live[of sys i] that by (intro live_ok_update[OF l]) (auto simp: task_live_def)
    then show ?thesis using ActWake inv(2) l by (simp add: task_wake_def Let_def split: task_phase.splits)
  qed
  then show ?thesis using sched_do_inv[OF inv(1)] by (simp add: single_inv_def)
qed

lemma serial_run_single: "serial_run W as sys \<Longrightarrow> single_inv sys \<Longrightarrow> single_inv (sched_exec W as sys)"
  by (induction as arbitrary: sys) (simp_all add: sched_do_single)

section \<open>Properties\<close>

text \<open>
  Whatever the order of calls, runs and wake-ups, and whatever a run does, the scheduler keeps its
  tables in order: an entry belongs to its program, a handle names a task of its program, every task
  belongs to a known program, no crash count passes ten, no live task has ten crashes, a task sleeps
  between a tenth of a second and 64 seconds, and an aborted task does not sleep.
\<close>

theorem scheduler_invariant:
  "let sys = sched_exec W as system_new; sc = ss_sched sys
   in (\<forall>c st. sc_programs sc c = Some st \<longrightarrow> program_wasm_cid st = c) \<and>
      (\<forall>c i. sc_handles sc c = Some i \<longrightarrow> i < length (ss_tasks sys) \<and> pt_cid (ss_tasks sys ! i) = c) \<and>
      (\<forall>c n. sc_crash_counts sc c = Some n \<longrightarrow> n \<le> 10) \<and>
      (\<forall>tsk \<in> set (ss_tasks sys). sc_programs sc (pt_cid tsk) \<noteq> None \<and>
        (pt_phase tsk \<noteq> Ended \<longrightarrow> pt_crashes tsk < 10) \<and>
        (\<forall>ms. pt_phase tsk = Sleeping ms \<longrightarrow> \<not> pt_aborted tsk \<and> 100 \<le> ms \<and> ms \<le> 64000))"
proof -
  have i: "sched_inv (sched_exec W as system_new)" by (rule sched_exec_inv[OF system_new_inv])
  have "task_ok (ss_sched (sched_exec W as system_new)) tsk" if "tsk \<in> set (ss_tasks (sched_exec W as system_new))" for tsk
    using i that by (simp add: sched_inv_def list_all_iff)
  then show ?thesis using i
    by (fastforce simp: Let_def sched_inv_def tables_ok_def handles_ok_def task_ok_def CRASH_QUARANTINE_THRESHOLD_def)
qed


text \<open>The calls that bring a new program to its first run.\<close>

definition launch :: "cid \<Rightarrow> bytes \<Rightarrow> nat \<Rightarrow> 'v sched_action list" where
  "launch c bs i = [ActLoad 0 c bs, ActStart c, ActFetched 0 0 (Inr (Some bs)), ActBegin i]"

definition demo_wasm :: "(bytes, bytes, unit) wasm_api" where
  "demo_wasm = \<lparr>wa_compile = \<lambda>bs. if bs = [] then Inl ''empty'' else Inr bs, wa_set_fuel = \<lambda>_. True, wa_link = True,
     wa_instantiate = \<lambda>m. Inr m, wa_entry = \<lambda>i e. True, wa_call = \<lambda>i e args. (Inl ''unreachable'', Some 3)\<rparr>"

lemmas sched_eval = launch_def system_new_def scheduler_new_def load_program_def start_check_def start_fetched_def start_spawn_def
  stop_program_def task_phase_at_def set_phase_def task_wake_def abort_task_def scheduler_is_running_def serial_ok_def task_live_def
  set_program_def set_crashes_def


theorem scheduler_invariant_witness:
  "let sys = sched_exec demo_wasm (launch (Cid []) [1] 0 @ [ActRun 0 (Some (Inl (Trap ''x'')))]) system_new
   in length (ss_tasks sys) = 1 \<and> pt_phase (ss_tasks sys ! 0) = Sleeping 2000 \<and> pt_crashes (ss_tasks sys ! 0) < 10"
proof -
  let ?as = "launch (Cid []) [1] 0 @ [ActRun 0 (Some (Inl (Trap ''x'')))]"
  have e: "length (ss_tasks (sched_exec demo_wasm ?as system_new)) = 1"
    "pt_phase (ss_tasks (sched_exec demo_wasm ?as system_new) ! 0) = Sleeping 2000"
    by (simp_all add: sched_eval demo_wasm_def task_run_def after_run_def Let_def CRASH_QUARANTINE_THRESHOLD_def backoff_secs_def word_le_nat_alt)
  have "ss_tasks (sched_exec demo_wasm ?as system_new) ! 0 \<in> set (ss_tasks (sched_exec demo_wasm ?as system_new))"
    using e(1) nth_mem[of 0] by simp
  then show ?thesis using scheduler_invariant[of demo_wasm ?as] e unfolding Let_def by (metis task_phase.distinct(11))
qed

text \<open>
  C25. Loading a program again while it runs is not refused and does not stop its task, so a second start
  runs the program twice, and the handle of the first task is lost: stopping and starting the program
  again leaves the first task running beside the new one.  Two starts that overlap have the same effect.
\<close>

theorem duplicate_tasks:
  assumes "wa_compile W bs = Inr m"
  shows "(let sys = sched_exec W (launch c bs 0 @ launch c bs 1 @ [ActStop c reason, ActStart c, ActFetched 0 0 (Inr (Some bs)), ActBegin 2,
        ActRun 0 (Some (Inr [])), ActWake 0]) system_new
      in task_phase_at sys 0 = Executing \<and> task_phase_at sys 2 = Executing \<and> task_live (ss_tasks sys ! 0) \<and> task_live (ss_tasks sys ! 2) \<and>
         pt_cid (ss_tasks sys ! 0) = c \<and> pt_cid (ss_tasks sys ! 2) = c \<and> sc_handles (ss_sched sys) c = Some 2) \<and>
    (let sys = sched_exec W [ActLoad 0 c bs, ActStart c, ActStart c, ActFetched 0 0 (Inr (Some bs)), ActFetched 0 0 (Inr (Some bs)), ActBegin 0, ActBegin 1] system_new
      in task_phase_at sys 0 = Executing \<and> task_phase_at sys 1 = Executing \<and> sc_handles (ss_sched sys) c = Some 1)"
  using assms by (simp_all add: sched_eval task_run_def after_run_def Let_def nth_append eval_nat_numeral)

theorem duplicate_tasks_witness:
  "length (filter task_live (ss_tasks (sched_exec demo_wasm [ActLoad 0 (Cid []) [1], ActStart (Cid []), ActStart (Cid []),
     ActFetched 0 0 (Inr (Some [1])), ActFetched 0 0 (Inr (Some [1])), ActBegin 0, ActBegin 1] system_new))) = 2 \<and>
   task_phase_at (sched_exec demo_wasm [ActLoad 0 (Cid []) [1], ActStart (Cid []), ActStart (Cid []),
     ActFetched 0 0 (Inr (Some [1])), ActFetched 0 0 (Inr (Some [1])), ActBegin 0, ActBegin 1] system_new) 0 = Executing"
  using duplicate_tasks[of demo_wasm "[1]" "[1]" "Cid []"] by (simp add: demo_wasm_def sched_eval)

lemma sched_exec_append: "sched_exec W (as @ bs) sys = sched_exec W bs (sched_exec W as sys)"
  by (induction as arbitrary: sys) simp_all

text \<open>The system after \<open>k\<close> runs that crashed, each followed by its sleep.\<close>

definition crash_system :: "cid \<Rightarrow> bytes \<Rightarrow> nat \<Rightarrow> sched_system" where
  "crash_system c bs k =
     \<lparr>ss_sched = \<lparr>sc_programs = [c \<mapsto> Running c 0], sc_handles = [c \<mapsto> 0], sc_crash_counts = [c \<mapsto> of_nat k]\<rparr>,
      ss_tasks = [\<lparr>pt_cid = c, pt_wasm = bs, pt_crashes = of_nat k, pt_phase = Executing, pt_aborted = False\<rparr>], ss_starts = []\<rparr>"

lemma crash_threshold: "k < 10 \<Longrightarrow> CRASH_QUARANTINE_THRESHOLD \<le> of_nat k + 1 \<longleftrightarrow> k = 9"
proof -
  assume "k < 10"
  then have "k \<in> {0, 1, 2, 3, 4, 5, 6, 7, 8, 9}" by auto
  then show ?thesis by (auto simp: CRASH_QUARANTINE_THRESHOLD_def word_le_nat_alt)
qed

lemma backoff_power: "k < 10 \<Longrightarrow> unat (backoff_secs (of_nat k + 1)) = 2 ^ min (k + 1) 6"
proof -
  assume "k < 10"
  then have "k \<in> {0, 1, 2, 3, 4, 5, 6, 7, 8, 9}" by auto
  then show ?thesis by (auto simp: backoff_secs_def min_def word_le_nat_alt)
qed

lemma crash_round:
  assumes "crashed r" "k < 9"
  shows "sched_do W (ActWake 0) (sched_do W (ActRun 0 r) (crash_system c bs k)) = crash_system c bs (Suc k)"
    "task_phase_at (sched_do W (ActRun 0 r) (crash_system c bs k)) 0 = Sleeping (2 ^ min (k + 1) 6 * 1000)"
  using assms crash_threshold[of k] backoff_power[of k]
  by (simp_all add: sched_eval crash_system_def task_run_def after_run_crash Let_def add.commute)

lemma crash_rounds:
  "crashed r \<Longrightarrow> k < 10 \<Longrightarrow> sched_exec W (concat (replicate k [ActRun 0 r, ActWake 0])) (crash_system c bs 0) = crash_system c bs k"
proof (induction k)
  case (Suc k)
  have "concat (replicate (Suc k) [ActRun 0 r, ActWake 0]) = concat (replicate k [ActRun 0 r, ActWake 0]) @ [ActRun 0 r, ActWake 0]"
    by (simp only: replicate_Suc replicate_append_same[symmetric] concat_append) simp
  then show ?case using Suc crash_round(1)[of r k] by (simp add: sched_exec_append del: replicate_Suc)
qed simp



text \<open>
  Quarantine does not survive a stop or a load: both replace the state of the program, after which a
  start succeeds and the program has ten new attempts.
\<close>

theorem quarantine_escape:
  assumes "scheduler_state (ss_sched sys) c = Some (Quarantined c e)" "wa_compile W bs = Inr m"
    and "fst (get A flt s c) = Inr (Some bs)" "sys' \<in> {snd (stop_program c reason sys), snd (load_program W now c bs sys)}"
  shows "start_program A flt now c s sys = (Inl (SchedulerError ''quarantined''), s, sys) \<and>
    (\<exists>s' sys''. start_program A flt now c s sys' = (Inr (), s', sys'') \<and> scheduler_is_running (ss_sched sys'') c \<and>
       sc_crash_counts (ss_sched sys'') c = Some 0 \<and> length (ss_tasks sys'') = length (ss_tasks sys) + 1)"
proof -
  have "start_check c (ss_sched sys') = Inr () \<and> length (ss_tasks sys') = length (ss_tasks sys)"
    using assms by (auto simp: scheduler_state_def stop_program_def load_program_def start_check_def Let_def split: option.splits)
  moreover have "start_check c (ss_sched sys) = Inl (SchedulerError ''quarantined'')"
    using assms(1) by (simp add: scheduler_state_def start_check_def)
  ultimately show ?thesis using assms(3)
    by (cases "get A flt s c") (simp add: start_program_def start_fetched_def start_spawn_def Let_def scheduler_is_running_def)
qed

theorem quarantine_escape_witness:
  "\<exists>s' sys''. start_program demo_api no_faults 0 (Cid (sum_hash [7])) (snd (put demo_api no_faults (store_new demo_api [] 4) [7]))
     (snd (stop_program (Cid (sum_hash [7])) ''x''
       (system_new\<lparr>ss_sched := set_program (Cid (sum_hash [7])) (Quarantined (Cid (sum_hash [7])) ''e'') scheduler_new\<rparr>))) = (Inr (), s', sys'')"
proof -
  let ?c = "Cid (sum_hash [7])" and ?s = "store_new demo_api [] 4"
  let ?sys = "system_new\<lparr>ss_sched := set_program ?c (Quarantined ?c ''e'') scheduler_new\<rparr>"
  have q: "scheduler_state (ss_sched ?sys) ?c = Some (Quarantined ?c ''e'')" by (simp add: scheduler_state_def)
  have cid: "cid_from_data (oa_b3 demo_api) [7] = ?c" by (simp add: cid_from_data_def demo_api_def)
  have cl: "store_clean demo_api ?s" by (rule demo_new_clean)
  have "obj_lookup demo_api ?s ?c = None" by (simp add: obj_lookup_def store_new_def fs_lookup_def)
  moreover have "is_ok (fst (put demo_api no_faults ?s [7]))"
    using put_succeeds[of no_faults demo_api ?s "[7]"] by (simp add: no_faults_def is_ok_def)
  ultimately have "obj_lookup demo_api (snd (put demo_api no_faults ?s [7])) ?c = Some [7]"
    using put_clean(4)[OF cl, where d = "[7]" and flt = no_faults] by (simp add: cid)
  moreover have "cid_wf ?c" by (simp add: cid_wf_def CID_SIZE_def sum_hash_def)
  ultimately have g: "fst (get demo_api no_faults (snd (put demo_api no_faults ?s [7])) ?c) = Inr (Some [7])"
    using get_clean(2)[OF put_clean(1)[OF cl], of no_faults ?c no_faults "[7]"] by (simp add: no_faults_def)
  have "wa_compile demo_wasm [7] = Inr [7]" by (simp add: demo_wasm_def)
  from quarantine_escape[OF q this g, of "snd (stop_program ?c ''x'' ?sys)" "''x''" 0] show ?thesis by auto
qed

end
