(* ===== verification/Tables.thy ===== *)
theory Tables
  imports Types "HOL-Library.AList" "HOL-Library.List_Lexorder"
begin

text \<open>
  Shared material of the tables that a node keeps about its peers.  The provider table, the piece
  tracker and the pending fetches all map a content identifier to a vector of records with a time
  stamp, and are maintained in the same way: update or push one record, drop the records of a node,
  drop the old records.  The theory has the generic table operations, the byte order on
  identifiers, and the interface \<open>timed_index\<close> with the history of announcements it determines.
\<close>

section \<open>Time and order\<close>

text \<open>An \<open>Instant\<close> is a number of milliseconds, a \<open>Duration\<close> a non-negative one.\<close>

type_synonym instant = int
type_synonym duration = nat

definition duration_since :: "instant \<Rightarrow> instant \<Rightarrow> duration" where
  "duration_since now t = nat (now - t)"

instantiation node_id :: linorder
begin

definition less_eq_node_id :: "node_id \<Rightarrow> node_id \<Rightarrow> bool" where
  "less_eq_node_id a b \<longleftrightarrow> node_id_bytes a \<le> node_id_bytes b"

definition less_node_id :: "node_id \<Rightarrow> node_id \<Rightarrow> bool" where
  "less_node_id a b \<longleftrightarrow> node_id_bytes a < node_id_bytes b"

instance
  by standard (auto simp: less_eq_node_id_def less_node_id_def node_id.expand)

end

instantiation cid :: linorder
begin

definition less_eq_cid :: "cid \<Rightarrow> cid \<Rightarrow> bool" where
  "less_eq_cid a b \<longleftrightarrow> cid_bytes a \<le> cid_bytes b"

definition less_cid :: "cid \<Rightarrow> cid \<Rightarrow> bool" where
  "less_cid a b \<longleftrightarrow> cid_bytes a < cid_bytes b"

instance
  by standard (auto simp: less_eq_cid_def less_cid_def cid.expand)

end

section \<open>Vectors of records with a key\<close>

text \<open>
  \<open>iter_mut().find(|r| key(r) == k)\<close> followed by an update of the record found, or a \<open>push\<close>.
\<close>

fun upsert_by :: "('r \<Rightarrow> 'k) \<Rightarrow> ('r \<Rightarrow> 'r) \<Rightarrow> 'r \<Rightarrow> 'r list \<Rightarrow> 'r list" where
  "upsert_by key f r [] = [r]"
| "upsert_by key f r (x # xs) = (if key x = key r then f x # xs else x # upsert_by key f r xs)"

fun find_by :: "('r \<Rightarrow> 'k) \<Rightarrow> 'k \<Rightarrow> 'r list \<Rightarrow> 'r option" where
  "find_by key k [] = None"
| "find_by key k (x # xs) = (if key x = k then Some x else find_by key k xs)"

lemma upsert_by_nonempty [simp]: "upsert_by key f r xs \<noteq> []"
  by (cases xs) auto

lemma find_by_None: "find_by key k xs = None \<longleftrightarrow> k \<notin> key ` set xs"
  by (induction xs) auto

lemma find_by_Some: "find_by key k xs = Some x \<Longrightarrow> x \<in> set xs \<and> key x = k"
  by (induction xs) (auto split: if_splits)

lemma find_by_mem: "distinct (map key xs) \<Longrightarrow> x \<in> set xs \<Longrightarrow> find_by key (key x) xs = Some x"
  by (induction xs) (auto simp: image_iff)

lemma find_by_upsert:
  assumes "\<And>x. key (f x) = key x"
  shows "find_by key k (upsert_by key f r xs) =
    (if k = key r then Some (case find_by key k xs of None \<Rightarrow> r | Some x \<Rightarrow> f x) else find_by key k xs)"
  using assms by (induction xs) auto

lemma keys_upsert:
  assumes "\<And>x. key (f x) = key x"
  shows "map key (upsert_by key f r xs) = (if key r \<in> key ` set xs then map key xs else map key xs @ [key r])"
  using assms by (induction xs) auto

lemma distinct_upsert:
  assumes "\<And>x. key (f x) = key x"
  shows "distinct (map key xs) \<Longrightarrow> distinct (map key (upsert_by key f r xs))"
  using assms by (induction xs) (auto simp: keys_upsert)

lemma find_by_filter:
  "distinct (map key xs) \<Longrightarrow>
     find_by key k (filter p xs) = (case find_by key k xs of None \<Rightarrow> None | Some x \<Rightarrow> if p x then Some x else None)"
proof (induction xs)
  case (Cons a xs)
  have "find_by key k xs = None" if "key a = k"
    using Cons.prems that by (auto simp: find_by_None)
  with Cons show ?case by auto
qed simp

section \<open>Tables of vectors\<close>

type_synonym 'r table = "(cid \<times> 'r list) list"

text \<open>\<open>get(cid).map(clone).unwrap_or_default()\<close>.\<close>

definition table_get :: "'r table \<Rightarrow> cid \<Rightarrow> 'r list" where
  "table_get m c = (case map_of m c of None \<Rightarrow> [] | Some rs \<Rightarrow> rs)"

text \<open>
  \<open>retain\<close> on the table with a \<open>retain\<close> on each vector, dropping the vectors that become empty, and
  the number of records it removes.
\<close>

definition retain_records :: "('r \<Rightarrow> bool) \<Rightarrow> 'r table \<Rightarrow> 'r table" where
  "retain_records p m = filter (\<lambda>e. snd e \<noteq> []) (map (\<lambda>e. (fst e, filter p (snd e))) m)"

definition table_size :: "'r table \<Rightarrow> nat" where
  "table_size m = sum_list (map (\<lambda>e. length (snd e)) m)"

definition removed_records :: "('r \<Rightarrow> bool) \<Rightarrow> 'r table \<Rightarrow> nat" where
  "removed_records p m = sum_list (map (\<lambda>e. length (snd e) - length (filter p (snd e))) m)"

definition table_ok :: "('r \<Rightarrow> 'k) \<Rightarrow> 'r table \<Rightarrow> bool" where
  "table_ok key m \<longleftrightarrow> distinct (map fst m) \<and> (\<forall>e \<in> set m. snd e \<noteq> [] \<and> distinct (map key (snd e)))"

lemma table_get_Nil [simp]: "table_get [] c = []"
  by (simp add: table_get_def)

lemma table_ok_Nil [simp]: "table_ok key []"
  by (simp add: table_ok_def)

lemma table_get_update: "table_get (AList.update c rs m) c' = (if c' = c then rs else table_get m c')"
  by (simp add: table_get_def update_conv')

lemma set_alist_update_subset: "e \<in> set (AList.update c rs m) \<Longrightarrow> e = (c, rs) \<or> e \<in> set m"
  by (induction m) (auto split: if_splits)

lemma table_ok_update:
  "table_ok key m \<Longrightarrow> rs \<noteq> [] \<Longrightarrow> distinct (map key rs) \<Longrightarrow> table_ok key (AList.update c rs m)"
  unfolding table_ok_def by (auto simp: distinct_update dest!: set_alist_update_subset)

lemma table_ok_get: "table_ok key m \<Longrightarrow> distinct (map key (table_get m c))"
  unfolding table_ok_def table_get_def by (auto split: option.splits dest!: map_of_SomeD)

lemma map_of_retain:
  "distinct (map fst m) \<Longrightarrow>
     map_of (retain_records p m) c =
       (case map_of m c of None \<Rightarrow> None | Some rs \<Rightarrow> if filter p rs = [] then None else Some (filter p rs))"
  unfolding retain_records_def by (induction m) (auto simp: map_of_eq_None_iff image_iff split: option.splits)

lemma table_get_retain: "distinct (map fst m) \<Longrightarrow> table_get (retain_records p m) c = filter p (table_get m c)"
  by (auto simp: table_get_def map_of_retain split: option.splits)

lemma keys_retain: "map fst (retain_records p m) = map fst (filter (\<lambda>e. filter p (snd e) \<noteq> []) m)"
  unfolding retain_records_def by (induction m) auto

lemma table_ok_retain: "table_ok key m \<Longrightarrow> table_ok key (retain_records p m)"
proof -
  assume ok: "table_ok key m"
  have "distinct (map fst (retain_records p m))"
    unfolding keys_retain using ok by (auto simp: table_ok_def distinct_map_filter)
  moreover have "\<forall>e \<in> set (retain_records p m). snd e \<noteq> [] \<and> distinct (map key (snd e))"
    using ok unfolding retain_records_def table_ok_def by (auto simp: distinct_map_filter)
  ultimately show ?thesis by (simp add: table_ok_def)
qed

lemma removed_retain: "table_size (retain_records p m) + removed_records p m = table_size m"
proof -
  have *: "table_size (filter (\<lambda>e. snd e \<noteq> []) m') = table_size m'" for m' :: "'r table"
    unfolding table_size_def by (induction m') auto
  show ?thesis
    unfolding retain_records_def * removed_records_def
    unfolding table_size_def
  proof (induction m)
    case (Cons e m)
    have "length (filter p (snd e)) \<le> length (snd e)" by simp
    with Cons.IH show ?case by (simp del: length_filter_le)
  qed simp
qed

lemma table_ok_keys: "table_ok key m \<Longrightarrow> c \<in> fst ` set m \<longleftrightarrow> table_get m c \<noteq> []"
  unfolding table_ok_def table_get_def
  by (auto split: option.splits simp: map_of_eq_None_iff dest!: map_of_SomeD) (metis fst_conv image_eqI)

section \<open>Announcements over time\<close>

datatype 'x index_op = Announce instant 'x cid node_id | Leave node_id | Expire instant duration

text \<open>
  What a history of operations, latest first, says about a node and an identifier: the time of its
  last announcement, unless the node has left or the announcement has expired since.
\<close>

fun last_announced ::
  "(instant \<Rightarrow> duration \<Rightarrow> instant \<Rightarrow> bool) \<Rightarrow> 'x index_op list \<Rightarrow> cid \<Rightarrow> node_id \<Rightarrow> instant option" where
  "last_announced fresh [] c n = None"
| "last_announced fresh (Announce t x c' n' # past) c n =
     (if c' = c \<and> n' = n then Some t else last_announced fresh past c n)"
| "last_announced fresh (Leave n' # past) c n = (if n' = n then None else last_announced fresh past c n)"
| "last_announced fresh (Expire now ttl # past) c n =
     (case last_announced fresh past c n of None \<Rightarrow> None | Some t \<Rightarrow> if fresh now ttl t then Some t else None)"

fun index_step ::
  "(instant \<Rightarrow> 'x \<Rightarrow> cid \<Rightarrow> node_id \<Rightarrow> 's \<Rightarrow> 's) \<Rightarrow> (node_id \<Rightarrow> 's \<Rightarrow> 's) \<Rightarrow> (instant \<Rightarrow> duration \<Rightarrow> 's \<Rightarrow> 's) \<Rightarrow>
     'x index_op \<Rightarrow> 's \<Rightarrow> 's" where
  "index_step add leave expire (Announce t x c n) s = add t x c n s"
| "index_step add leave expire (Leave n) s = leave n s"
| "index_step add leave expire (Expire now ttl) s = expire now ttl s"

text \<open>The contract of a table of announcements: what each operation does to the time stamps.\<close>

locale timed_index =
  fixes inv :: "'s \<Rightarrow> bool"
    and seen :: "'s \<Rightarrow> cid \<Rightarrow> node_id \<Rightarrow> instant option"
    and start :: 's
    and add :: "instant \<Rightarrow> 'x \<Rightarrow> cid \<Rightarrow> node_id \<Rightarrow> 's \<Rightarrow> 's"
    and leave :: "node_id \<Rightarrow> 's \<Rightarrow> 's"
    and expire :: "instant \<Rightarrow> duration \<Rightarrow> 's \<Rightarrow> 's"
    and fresh :: "instant \<Rightarrow> duration \<Rightarrow> instant \<Rightarrow> bool"
  assumes inv_start: "inv start"
    and seen_start: "seen start c n = None"
    and inv_add: "inv s \<Longrightarrow> inv (add t x c n s)"
    and seen_add: "inv s \<Longrightarrow> seen (add t x c n s) c' n' = (if c' = c \<and> n' = n then Some t else seen s c' n')"
    and inv_leave: "inv s \<Longrightarrow> inv (leave n s)"
    and seen_leave: "inv s \<Longrightarrow> seen (leave n s) c' n' = (if n' = n then None else seen s c' n')"
    and inv_expire: "inv s \<Longrightarrow> inv (expire now ttl s)"
    and seen_expire: "inv s \<Longrightarrow> seen (expire now ttl s) c n =
      (case seen s c n of None \<Rightarrow> None | Some t \<Rightarrow> if fresh now ttl t then Some t else None)"
begin

abbreviation run :: "'x index_op list \<Rightarrow> 's" where
  "run ops \<equiv> foldr (index_step add leave expire) ops start"

lemma run_inv: "inv (run ops)"
proof (induction ops)
  case (Cons op ops)
  then show ?case by (cases op) (auto intro: inv_add inv_leave inv_expire)
qed (simp add: inv_start)

lemma run_seen: "seen (run ops) c n = last_announced fresh ops c n"
proof (induction ops)
  case (Cons op ops)
  then show ?case
    by (cases op) (auto simp: seen_add[OF run_inv] seen_leave[OF run_inv] seen_expire[OF run_inv] split: option.splits)
qed (simp add: seen_start)

lemma gone_after_leave:
  assumes "\<forall>t x. Announce t x c n \<notin> set later"
  shows "seen (run (later @ Leave n # earlier)) c n = None"
proof -
  have "last_announced fresh (later @ Leave n # earlier) c n = None"
    using assms
  proof (induction later)
    case (Cons op later)
    then show ?case by (cases op) auto
  qed simp
  then show ?thesis by (simp only: run_seen)
qed

end

end
