(* ===== verification/Programs.thy ===== *)
theory Programs
  imports Scheduler Tables
begin

text \<open>
  What a node reports about its programs: the agents (\<open>craftec-com/src/agent.rs\<close>) with their names, and the
  listing of the scheduler (\<open>craftec-com/src/scheduler.rs\<close>), which does not depend on the order in
  which the concurrent map gives out its entries.
\<close>

section \<open>Agents\<close>

datatype agent_kind = LocalEviction | ReputationScoring | LoadBalancing | DegradationPolicy | SchemaMigration | Custom cid

fun agent_kind_display :: "hex_api \<Rightarrow> agent_kind \<Rightarrow> string" where
  "agent_kind_display H LocalEviction = ''LocalEviction''"
| "agent_kind_display H ReputationScoring = ''ReputationScoring''"
| "agent_kind_display H LoadBalancing = ''LoadBalancing''"
| "agent_kind_display H DegradationPolicy = ''DegradationPolicy''"
| "agent_kind_display H SchemaMigration = ''SchemaMigration''"
| "agent_kind_display H (Custom c) = ''Custom('' @ cid_display H c @ '')''"

record agent =
  ag_wasm_cid :: cid
  ag_name :: string
  ag_kind :: agent_kind

definition agent_new :: "cid \<Rightarrow> string \<Rightarrow> agent_kind \<Rightarrow> agent" where
  "agent_new c name k = \<lparr>ag_wasm_cid = c, ag_name = name, ag_kind = k\<rparr>"

definition agent_local_eviction :: "cid \<Rightarrow> agent" where
  "agent_local_eviction c = agent_new c ''LocalEviction'' LocalEviction"

definition agent_reputation_scoring :: "cid \<Rightarrow> agent" where
  "agent_reputation_scoring c = agent_new c ''ReputationScoring'' ReputationScoring"

definition agent_load_balancing :: "cid \<Rightarrow> agent" where
  "agent_load_balancing c = agent_new c ''LoadBalancing'' LoadBalancing"

definition agent_degradation_policy :: "cid \<Rightarrow> agent" where
  "agent_degradation_policy c = agent_new c ''DegradationPolicy'' DegradationPolicy"

definition agent_schema_migration :: "cid \<Rightarrow> agent" where
  "agent_schema_migration c = agent_new c ''SchemaMigration'' SchemaMigration"

definition agent_display :: "hex_api \<Rightarrow> agent \<Rightarrow> string" where
  "agent_display H a = ''Agent('' @ ag_name a @ '', wasm='' @ cid_display H (ag_wasm_cid a) @ '')''"

text \<open>The text of a kind determines it.\<close>

lemma agent_kind_display_inj:
  assumes "hex_ok H" "agent_kind_display H k = agent_kind_display H k'"
  shows "k = k'"
proof -
  have "c = c'" if "cid_display H c = cid_display H c'" for c c'
    using that assms(1) unfolding cid_display_def hex_ok_def by (metis cid.expand option.inject)
  then show ?thesis using assms(2) by (cases k; cases k') auto
qed

text \<open>A built-in agent is named as its kind is displayed.\<close>

lemma builtin_agents_named:
  "a \<in> {agent_local_eviction c, agent_reputation_scoring c, agent_load_balancing c, agent_degradation_policy c, agent_schema_migration c} \<Longrightarrow>
   ag_name a = agent_kind_display H (ag_kind a) \<and> ag_wasm_cid a = c"
  by (auto simp: agent_local_eviction_def agent_reputation_scoring_def agent_load_balancing_def agent_degradation_policy_def
      agent_schema_migration_def agent_new_def)

section \<open>The listing of programs\<close>

text \<open>The concurrent map gives out its entries in an order of its own.\<close>

definition program_entries :: "(cid \<times> program_state) list \<Rightarrow> scheduler \<Rightarrow> bool" where
  "program_entries es sc \<longleftrightarrow> distinct (map fst es) \<and> map_of es = sc_programs sc"

definition list_programs :: "(cid \<times> program_state) list \<Rightarrow> (cid \<times> program_state) list" where
  "list_programs es = sort_key fst es"

definition program_count :: "(cid \<times> program_state) list \<Rightarrow> nat" where
  "program_count es = length es"

lemma list_programs_exact:
  assumes "program_entries es sc"
  shows "list_programs es = map (\<lambda>c. (c, the (sc_programs sc c))) (sorted_list_of_set (dom (sc_programs sc)))"
proof -
  have d: "distinct (map fst (list_programs es))" "sorted (map fst (list_programs es))"
    using assms by (simp_all add: list_programs_def program_entries_def distinct_map inj_on_def)
  have k: "set (map fst (list_programs es)) = dom (sc_programs sc)"
    using assms by (simp add: list_programs_def program_entries_def dom_map_of_conv_image_fst flip: dom_map_of_conv_image_fst)
  then have "map fst (list_programs es) = sorted_list_of_set (dom (sc_programs sc))"
    using d sorted_list_of_set.idem_if_sorted_distinct by metis
  moreover have "snd x = the (sc_programs sc (fst x))" if "x \<in> set (list_programs es)" for x
  proof -
    have "x \<in> set es" using that by (simp add: list_programs_def)
    then have "map_of es (fst x) = Some (snd x)" using assms by (intro map_of_is_SomeI) (simp_all add: program_entries_def)
    then show ?thesis using assms by (simp add: program_entries_def)
  qed
  then have "list_programs es = map (\<lambda>c. (c, the (sc_programs sc c))) (map fst (list_programs es))"
    by (intro nth_equalityI) (simp_all add: prod_eq_iff)
  ultimately show ?thesis by simp
qed

lemma program_count_exact: "program_entries es sc \<Longrightarrow> program_count es = card (dom (sc_programs sc))"
  by (metis distinct_card dom_map_of_conv_image_fst length_map list.set_map program_count_def program_entries_def)

text \<open>The tables stay finite, so there are entries to list.\<close>

lemma sched_do_finite:
  assumes "finite (dom (sc_programs (ss_sched sys)))"
  shows "finite (dom (sc_programs (ss_sched (sched_do W a sys))))"
proof (cases a)
  case (ActRun i r)
  obtain m ph sc where r: "after_run r (pt_cid (ss_tasks sys ! i)) (pt_crashes (ss_tasks sys ! i)) (ss_sched sys) = (m, ph, sc)"
    by (cases "after_run r (pt_cid (ss_tasks sys ! i)) (pt_crashes (ss_tasks sys ! i)) (ss_sched sys)")
  then have "finite (dom (sc_programs sc))" using assms
    by (auto simp: after_run_def set_program_def set_crashes_def Let_def split: option.splits sum.splits com_error.splits if_splits)
  then show ?thesis using assms by (simp add: ActRun task_run_def r Let_def)
qed (use assms in \<open>auto simp: load_program_def start_fetched_def start_spawn_def stop_program_def task_wake_def
      set_program_def set_crashes_def set_phase_def Let_def split: sum.splits option.splits task_phase.splits if_splits\<close>)

lemma sched_exec_finite: "finite (dom (sc_programs (ss_sched sys))) \<Longrightarrow> finite (dom (sc_programs (ss_sched (sched_exec W as sys))))"
  by (induction W as sys rule: sched_exec.induct) (simp_all add: sched_do_finite)

lemma program_entries_exist:
  assumes "finite (dom (sc_programs sc))"
  shows "\<exists>es. program_entries es sc"
proof -
  let ?ks = "sorted_list_of_set (dom (sc_programs sc))"
  have "program_entries (map (\<lambda>c. (c, the (sc_programs sc c))) ?ks) sc"
    using assms by (auto simp: program_entries_def comp_def map_of_map_restrict restrict_map_def fun_eq_iff) (metis not_None_eq)
  then show ?thesis by blast
qed

text \<open>
  Whatever was loaded, started and stopped, the programs can be listed, and every order of the entries gives the
  same list: each program once, by increasing identifier, with its state.
\<close>

lemma listing_deterministic:
  assumes "sc = ss_sched (sched_exec W as system_new)"
  shows "\<exists>ps. sorted (map fst ps) \<and> distinct (map fst ps) \<and> map_of ps = scheduler_state sc \<and>
    (\<exists>es. program_entries es sc) \<and> (\<forall>es. program_entries es sc \<longrightarrow> list_programs es = ps \<and> program_count es = length ps)"
proof -
  have "finite (dom (sc_programs sc))"
    unfolding assms by (rule sched_exec_finite) (simp add: system_new_def scheduler_new_def)
  then obtain es where e: "program_entries es sc" using program_entries_exist by blast
  have l: "list_programs es' = list_programs es \<and> program_count es' = length (list_programs es)" if "program_entries es' sc" for es'
    using list_programs_exact[OF that] list_programs_exact[OF e] program_count_exact[OF that] program_count_exact[OF e]
    by (simp add: program_count_def list_programs_def)
  have "map_of (list_programs es) = scheduler_state sc"
    using list_programs_exact[OF e] \<open>finite _\<close> by (auto simp: map_of_map_restrict restrict_map_def scheduler_state_def fun_eq_iff domIff)
  moreover have "sorted (map fst (list_programs es)) \<and> distinct (map fst (list_programs es))"
    using list_programs_exact[OF e] by (simp add: comp_def)
  ultimately show ?thesis using e l by blast
qed

end
