(* ===== verification/Hlc.thy ===== *)
theory Hlc
  imports Prelude
begin

text \<open>
  The hybrid logical clock of \<open>craftec-types/src/hlc.rs\<close>: the packed 64-bit timestamp, the new
  timestamp that one iteration of the compare-and-swap loops computes, the admission checks of
  \<open>observe\<close>, and the clock shared by concurrent threads as a transition system.
\<close>

section \<open>Packing\<close>

definition pack :: "u64 \<Rightarrow> u16 \<Rightarrow> u64" where
  "pack wall_ms logical = push_bit 16 wall_ms OR ucast logical"

definition unpack :: "u64 \<Rightarrow> u64 \<times> u16" where
  "unpack ts = (drop_bit 16 ts, ucast (ts AND 0xFFFF))"

section \<open>Operations\<close>

definition MAX_SKEW_MS :: u64 where "MAX_SKEW_MS = 500"
definition REPLAY_WINDOW_MS :: u64 where "REPLAY_WINDOW_MS = 30000"

datatype hlc_error = ClockSkew u64 u64 u64 | ReplayDetected u64 u64 u64

definition hlc_new :: "u64 \<Rightarrow> u64" where
  "hlc_new wall = pack wall 0"

text \<open>The timestamp one iteration of \<open>now\<close> proposes for the loaded state and a clock reading.\<close>

definition now_ts :: "u64 \<Rightarrow> u64 \<Rightarrow> u64" where
  "now_ts old current_wall =
     (let (old_wall, old_logical) = unpack old
      in if current_wall > old_wall then pack current_wall 0
         else if old_logical = 0xFFFF then pack (old_wall + 1) 0
         else pack old_wall (old_logical + 1))"

definition abs_diff64 :: "u64 \<Rightarrow> u64 \<Rightarrow> u64" where
  "abs_diff64 a b = (if a < b then b - a else a - b)"

definition observe_check :: "u64 \<Rightarrow> u64 \<Rightarrow> (unit, hlc_error) result" where
  "observe_check remote_ts current_wall =
     (let remote_wall = fst (unpack remote_ts) in
      if remote_wall > current_wall + MAX_SKEW_MS
      then Inl (ClockSkew current_wall remote_wall (remote_wall - current_wall))
      else let delta = abs_diff64 remote_wall current_wall in
        if delta > REPLAY_WINDOW_MS then Inl (ReplayDetected current_wall remote_wall delta)
        else Inr ())"

definition observe_ts :: "u64 \<Rightarrow> u64 \<Rightarrow> u64 \<Rightarrow> u64" where
  "observe_ts old remote_ts current_wall =
     (let (remote_wall, remote_logical) = unpack remote_ts;
          (old_wall, old_logical) = unpack old
      in if current_wall > old_wall \<and> current_wall > remote_wall then pack current_wall 0
         else if old_wall > remote_wall then pack old_wall (saturating_add16 old_logical 1)
         else if remote_wall > old_wall then pack remote_wall (saturating_add16 remote_logical 1)
         else let max_logical = max old_logical remote_logical
              in if max_logical = 0xFFFF then pack (old_wall + 1) 0
                 else pack old_wall (max_logical + 1))"

definition is_within_replay_window :: "u64 \<Rightarrow> u64 \<Rightarrow> bool" where
  "is_within_replay_window ts current = (abs_diff64 (fst (unpack ts)) current \<le> REPLAY_WINDOW_MS)"

section \<open>The clock under concurrent use\<close>

text \<open>
  A thread loads the state, computes the proposal and tries to install it; the exchange
  succeeds only if the state is still the loaded one (it may also fail spuriously) and the
  thread then reloads.  \<open>now\<close> reads the wall clock in every iteration, \<open>observe\<close> only once.
  Every reading is at most \<open>W\<close>; the readings need not increase.  The log records, newest first,
  the timestamps returned by \<open>now\<close> and the remote timestamps accepted by \<open>observe\<close>.
\<close>

datatype hlc_op = HNow | HObserve u64

datatype hlc_event = Issued (event_ts: u64) | Observed (event_ts: u64)

record hlc_state =
  hs_clock :: u64
  hs_threads :: "nat \<Rightarrow> (hlc_op \<times> u64 \<times> u64) option"
  hs_log :: "hlc_event list"

definition hlc_propose :: "hlc_op \<Rightarrow> u64 \<Rightarrow> u64 \<Rightarrow> u64" where
  "hlc_propose op old w = (case op of HNow \<Rightarrow> now_ts old w | HObserve r \<Rightarrow> observe_ts old r w)"

definition hlc_record :: "hlc_op \<Rightarrow> u64 \<Rightarrow> hlc_event" where
  "hlc_record op new = (case op of HNow \<Rightarrow> Issued new | HObserve r \<Rightarrow> Observed r)"

inductive hlc_step :: "nat \<Rightarrow> hlc_state \<Rightarrow> hlc_state \<Rightarrow> bool" for W :: nat where
  start_now: "hs_threads s t = None \<Longrightarrow> unat w \<le> W \<Longrightarrow>
    hlc_step W s (s\<lparr>hs_threads := (hs_threads s)(t \<mapsto> (HNow, hs_clock s, w))\<rparr>)"
| start_observe: "hs_threads s t = None \<Longrightarrow> unat w \<le> W \<Longrightarrow> observe_check r w = Inr () \<Longrightarrow>
    hlc_step W s (s\<lparr>hs_threads := (hs_threads s)(t \<mapsto> (HObserve r, hs_clock s, w))\<rparr>)"
| exchange: "hs_threads s t = Some (op, old, w) \<Longrightarrow> hs_clock s = old \<Longrightarrow>
    hlc_step W s (s\<lparr>hs_clock := hlc_propose op old w, hs_threads := (hs_threads s)(t := None),
                    hs_log := hlc_record op (hlc_propose op old w) # hs_log s\<rparr>)"
| retry: "hs_threads s t = Some (op, old, w) \<Longrightarrow> unat w' \<le> W \<Longrightarrow> op \<noteq> HNow \<longrightarrow> w' = w \<Longrightarrow>
    hlc_step W s (s\<lparr>hs_threads := (hs_threads s)(t \<mapsto> (op, hs_clock s, w'))\<rparr>)"

inductive_cases hlc_stepE: "hlc_step W s t"

inductive hlc_reachable :: "nat \<Rightarrow> hlc_state \<Rightarrow> bool" for W :: nat where
  init: "unat w \<le> W \<Longrightarrow> hlc_reachable W \<lparr>hs_clock = hlc_new w, hs_threads = \<lambda>_. None, hs_log = []\<rparr>"
| step: "hlc_reachable W s \<Longrightarrow> hlc_step W s t \<Longrightarrow> hlc_reachable W t"

section \<open>Packing as arithmetic\<close>

lemma unat_pack: "unat wall < 2 ^ 48 \<Longrightarrow> unat (pack wall l) = unat wall * 65536 + unat l"
proof -
  assume w: "unat wall < 2 ^ 48"
  have p: "push_bit 16 wall = wall * 65536" by (simp add: push_bit_eq_mult)
  have l: "unat (ucast l :: u64) = unat l" by (simp add: unsigned_ucast_eq take_bit_nat_eq_self_iff)
       (use unat_lt2p[of l] in \<open>simp add: take_bit_nat_eq_self\<close>)
  have d: "push_bit 16 wall AND ucast l = (0 :: u64)"
    by (rule bit_word_eqI) (auto simp: bit_and_iff bit_push_bit_iff bit_ucast_iff dest: bit_imp_le_length)
  have "push_bit 16 wall OR ucast l = push_bit 16 wall + ucast l"
    using d by (simp add: disjunctive_add_eq_or)
  moreover have "unat (wall * 65536) = unat wall * 65536"
    using w by (simp add: unat_word_ariths)
  moreover have "unat l < 65536" using unat_lt2p[of l] by simp
  ultimately show ?thesis using w l unfolding pack_def p by (simp add: unat_word_ariths)
qed

lemma unat_unpack: "unat (fst (unpack ts)) = unat ts div 65536" "unat (snd (unpack ts)) = unat ts mod 65536"
proof -
  show "unat (fst (unpack ts)) = unat ts div 65536"
    unfolding unpack_def fst_conv unat_drop_bit_eq by (simp add: drop_bit_eq_div)
  have "ts AND 0xFFFF = take_bit 16 ts" using take_bit_eq_mask[of 16 ts] by (simp add: mask_eq_exp_minus_1)
  then have "unat (snd (unpack ts)) = take_bit 16 (unat ts)"
    by (simp add: unpack_def unsigned_ucast_eq unsigned_take_bit_eq)
  then show "unat (snd (unpack ts)) = unat ts mod 65536" by (simp add: take_bit_eq_mod)
qed

lemma ts_split: "unat ts = unat (fst (unpack ts)) * 65536 + unat (snd (unpack ts))"
  unfolding unat_unpack by simp

lemma wall_lt: "unat (fst (unpack ts)) < 2 ^ 48"
proof -
  have "unat ts < 2 ^ 64" using unat_lt2p[of ts] by simp
  then show ?thesis by (simp add: unat_unpack less_mult_imp_div_less)
qed

lemma unat_add_1: "unat (w :: 'a::len word) + 1 < 2 ^ LENGTH('a) \<Longrightarrow> unat (w + 1) = unat w + 1"
  by (simp add: unat_word_ariths)

lemma u16_less_max: "(l :: u16) \<noteq> 0xFFFF \<Longrightarrow> unat l + 1 < 2 ^ LENGTH(16)"
proof -
  assume "l \<noteq> 0xFFFF"
  then have "unat l \<noteq> unat (0xFFFF :: u16)" by (simp only: word_unat_eq_iff [symmetric]) simp
  then show ?thesis using unat_lt2p[of l] by simp
qed

lemma unat_saturating_add16: "unat l \<le> unat (saturating_add16 l 1) \<and> unat (saturating_add16 l 1) \<le> unat l + 1"
proof (cases "unat l + 1 < 2 ^ 16")
  case True
  then show ?thesis using unat_add_1[of l] by (simp add: saturating_add16_def)
next
  case False
  then have "unat l = 65535" using unat_lt2p[of l] by simp
  then show ?thesis using False by (simp add: saturating_add16_def)
qed

lemma pack_less:
  assumes "unat wall < 2 ^ 48" "unat (fst (unpack old)) < unat wall"
  shows "unat old < unat (pack wall l)"
proof -
  have "unat (snd (unpack old)) < 65536" using unat_lt2p[of "snd (unpack old)"] by simp
  then show ?thesis using assms ts_split[of old] by (simp add: unat_pack)
qed

lemma pack_div: "unat wall < 2 ^ 48 \<Longrightarrow> unat (pack wall l) div 65536 = unat wall"
  using unat_lt2p[of l] by (simp add: unat_pack)

lemma pack_self:
  "unat (pack (fst (unpack ts)) l) = unat (fst (unpack ts)) * 65536 + unat l"
  "unat (pack (fst (unpack ts)) l) div 65536 = unat (fst (unpack ts))"
  by (rule unat_pack[OF wall_lt] pack_div[OF wall_lt])+

section \<open>One iteration\<close>

text \<open>The wall part of a timestamp as a number.\<close>

definition wall_of :: "u64 \<Rightarrow> nat" where
  "wall_of ts = unat ts div 65536"

lemma wall_of_unpack: "unat (fst (unpack ts)) = wall_of ts"
  by (simp add: unat_unpack wall_of_def)

lemma pack_next_wall:
  assumes "wall_of old + 1 < 2 ^ 48"
  shows "unat old < unat (pack (fst (unpack old) + 1) 0)" "wall_of (pack (fst (unpack old) + 1) 0) = wall_of old + 1"
proof -
  have w: "unat (fst (unpack old) + 1) = wall_of old + 1"
    using assms unat_add_1[of "fst (unpack old)"] by (simp add: wall_of_unpack)
  show "unat old < unat (pack (fst (unpack old) + 1) 0)"
    by (rule pack_less) (use assms w in \<open>simp_all add: wall_of_unpack\<close>)
  show "wall_of (pack (fst (unpack old) + 1) 0) = wall_of old + 1"
    using assms w by (simp add: wall_of_def [of "pack _ _"] pack_div)
qed

lemma now_ts_step:
  assumes "unat w < 2 ^ 48" "wall_of old + 1 < 2 ^ 48"
  shows "unat old < unat (now_ts old w)" "wall_of (now_ts old w) \<le> max (unat w) (wall_of old + 1)"
proof -
  let ?ow = "fst (unpack old)" and ?ol = "snd (unpack old)"
  have e: "now_ts old w = (if w > ?ow then pack w 0 else if ?ol = 0xFFFF then pack (?ow + 1) 0 else pack ?ow (?ol + 1))"
    by (simp add: now_ts_def case_prod_beta)
  have "unat old < unat (now_ts old w) \<and> wall_of (now_ts old w) \<le> max (unat w) (wall_of old + 1)"
  proof (cases "w > ?ow")
    case True
    then show ?thesis using pack_less[of w old 0] assms(1)
      by (simp add: e word_less_nat_alt wall_of_def pack_div)
  next
    case False
    show ?thesis
    proof (cases "?ol = 0xFFFF")
      case True
      then show ?thesis using False pack_next_wall[OF assms(2)] by (simp add: e)
    next
      case ol: False
      have "unat (?ol + 1) = unat ?ol + 1" by (rule unat_add_1[OF u16_less_max[OF ol]])
      then have "unat (pack ?ow (?ol + 1)) = unat old + 1"
        using ts_split[of old] by (simp add: pack_self)
      then show ?thesis using False ol pack_self(2)[of old] by (simp add: e wall_of_def unat_unpack)
    qed
  qed
  then show "unat old < unat (now_ts old w)" "wall_of (now_ts old w) \<le> max (unat w) (wall_of old + 1)" by auto
qed

lemma pack_saturating:
  "unat ts \<le> unat (pack (fst (unpack ts)) (saturating_add16 (snd (unpack ts)) 1))"
  "wall_of (pack (fst (unpack ts)) (saturating_add16 (snd (unpack ts)) 1)) = wall_of ts"
  using ts_split[of ts] unat_saturating_add16[of "snd (unpack ts)"]
  by (simp add: pack_self(1), simp only: wall_of_def[of "pack _ _"] pack_self(2) wall_of_unpack)

lemma observe_ts_step:
  assumes "unat w < 2 ^ 48" "wall_of old + 1 < 2 ^ 48"
  shows "unat old \<le> unat (observe_ts old r w)" "unat r \<le> unat (observe_ts old r w)"
    "wall_of (observe_ts old r w) \<le> max (unat w) (max (wall_of r) (wall_of old + 1))"
proof -
  let ?ow = "fst (unpack old)" and ?ol = "snd (unpack old)" and ?rw = "fst (unpack r)" and ?rl = "snd (unpack r)"
  let ?m = "max ?ol ?rl"
  have e: "observe_ts old r w =
      (if w > ?ow \<and> w > ?rw then pack w 0
       else if ?ow > ?rw then pack ?ow (saturating_add16 ?ol 1)
       else if ?rw > ?ow then pack ?rw (saturating_add16 ?rl 1)
       else if ?m = 0xFFFF then pack (?ow + 1) 0 else pack ?ow (?m + 1))"
    by (simp add: observe_ts_def case_prod_beta Let_def)
  have lt: "unat a < unat b" if "fst (unpack a) < fst (unpack b)" for a b
    using that ts_split[of a] ts_split[of b] unat_lt2p[of "snd (unpack a)"] by (simp add: word_less_nat_alt)
  consider "w > ?ow" "w > ?rw" | "\<not> (w > ?ow \<and> w > ?rw)" "?ow > ?rw" | "\<not> (w > ?ow \<and> w > ?rw)" "?rw > ?ow"
    | "\<not> (w > ?ow \<and> w > ?rw)" "?rw = ?ow" by fastforce
  then have "unat old \<le> unat (observe_ts old r w) \<and> unat r \<le> unat (observe_ts old r w) \<and>
      wall_of (observe_ts old r w) \<le> max (unat w) (max (wall_of r) (wall_of old + 1))"
  proof cases
    case 1
    then show ?thesis using pack_less[of w old 0] pack_less[of w r 0] assms(1)
      by (simp add: e word_less_nat_alt wall_of_def pack_div)
  next
    case 2
    have "observe_ts old r w = pack ?ow (saturating_add16 ?ol 1)"
      using e unfolding if_not_P[OF 2(1)] if_P[OF 2(2)] .
    then show ?thesis using pack_saturating[of old] lt[OF 2(2)] by simp
  next
    case 3
    then have n: "\<not> ?ow > ?rw" by simp
    have "observe_ts old r w = pack ?rw (saturating_add16 ?rl 1)"
      using e unfolding if_not_P[OF 3(1)] if_not_P[OF n] if_P[OF 3(2)] .
    then show ?thesis using pack_saturating[of r] lt[OF 3(2)] by simp
  next
    case 4
    then have o: "unat old = unat ?ow * 65536 + unat ?ol" "unat r = unat ?ow * 65536 + unat ?rl"
      using ts_split[of old] ts_split[of r] by simp_all
    have m: "unat ?ol \<le> unat ?m" "unat ?rl \<le> unat ?m" by (simp_all add: word_le_nat_alt [symmetric])
    have e4: "observe_ts old r w = (if ?m = 0xFFFF then pack (?ow + 1) 0 else pack ?ow (?m + 1))"
    proof -
      have n: "\<not> ?ow > ?rw" "\<not> ?rw > ?ow" using 4(2) by simp_all
      show ?thesis using e unfolding if_not_P[OF 4(1)] if_not_P[OF n(1)] if_not_P[OF n(2)] .
    qed
    show ?thesis
    proof (cases "?m = 0xFFFF")
      case True
      have "unat ?rl < 65536" using unat_lt2p[of ?rl] by simp
      then have "unat r < unat (pack (?ow + 1) 0)"
        using pack_less[of "?ow + 1" r 0] 4(2) assms(2) unat_add_1[of ?ow] by (simp add: wall_of_unpack)
      then show ?thesis using True pack_next_wall[OF assms(2)] by (simp add: e4)
    next
      case False
      then have "unat (?m + 1) = unat ?m + 1" by (intro unat_add_1 u16_less_max)
      then have "unat (pack ?ow (?m + 1)) = unat ?ow * 65536 + unat ?m + 1" by (simp add: pack_self)
      moreover have "wall_of (pack ?ow (?m + 1)) = wall_of old" by (simp add: wall_of_def[of "pack _ _"] pack_self(2) wall_of_unpack)
      ultimately show ?thesis using False o m by (simp add: e4)
    qed
  qed
  then show "unat old \<le> unat (observe_ts old r w)" "unat r \<le> unat (observe_ts old r w)"
    "wall_of (observe_ts old r w) \<le> max (unat w) (max (wall_of r) (wall_of old + 1))" by auto
qed

lemma observe_check_wall:
  assumes "observe_check r w = Inr ()" "unat w + 500 < 2 ^ 48"
  shows "wall_of r \<le> unat w + 500"
proof -
  have "fst (unpack r) \<le> w + MAX_SKEW_MS"
    using assms(1) by (auto simp: observe_check_def Let_def split: if_splits)
  then have "unat (fst (unpack r)) \<le> unat (w + MAX_SKEW_MS)" by (simp only: word_le_nat_alt)
  moreover have "unat (w + MAX_SKEW_MS) = unat w + 500"
    using assms(2) by (simp add: unat_word_ariths MAX_SKEW_MS_def)
  ultimately show ?thesis by (simp add: wall_of_unpack)
qed

section \<open>The invariant of the shared clock\<close>

fun log_ordered :: "hlc_event list \<Rightarrow> bool" where
  "log_ordered [] = True"
| "log_ordered (Issued ts # es) = (list_all (\<lambda>e. event_ts e < ts) es \<and> log_ordered es)"
| "log_ordered (Observed r # es) = log_ordered es"

definition thread_ok :: "nat \<Rightarrow> (hlc_op \<times> u64 \<times> u64) option \<Rightarrow> bool" where
  "thread_ok W th = (case th of None \<Rightarrow> True
     | Some (op, old, w) \<Rightarrow> unat w \<le> W \<and> (case op of HNow \<Rightarrow> True | HObserve r \<Rightarrow> wall_of r \<le> W + 500))"

definition hlc_inv :: "nat \<Rightarrow> hlc_state \<Rightarrow> bool" where
  "hlc_inv W s \<longleftrightarrow> wall_of (hs_clock s) \<le> W + 500 + length (hs_log s) \<and>
     (\<forall>t. thread_ok W (hs_threads s t)) \<and> log_ordered (hs_log s) \<and>
     list_all (\<lambda>e. event_ts e \<le> hs_clock s) (hs_log s)"

lemma propose_step:
  assumes "thread_ok W (Some (op, old, w))" "wall_of old \<le> W + 500 + n" "W + 501 + n < 2 ^ 48"
  shows "old \<le> hlc_propose op old w" "wall_of (hlc_propose op old w) \<le> W + 500 + Suc n"
    "op = HNow \<Longrightarrow> old < hlc_propose op old w" "event_ts (hlc_record op (hlc_propose op old w)) \<le> hlc_propose op old w"
proof -
  have w: "unat w < 2 ^ 48" "wall_of old + 1 < 2 ^ 48" "unat w \<le> W" using assms by (auto simp: thread_ok_def)
  have "old \<le> hlc_propose op old w \<and> wall_of (hlc_propose op old w) \<le> W + 500 + Suc n \<and>
      (op = HNow \<longrightarrow> old < hlc_propose op old w) \<and> event_ts (hlc_record op (hlc_propose op old w)) \<le> hlc_propose op old w"
  proof (cases op)
    case HNow
    then show ?thesis using now_ts_step[OF w(1,2)] w assms(2)
      by (auto simp: hlc_propose_def hlc_record_def word_less_nat_alt word_le_nat_alt)
  next
    case (HObserve r)
    then have "wall_of r \<le> W + 500" using assms(1) by (simp add: thread_ok_def)
    then show ?thesis using HObserve observe_ts_step[OF w(1,2), of r] w assms(2)
      by (auto simp: hlc_propose_def hlc_record_def word_le_nat_alt)
  qed
  then show "old \<le> hlc_propose op old w" "wall_of (hlc_propose op old w) \<le> W + 500 + Suc n"
    "op = HNow \<Longrightarrow> old < hlc_propose op old w" "event_ts (hlc_record op (hlc_propose op old w)) \<le> hlc_propose op old w"
    by auto
qed

lemma hlc_step_inv:
  assumes "hlc_step W s t" "hlc_inv W s" "W + 501 + length (hs_log s) < 2 ^ 48"
  shows "hlc_inv W t"
  using assms(1)
proof cases
  case (start_now t w)
  then show ?thesis using assms(2) by (simp add: hlc_inv_def thread_ok_def)
next
  case (start_observe t w r)
  then have "wall_of r \<le> W + 500" using observe_check_wall[of r w] assms(3) by simp
  with start_observe assms(2) show ?thesis by (simp add: hlc_inv_def thread_ok_def)
next
  case (exchange t op old w)
  let ?new = "hlc_propose op old w"
  have th: "thread_ok W (Some (op, old, w))" using assms(2) exchange(2) by (metis hlc_inv_def)
  have wo: "wall_of old \<le> W + 500 + length (hs_log s)" using assms(2) exchange(3) by (simp add: hlc_inv_def)
  note p = propose_step[OF th wo assms(3)]
  have le: "list_all (\<lambda>e. event_ts e \<le> old) (hs_log s)" using assms(2) exchange(3) by (simp add: hlc_inv_def)
  have all: "list_all (\<lambda>e. event_ts e \<le> ?new) (hs_log s)"
    using le p(1) by (auto simp: list_all_iff)
  moreover have "log_ordered (hlc_record op ?new # hs_log s)"
  proof (cases op)
    case HNow
    then have "list_all (\<lambda>e. event_ts e < ?new) (hs_log s)"
      using le p(3) by (auto simp: list_all_iff)
    then show ?thesis using assms(2) HNow by (simp add: hlc_inv_def hlc_record_def)
  next
    case (HObserve r)
    then show ?thesis using assms(2) by (simp add: hlc_inv_def hlc_record_def)
  qed
  ultimately show ?thesis using assms(2) exchange p(2,4)
    by (simp add: hlc_inv_def thread_ok_def)
next
  case (retry t op old w w')
  then have "thread_ok W (Some (op, old, w))" using assms(2) by (metis hlc_inv_def)
  with retry assms(2) show ?thesis by (auto simp: hlc_inv_def thread_ok_def split: hlc_op.splits)
qed

lemma hlc_step_log: "hlc_step W s t \<Longrightarrow> length (hs_log s) \<le> length (hs_log t)"
  by (auto elim: hlc_stepE)

lemma hlc_reachable_inv: "hlc_reachable W s \<Longrightarrow> W + 501 + length (hs_log s) < 2 ^ 48 \<Longrightarrow> hlc_inv W s"
proof (induction rule: hlc_reachable.induct)
  case (init w)
  then have "wall_of (hlc_new w) = unat w" by (simp add: wall_of_def hlc_new_def pack_div)
  with init show ?case by (simp add: hlc_inv_def thread_ok_def)
next
  case (step s t)
  then show ?case using hlc_step_inv[of W s t] hlc_step_log[of W s t] by simp
qed

lemma unpack_pack: "unat wall < 2 ^ 48 \<Longrightarrow> unpack (pack wall l) = (wall, l)"
proof -
  assume w: "unat wall < 2 ^ 48"
  have l: "unat l < 65536" using unat_lt2p[of l] by simp
  have "unat (fst (unpack (pack wall l))) = unat wall" "unat (snd (unpack (pack wall l))) = unat l"
    using w l by (simp_all add: unat_unpack unat_pack)
  then show ?thesis by (simp add: prod_eq_iff word_unat_eq_iff)
qed

lemma pack_unpack: "pack (fst (unpack ts)) (snd (unpack ts)) = ts"
  using ts_split[of ts] by (simp add: word_unat_eq_iff pack_self(1))

section \<open>Properties\<close>

text \<open>
  C6. Ordering under concurrency.  Any number of threads call \<open>now\<close> and \<open>observe\<close> on one clock, in
  any interleaving, with failing exchanges and with wall-clock readings that may jump back.  As
  long as the 48 bits of milliseconds are not exhausted, every timestamp returned by \<open>now\<close> is
  strictly greater than every timestamp returned earlier on the node and than every remote
  timestamp observed earlier, and the clock is never below any of them.
\<close>

theorem hlc_monotone:
  assumes "hlc_reachable W s" "W + 501 + length (hs_log s) < 2 ^ 48"
  shows "(\<forall>i j ts. i < j \<longrightarrow> j < length (hs_log s) \<longrightarrow> hs_log s ! i = Issued ts \<longrightarrow> event_ts (hs_log s ! j) < ts) \<and>
    (\<forall>e \<in> set (hs_log s). event_ts e \<le> hs_clock s)"
proof -
  have i: "hlc_inv W s" by (rule hlc_reachable_inv[OF assms])
  have "log_ordered es \<Longrightarrow> i < j \<Longrightarrow> j < length es \<Longrightarrow> es ! i = Issued ts \<Longrightarrow> event_ts (es ! j) < ts" for es i j ts
  proof (induction es arbitrary: i j rule: log_ordered.induct)
    case (2 t es)
    then show ?case by (cases i; cases j) (auto simp: list_all_length)
  next
    case (3 r es)
    then show ?case by (cases i; cases j) auto
  qed simp
  with i show ?thesis by (auto simp: hlc_inv_def list_all_iff)
qed

theorem hlc_monotone_witness:
  "let s = \<lparr>hs_clock = now_ts (hlc_new 5) 3, hs_threads = \<lambda>_. None, hs_log = [Issued (now_ts (hlc_new 5) 3)]\<rparr>
   in hlc_reachable 5 s \<and> (\<forall>e \<in> set (hs_log s). event_ts e \<le> hs_clock s)"
proof -
  let ?a = "\<lparr>hs_clock = hlc_new 5, hs_threads = \<lambda>_. None, hs_log = []\<rparr>"
  let ?b = "\<lparr>hs_clock = hlc_new 5, hs_threads = [0 \<mapsto> (HNow, hlc_new 5, 3)], hs_log = []\<rparr>"
  let ?c = "\<lparr>hs_clock = now_ts (hlc_new 5) 3, hs_threads = \<lambda>_. None, hs_log = [Issued (now_ts (hlc_new 5) 3)]\<rparr>"
  have "hlc_reachable 5 ?a" by (rule hlc_reachable.init) simp
  moreover have "hlc_step 5 ?a ?b" using hlc_step.start_now[of ?a 0 3 5] by simp
  moreover have "hlc_step 5 ?b ?c"
    using hlc_step.exchange[of ?b 0 HNow "hlc_new 5" 3 5] by (simp add: hlc_propose_def hlc_record_def)
  ultimately have c: "hlc_reachable 5 ?c" by (blast intro: hlc_reachable.step)
  from hlc_monotone[OF c] c show ?thesis unfolding Let_def by simp
qed

text \<open>
  Admission of remote timestamps.  For a local reading in the 48-bit range \<open>observe\<close> accepts a
  remote timestamp exactly when its wall part is at most 500 ms ahead and at most 30 s behind;
  a larger lead gives \<open>ClockSkew\<close> and a larger lag \<open>ReplayDetected\<close>, each with the difference.
\<close>

theorem observe_admission:
  assumes "unat w + 500 < 2 ^ 48"
  shows "case observe_check r w of
      Inr _ \<Rightarrow> wall_of r \<le> unat w + 500 \<and> unat w \<le> wall_of r + 30000
    | Inl (ClockSkew l x d) \<Rightarrow> unat w + 500 < wall_of r \<and> l = w \<and> unat d = wall_of r - unat w
    | Inl (ReplayDetected l x d) \<Rightarrow> wall_of r + 30000 < unat w \<and> l = w \<and> unat d = unat w - wall_of r"
proof -
  let ?r = "fst (unpack r)"
  have skew: "?r > w + MAX_SKEW_MS \<longleftrightarrow> unat w + 500 < wall_of r"
    using assms by (simp add: word_less_nat_alt unat_word_ariths MAX_SKEW_MS_def wall_of_unpack)
  have sub: "a < b \<Longrightarrow> unat (b - a) = unat b - unat a" for a b :: u64
    by (simp add: unat_sub word_less_nat_alt word_le_nat_alt)
  have diff: "unat (abs_diff64 ?r w) = (if wall_of r < unat w then unat w - wall_of r else wall_of r - unat w)"
    using sub[of ?r w] unat_sub[of w ?r]
    by (simp add: abs_diff64_def word_less_nat_alt word_le_nat_alt wall_of_unpack)
  have win: "abs_diff64 ?r w > REPLAY_WINDOW_MS \<longleftrightarrow> 30000 < unat (abs_diff64 ?r w)"
    by (simp add: word_less_nat_alt REPLAY_WINDOW_MS_def)
  have big: "unat w + 500 < wall_of r \<Longrightarrow> unat (?r - w) = wall_of r - unat w"
    using sub[of w ?r] by (simp add: word_less_nat_alt wall_of_unpack)
  show ?thesis unfolding observe_check_def Let_def skew win using diff big by auto
qed

theorem observe_admission_witness:
  "unat (1000 :: u64) + 500 < 2 ^ 48 \<and> observe_check (pack 1501 0) 1000 = Inl (ClockSkew 1000 1501 501)"
proof -
  have w: "unat (1000 :: u64) + 500 < 2 ^ 48" by simp
  have p: "wall_of (pack 1501 0) = 1501" by (simp add: wall_of_def pack_div)
  have u: "unpack (pack 1501 0) = (1501, 0)" by (simp add: unpack_pack)
  show ?thesis using observe_admission[OF w, of "pack 1501 0"] w
    by (simp add: observe_check_def u MAX_SKEW_MS_def)
qed

text \<open>
  Packing is a bijection between pairs of a 48-bit wall time and a 16-bit counter and 64-bit
  timestamps, and the numeric order of timestamps is the lexicographic order of the pairs.
\<close>

theorem pack_bijection:
  "(unat wall < 2 ^ 48 \<longrightarrow> unpack (pack wall l) = (wall, l)) \<and>
   pack (fst (unpack ts)) (snd (unpack ts)) = ts \<and> unat (fst (unpack ts)) < 2 ^ 48 \<and>
   (ts < ts' \<longleftrightarrow> fst (unpack ts) < fst (unpack ts') \<or>
      fst (unpack ts) = fst (unpack ts') \<and> snd (unpack ts) < snd (unpack ts'))"
proof -
  have l: "unat (snd (unpack x)) < 65536" for x using unat_lt2p[of "snd (unpack x)"] by simp
  have "unat ts < unat ts' \<longleftrightarrow> unat (fst (unpack ts)) < unat (fst (unpack ts')) \<or>
      unat (fst (unpack ts)) = unat (fst (unpack ts')) \<and> unat (snd (unpack ts)) < unat (snd (unpack ts'))"
    unfolding ts_split[of ts] ts_split[of ts'] using l[of ts] l[of ts'] by auto
  then show ?thesis using unpack_pack pack_unpack wall_lt
    by (auto simp: word_less_nat_alt word_unat_eq_iff)
qed

theorem pack_bijection_witness: "unat (7 :: u64) < 2 ^ 48 \<and> unpack (pack 7 9) = (7, 9)"
  using conjunct1 [OF pack_bijection, of 7 9] by simp

text \<open>
  What \<open>observe\<close> does to the clock: the new state is at least the old one and at least the
  remote timestamp.  It is not always greater: with the logical counter at its maximum the
  saturating addition leaves the state unchanged, while \<open>now\<close> moves to the next millisecond.
\<close>

theorem observe_advances:
  "(unat w < 2 ^ 48 \<and> wall_of old + 1 < 2 ^ 48 \<longrightarrow> old \<le> observe_ts old r w \<and> r \<le> observe_ts old r w) \<and>
   observe_ts (pack 5 0xFFFF) (pack 4 0) 3 = pack 5 0xFFFF \<and> now_ts (pack 5 0xFFFF) 3 = pack 6 0"
proof (intro conjI impI)
  assume "unat w < 2 ^ 48 \<and> wall_of old + 1 < 2 ^ 48"
  then show "old \<le> observe_ts old r w" "r \<le> observe_ts old r w"
    using observe_ts_step[of w old r] by (simp_all add: word_le_nat_alt)
next
  have u: "unpack (pack 5 0xFFFF) = (5, 0xFFFF)" "unpack (pack 4 0) = (4, 0)" by (simp_all add: unpack_pack)
  show "observe_ts (pack 5 0xFFFF) (pack 4 0) 3 = pack 5 0xFFFF"
    by (simp add: observe_ts_def u saturating_add16_def)
  show "now_ts (pack 5 0xFFFF) 3 = pack 6 0" by (simp add: now_ts_def u)
qed

theorem observe_advances_witness:
  "unat (3 :: u64) < 2 ^ 48 \<and> wall_of 0 + 1 < 2 ^ 48 \<and> 0x10000 \<le> observe_ts 0 0x10000 3"
  using conjunct1 [OF observe_advances, of 3 0 "0x10000"] by (simp add: wall_of_def)

end
