(* ===== verification/F64.thy ===== *)
theory F64
  imports Complex_Main "HOL-Library.Log_Nat"
begin

text \<open>
  The double-precision arithmetic the program uses on non-negative values (redundancy factors
  and piece counts).  A double is a non-negative rational, infinity or not-a-number; every
  operation computes the exact result and rounds it to 53 significant bits, to nearest, ties to
  even, as IEEE 754 prescribes and the Rust reference adopts.  The values that occur lie between
  2^-28 and 2^40, so neither overflow nor subnormal numbers arise and they are not modelled.
\<close>

section \<open>Rounding\<close>

text \<open>The exponent \<open>i\<close> with \<open>2^i \<le> x < 2^(i+1)\<close>, for positive \<open>x\<close>.\<close>

definition log2_floor :: "rat \<Rightarrow> int" where
  "log2_floor x = (if 1 \<le> x then bitlen \<lfloor>x\<rfloor> - 1 else - bitlen (\<lceil>1 / x\<rceil> - 1))"

definition pow2 :: "int \<Rightarrow> rat" where
  "pow2 i = (if 0 \<le> i then 2 ^ nat i else 1 / 2 ^ nat (- i))"

definition round_half_even :: "rat \<Rightarrow> int" where
  "round_half_even y =
     (let f = \<lfloor>y\<rfloor>; d = y - of_int f
      in if d < 1 / 2 then f else if 1 / 2 < d then f + 1 else if even f then f else f + 1)"

definition rnd :: "rat \<Rightarrow> rat" where
  "rnd x = (if x \<le> 0 then 0 else let u = pow2 (log2_floor x - 52) in of_int (round_half_even (x / u)) * u)"

datatype f64 = Fin rat | Infinity | NaN

fun fdiv :: "f64 \<Rightarrow> f64 \<Rightarrow> f64" where
  "fdiv (Fin x) (Fin y) = (if y = 0 then (if x = 0 then NaN else Infinity) else Fin (rnd (x / y)))"
| "fdiv (Fin x) Infinity = Fin 0"
| "fdiv Infinity (Fin y) = Infinity"
| "fdiv _ _ = NaN"

fun fadd :: "f64 \<Rightarrow> f64 \<Rightarrow> f64" where
  "fadd (Fin x) (Fin y) = Fin (rnd (x + y))"
| "fadd NaN _ = NaN"
| "fadd _ NaN = NaN"
| "fadd _ _ = Infinity"

fun fmul :: "f64 \<Rightarrow> f64 \<Rightarrow> f64" where
  "fmul (Fin x) (Fin y) = Fin (rnd (x * y))"
| "fmul NaN _ = NaN"
| "fmul _ NaN = NaN"
| "fmul (Fin x) Infinity = (if x = 0 then NaN else Infinity)"
| "fmul Infinity (Fin y) = (if y = 0 then NaN else Infinity)"
| "fmul Infinity Infinity = Infinity"

fun fceil :: "f64 \<Rightarrow> f64" where
  "fceil (Fin x) = Fin (of_int \<lceil>x\<rceil>)"
| "fceil x = x"

text \<open>The saturating cast \<open>as u32\<close>: not-a-number becomes zero, large values the maximum.\<close>

fun f64_as_u32 :: "f64 \<Rightarrow> nat" where
  "f64_as_u32 (Fin x) = min (nat \<lfloor>x\<rfloor>) (2 ^ 32 - 1)"
| "f64_as_u32 Infinity = 2 ^ 32 - 1"
| "f64_as_u32 NaN = 0"

text \<open>The cast \<open>k as f64\<close> of a 32-bit integer is exact.\<close>

definition u32_as_f64 :: "nat \<Rightarrow> f64" where
  "u32_as_f64 k = Fin (of_nat k)"

text \<open>The casts between \<open>usize\<close> and \<open>f64\<close>: the first rounds, the second saturates.\<close>

definition usize_as_f64 :: "nat \<Rightarrow> f64" where
  "usize_as_f64 n = Fin (rnd (of_nat n))"

fun f64_as_usize :: "f64 \<Rightarrow> nat" where
  "f64_as_usize (Fin x) = min (nat \<lfloor>x\<rfloor>) (2 ^ 64 - 1)"
| "f64_as_usize Infinity = 2 ^ 64 - 1"
| "f64_as_usize NaN = 0"

section \<open>The rounding error\<close>

lemma pow2_pos [simp]: "0 < pow2 i"
  by (simp add: pow2_def)

lemma pow2_add_nat: "pow2 (i + int n) = pow2 i * 2 ^ n"
proof (induction n)
  case 0
  then show ?case by simp
next
  case (Suc n)
  have "pow2 (j + 1) = pow2 j * 2" for j
  proof (cases "0 \<le> j")
    case True
    then show ?thesis by (simp add: pow2_def nat_add_distrib)
  next
    case False
    then have "nat (- j) = Suc (nat (- j - 1))" by simp
    then show ?thesis using False by (cases "j = - 1") (simp_all add: pow2_def)
  qed
  from this[of "i + int n"] Suc show ?case by (simp add: algebra_simps)
qed

lemma bitlen_bounds_rat: "0 < m \<Longrightarrow> (2 :: rat) ^ nat (bitlen m - 1) \<le> of_int m \<and> of_int m < (2 :: rat) ^ nat (bitlen m)"
proof -
  assume "0 < m"
  then have b: "2 ^ nat (bitlen m - 1) \<le> m \<and> m < 2 ^ nat (bitlen m)" by (rule bitlen_bounds)
  then have "(of_int (2 ^ nat (bitlen m - 1)) :: rat) \<le> of_int m" "(of_int m :: rat) < of_int (2 ^ nat (bitlen m))"
    by (simp_all only: of_int_le_iff of_int_less_iff)
  then show ?thesis by simp
qed

lemma log2_floor_lower: "0 < x \<Longrightarrow> pow2 (log2_floor x) \<le> x"
proof -
  assume x: "0 < x"
  show ?thesis
  proof (cases "1 \<le> x")
    case True
    then have f: "0 < \<lfloor>x\<rfloor>" by simp
    then have "0 \<le> bitlen \<lfloor>x\<rfloor> - 1" using bitlen_nonneg[of "\<lfloor>x\<rfloor>"] bitlen_eq_zero_iff[of "\<lfloor>x\<rfloor>"] by linarith
    then have "pow2 (log2_floor x) \<le> of_int \<lfloor>x\<rfloor>"
      using True bitlen_bounds_rat[OF f] by (simp add: log2_floor_def pow2_def)
    then show ?thesis using of_int_floor_le[of x] by linarith
  next
    case False
    let ?m = "\<lceil>1 / x\<rceil> - 1"
    have "1 < 1 / x" using x False by simp
    then have m: "0 < ?m" by (simp add: less_ceiling_iff)
    have "?m < 2 ^ nat (bitlen ?m)" using bitlen_bounds[OF m] by simp
    then have "\<lceil>1 / x\<rceil> \<le> 2 ^ nat (bitlen ?m)" by simp
    then have "1 / x \<le> of_int (2 ^ nat (bitlen ?m))" by (simp only: ceiling_le_iff)
    then have "1 / x \<le> 2 ^ nat (bitlen ?m)" by simp
    then have "1 / 2 ^ nat (bitlen ?m) \<le> x" using x by (simp add: field_simps)
    moreover have "0 < bitlen ?m" using m bitlen_nonneg[of ?m] bitlen_eq_zero_iff[of ?m] by linarith
    ultimately show ?thesis using False by (simp add: log2_floor_def pow2_def)
  qed
qed

lemma round_half_even_error: "\<bar>of_int (round_half_even y) - y\<bar> \<le> 1 / 2"
proof -
  have "of_int \<lfloor>y\<rfloor> \<le> y" "y < of_int \<lfloor>y\<rfloor> + 1" using floor_correct[of y] by simp_all
  then show ?thesis unfolding round_half_even_def Let_def by (auto simp: abs_le_iff)
qed

lemma round_half_even_int [simp]: "round_half_even (of_int m) = m"
  by (simp add: round_half_even_def)

text \<open>The relative error of one rounding is at most \<open>2^-53\<close>.\<close>

lemma rnd_error: "0 < x \<Longrightarrow> \<bar>rnd x - x\<bar> \<le> x / 2 ^ 53"
proof -
  assume x: "0 < x"
  let ?u = "pow2 (log2_floor x - 52)"
  have u: "?u * 2 ^ 52 \<le> x"
    using log2_floor_lower[OF x] pow2_add_nat[of "log2_floor x - 52" 52] by simp
  have "rnd x - x = (of_int (round_half_even (x / ?u)) - x / ?u) * ?u"
    using x by (simp add: rnd_def Let_def left_diff_distrib less_imp_neq [OF pow2_pos, symmetric])
  then have "\<bar>rnd x - x\<bar> = \<bar>of_int (round_half_even (x / ?u)) - x / ?u\<bar> * ?u"
    by (simp add: abs_mult less_imp_le)
  also have "\<dots> \<le> 1 / 2 * ?u" by (intro mult_right_mono round_half_even_error) (simp add: less_imp_le)
  also have "\<dots> \<le> x / 2 ^ 53" using u by simp
  finally show ?thesis .
qed

lemma rnd_pos: "0 < x \<Longrightarrow> 0 < rnd x"
proof -
  assume x: "0 < x"
  have "x / 2 ^ 53 < x" using x by simp
  then show ?thesis using rnd_error[OF x] by linarith
qed

section \<open>Rounding of representable values\<close>

lemma log2_floor_upper: "0 < x \<Longrightarrow> x < pow2 (log2_floor x) * 2"
proof -
  assume x: "0 < x"
  show ?thesis
  proof (cases "1 \<le> x")
    case True
    then have f: "0 < \<lfloor>x\<rfloor>" by simp
    have p: "0 < bitlen \<lfloor>x\<rfloor>" using f bitlen_nonneg[of "\<lfloor>x\<rfloor>"] bitlen_eq_zero_iff[of "\<lfloor>x\<rfloor>"] by linarith
    have "\<lfloor>x\<rfloor> < 2 ^ nat (bitlen \<lfloor>x\<rfloor>)" using bitlen_bounds[OF f] by simp
    then have "x < of_int (2 ^ nat (bitlen \<lfloor>x\<rfloor>))" by (simp only: floor_less_iff)
    moreover have "(2 :: rat) ^ nat (bitlen \<lfloor>x\<rfloor>) = 2 ^ nat (bitlen \<lfloor>x\<rfloor> - 1) * 2"
    proof -
      have "nat (bitlen \<lfloor>x\<rfloor>) = Suc (nat (bitlen \<lfloor>x\<rfloor> - 1))" using p by simp
      then show ?thesis by simp
    qed
    ultimately show ?thesis using True p by (simp add: log2_floor_def pow2_def)
  next
    case False
    let ?m = "\<lceil>1 / x\<rceil> - 1"
    have "1 < 1 / x" using x False by simp
    then have m: "0 < ?m" by (simp add: less_ceiling_iff)
    have p: "0 < bitlen ?m" using m bitlen_nonneg[of ?m] bitlen_eq_zero_iff[of ?m] by linarith
    have "2 ^ nat (bitlen ?m - 1) \<le> ?m" using bitlen_bounds[OF m] by simp
    then have "2 ^ nat (bitlen ?m - 1) < \<lceil>1 / x\<rceil>" by simp
    then have "of_int (2 ^ nat (bitlen ?m - 1)) < 1 / x" by (simp only: less_ceiling_iff)
    then have "2 ^ nat (bitlen ?m - 1) < 1 / x" by simp
    then have "x < 1 / 2 ^ nat (bitlen ?m - 1)" using x by (simp add: field_simps)
    moreover have "(1 :: rat) / 2 ^ nat (bitlen ?m - 1) = pow2 (- bitlen ?m) * 2"
    proof -
      have "nat (bitlen ?m) = Suc (nat (bitlen ?m - 1))" using p by simp
      then show ?thesis using p by (simp add: pow2_def)
    qed
    ultimately show ?thesis using False by (simp add: log2_floor_def)
  qed
qed

text \<open>Integers below \<open>2^53\<close> are doubles: rounding keeps them.\<close>

lemma rnd_of_nat: "n < 2 ^ 53 \<Longrightarrow> rnd (of_nat n) = of_nat n"
proof (cases "n = 0")
  case True
  then show ?thesis by (simp add: rnd_def)
next
  case False
  assume n: "n < 2 ^ 53"
  let ?x = "of_nat n :: rat"
  let ?l = "log2_floor ?x"
  have x: "0 < ?x" using False by simp
  have f: "\<lfloor>?x\<rfloor> = int n" by simp
  have "bitlen (int n) \<le> 53"
    using n False by (simp add: bitlen_le_iff_power)
  then have l: "?l \<le> 52" using False by (simp add: log2_floor_def f)
  let ?d = "nat (52 - ?l)"
  have p: "2 ^ ?d * pow2 (?l - 52) = 1"
    using pow2_add_nat[of "?l - 52" ?d] l by (simp add: pow2_def mult.commute)
  have "?x / pow2 (?l - 52) = ?x * 2 ^ ?d"
    using pow2_pos[of "?l - 52"] p by (simp add: divide_eq_eq mult.assoc less_imp_neq[symmetric])
  then have u: "?x / pow2 (?l - 52) = of_int (int n * 2 ^ ?d)" by simp
  have "rnd ?x = of_int (int n * 2 ^ ?d) * pow2 (?l - 52)"
    using x by (simp only: rnd_def Let_def u round_half_even_int not_le [symmetric] if_False)
  also have "\<dots> = ?x" using p by (simp add: mult.assoc)
  finally show ?thesis .
qed

section \<open>Certificates for single roundings\<close>

lemma pow2_less: "pow2 a < pow2 b \<Longrightarrow> a < b"
proof (rule ccontr)
  assume l: "pow2 a < pow2 b" and "\<not> a < b"
  then have "a = b + int (nat (a - b))" by simp
  then have "pow2 a = pow2 b * 2 ^ nat (a - b)" using pow2_add_nat by metis
  moreover have "pow2 b * 1 \<le> pow2 b * 2 ^ nat (a - b)"
    by (intro mult_left_mono) (simp_all add: less_imp_le)
  ultimately show False using l by linarith
qed

lemma log2_floor_eqI: "pow2 i \<le> x \<Longrightarrow> x < pow2 i * 2 \<Longrightarrow> log2_floor x = i"
proof -
  assume i: "pow2 i \<le> x" "x < pow2 i * 2"
  have x: "0 < x" using i(1) pow2_pos[of i] by linarith
  have s: "pow2 j * 2 = pow2 (j + 1)" for j using pow2_add_nat[of j 1] by simp
  have "pow2 i < pow2 (log2_floor x + 1)" "pow2 (log2_floor x) < pow2 (i + 1)"
    using i log2_floor_lower[OF x] log2_floor_upper[OF x] s by (metis order_le_less_trans)+
  then have "i < log2_floor x + 1" "log2_floor x < i + 1" by (blast dest: pow2_less)+
  then show ?thesis by simp
qed

text \<open>The exponent and the nearest significand determine the rounded value.\<close>

lemma rnd_eqI:
  assumes "pow2 (e + 52) \<le> x" "x < pow2 (e + 52) * 2" "\<bar>of_int m - x / pow2 e\<bar> < 1 / 2"
  shows "rnd x = of_int m * pow2 e"
proof -
  have l: "log2_floor x = e + 52" by (rule log2_floor_eqI) (use assms in simp_all)
  have x: "0 < x" using assms(1) pow2_pos[of "e + 52"] by linarith
  have "\<bar>of_int (round_half_even (x / pow2 e)) - of_int m :: rat\<bar> < 1"
    using round_half_even_error[of "x / pow2 e"] assms(3) by linarith
  then have "\<bar>of_int (round_half_even (x / pow2 e) - m) :: rat\<bar> < 1" by simp
  then have "round_half_even (x / pow2 e) = m" by linarith
  then show ?thesis using x by (simp add: rnd_def l)
qed

lemma rnd_tieI:
  assumes "pow2 (e + 52) \<le> x" "x < pow2 (e + 52) * 2" "x / pow2 e = of_int f + 1 / 2"
  shows "rnd x = of_int (if even f then f else f + 1) * pow2 e"
proof -
  have l: "log2_floor x = e + 52" by (rule log2_floor_eqI) (use assms in simp_all)
  have x: "0 < x" using assms(1) pow2_pos[of "e + 52"] by linarith
  have "\<lfloor>of_int f + 1 / 2 :: rat\<rfloor> = f" by linarith
  then have "round_half_even (x / pow2 e) = (if even f then f else f + 1)"
    unfolding assms(3) round_half_even_def by simp
  then show ?thesis using x by (simp add: rnd_def l)
qed

end
