(* ===== verification/Coordinator.thy ===== *)
theory Coordinator
  imports Tables F64 "HOL-Library.Product_Lexorder" "HOL-Library.Multiset"
begin

text \<open>
  The election of repair coordinators (craftec-health/src/coordinator.rs): providers are compared
  by uptime, then reputation, then identifier.  Reputations are the doubles of \<open>F64\<close>, with the
  partial comparison of the standard library; the ranking is the stable sort and the winner the
  first minimum of the iterator.
\<close>

section \<open>Comparison\<close>

datatype ordering = Less | Equal | Greater

definition compare :: "'a :: linorder \<Rightarrow> 'a \<Rightarrow> ordering" where
  "compare a b = (if a < b then Less else if a = b then Equal else Greater)"

fun then_with :: "ordering \<Rightarrow> ordering \<Rightarrow> ordering" where
  "then_with Equal q = q"
| "then_with p q = p"

fun partial_cmp :: "f64 \<Rightarrow> f64 \<Rightarrow> ordering option" where
  "partial_cmp (Fin x) (Fin y) = Some (compare x y)"
| "partial_cmp (Fin x) Infinity = Some Less"
| "partial_cmp Infinity (Fin y) = Some Greater"
| "partial_cmp Infinity Infinity = Some Equal"
| "partial_cmp _ _ = None"

record node_ranking =
  nr_node_id :: node_id
  nr_uptime_secs :: u64
  nr_reputation :: f64

definition ranking_cmp :: "node_ranking \<Rightarrow> node_ranking \<Rightarrow> ordering" where
  "ranking_cmp a b =
     then_with (compare (nr_uptime_secs b) (nr_uptime_secs a))
       (then_with (case partial_cmp (nr_reputation b) (nr_reputation a) of None \<Rightarrow> Equal | Some r \<Rightarrow> r)
         (compare (node_id_bytes (nr_node_id a)) (node_id_bytes (nr_node_id b))))"

fun min_by :: "('a \<Rightarrow> 'a \<Rightarrow> ordering) \<Rightarrow> 'a list \<Rightarrow> 'a option" where
  "min_by c [] = None"
| "min_by c (x # xs) = Some (foldl (\<lambda>m y. if c m y = Greater then y else m) x xs)"

fun insert_by :: "('a \<Rightarrow> 'a \<Rightarrow> ordering) \<Rightarrow> 'a \<Rightarrow> 'a list \<Rightarrow> 'a list" where
  "insert_by c x [] = [x]"
| "insert_by c x (y # ys) = (if c x y = Greater then y # insert_by c x ys else x # y # ys)"

definition sort_by :: "('a \<Rightarrow> 'a \<Rightarrow> ordering) \<Rightarrow> 'a list \<Rightarrow> 'a list" where
  "sort_by c xs = foldr (insert_by c) xs []"

definition select_coordinator :: "node_ranking list \<Rightarrow> node_id option" where
  "select_coordinator ps = map_option nr_node_id (min_by ranking_cmp ps)"

definition rank_providers :: "node_ranking list \<Rightarrow> node_id list" where
  "rank_providers ps = map nr_node_id (sort_by ranking_cmp ps)"

section \<open>The order of the ranking\<close>

text \<open>Without not-a-number reputations the comparison is the linear order of a key.\<close>

definition rank_key :: "node_ranking \<Rightarrow> int \<times> bool \<times> rat \<times> node_id" where
  "rank_key r = (- uint (nr_uptime_secs r), nr_reputation r \<noteq> Infinity,
     (case nr_reputation r of Fin x \<Rightarrow> - x | _ \<Rightarrow> 0), nr_node_id r)"

lemma compare_bytes: "compare (node_id_bytes a) (node_id_bytes b) = compare a b"
  by (simp add: compare_def less_node_id_def node_id.expand)

lemma compare_pair: "compare (a, b) (a', b') = then_with (compare a a') (compare b b')"
  by (auto simp: compare_def less_prod_def)

lemma compare_neg: "compare (- uint (a :: u64)) (- uint b) = compare b a"
  by (auto simp: compare_def word_less_def word_uint_eq_iff)

lemma compare_flip: "compare (- x) (- y :: rat) = compare y x"
  by (auto simp: compare_def)

lemma ranking_cmp_key:
  "nr_reputation a \<noteq> NaN \<Longrightarrow> nr_reputation b \<noteq> NaN \<Longrightarrow> ranking_cmp a b = compare (rank_key a) (rank_key b)"
  by (cases "nr_reputation a"; cases "nr_reputation b")
    (auto simp: ranking_cmp_def rank_key_def compare_pair compare_neg compare_flip compare_bytes,
      auto simp: compare_def)

lemma insert_by_key:
  "nr_reputation x \<noteq> NaN \<Longrightarrow> \<forall>y \<in> set ys. nr_reputation y \<noteq> NaN \<Longrightarrow> insert_by ranking_cmp x ys = insort_key rank_key x ys"
  by (induction ys) (auto simp: ranking_cmp_key compare_def)

lemma sort_by_key: "\<forall>x \<in> set ps. nr_reputation x \<noteq> NaN \<Longrightarrow> sort_by ranking_cmp ps = sort_key rank_key ps"
proof (induction ps)
  case (Cons p ps)
  have "sort_by ranking_cmp (p # ps) = insert_by ranking_cmp p (sort_key rank_key ps)"
    using Cons by (simp add: sort_by_def)
  also have "\<dots> = insort_key rank_key p (sort_key rank_key ps)" using Cons.prems by (intro insert_by_key) auto
  finally show ?case by simp
qed (simp add: sort_by_def)

lemma inj_rank_key: "distinct (map nr_node_id ps) \<Longrightarrow> inj_on rank_key (set ps)"
  by (auto simp: inj_on_def rank_key_def distinct_map)

lemma foldl_min_key:
  "\<forall>y \<in> set (x # xs). nr_reputation y \<noteq> NaN \<Longrightarrow>
     (let m = foldl (\<lambda>m y. if ranking_cmp m y = Greater then y else m) x xs
      in m \<in> set (x # xs) \<and> (\<forall>y \<in> set (x # xs). rank_key m \<le> rank_key y))"
proof (induction xs arbitrary: x)
  case (Cons z xs)
  have "rank_key (if ranking_cmp x z = Greater then z else x) \<le> rank_key x" "rank_key (if ranking_cmp x z = Greater then z else x) \<le> rank_key z"
    using Cons.prems by (auto simp: ranking_cmp_key compare_def)
  with Cons.IH[of "if ranking_cmp x z = Greater then z else x"] Cons.prems show ?case
    by (auto simp: Let_def split: if_splits intro: order_trans)
qed simp

text \<open>
  Coordinator agreement.  When no reputation is not-a-number and the providers are distinct
  nodes, the ranking and the winner depend only on the set of providers and not on the order in
  which a node lists them; the ranking is a permutation of the providers, and the winner is its
  head.
\<close>

theorem coordinator_agreement:
  assumes "mset ps = mset qs" "\<forall>p \<in> set ps. nr_reputation p \<noteq> NaN" "distinct (map nr_node_id ps)"
  shows "rank_providers ps = rank_providers qs \<and> select_coordinator ps = select_coordinator qs \<and>
    mset (rank_providers ps) = mset (map nr_node_id ps) \<and>
    select_coordinator ps = (case rank_providers ps of [] \<Rightarrow> None | n # _ \<Rightarrow> Some n)"
proof -
  have set: "set qs = set ps" by (rule mset_eq_setD[OF assms(1), symmetric])
  have s: "sort_by ranking_cmp ps = sort_key rank_key ps" "sort_by ranking_cmp qs = sort_key rank_key qs"
    using sort_by_key assms(2) set by simp_all
  have "sort_key rank_key ps = sort_key rank_key qs"
    using sort_key_inj_key_eq[of ps "sort_key rank_key qs" rank_key] assms(1) inj_rank_key[OF assms(3)] by simp
  then have eq: "rank_providers ps = rank_providers qs" by (simp add: rank_providers_def s)
  have hd: "select_coordinator xs = (case rank_providers xs of [] \<Rightarrow> None | n # _ \<Rightarrow> Some n)"
    if xs: "\<forall>p \<in> set xs. nr_reputation p \<noteq> NaN" "inj_on rank_key (set xs)" for xs
  proof (cases xs)
    case Nil
    then show ?thesis by (simp add: select_coordinator_def rank_providers_def sort_by_def)
  next
    case (Cons y ys)
    define m where "m = foldl (\<lambda>m y. if ranking_cmp m y = Greater then y else m) y ys"
    have mm: "m \<in> set xs" "\<forall>z \<in> set xs. rank_key m \<le> rank_key z"
      using foldl_min_key[of y ys] xs(1) Cons by (simp_all add: Let_def m_def)
    obtain z zs where z: "sort_key rank_key xs = z # zs" using Cons by (cases "sort_key rank_key xs") (auto dest: arg_cong[where f = set])
    have zs: "set (z # zs) = set xs" using set_sort[of rank_key xs] by (simp only: z)
    then have zm: "z \<in> set xs" by auto
    have "sorted (map rank_key (z # zs))" using sorted_sort_key[of rank_key xs] by (simp only: z)
    moreover have "m \<in> set (z # zs)" using mm(1) by (simp only: zs)
    ultimately have "rank_key z \<le> rank_key m" by auto
    moreover have "rank_key m \<le> rank_key z" using mm(2) zm by (rule bspec)
    ultimately have "z = m" by (intro inj_onD[OF xs(2) _ zm mm(1)] antisym)
    then show ?thesis using Cons z sort_by_key[OF xs(1)] by (simp add: select_coordinator_def rank_providers_def m_def)
  qed
  have "\<forall>p \<in> set qs. nr_reputation p \<noteq> NaN" "inj_on rank_key (set qs)"
    unfolding set by (rule assms(2), rule inj_rank_key[OF assms(3)])
  from hd[OF this] hd[OF assms(2) inj_rank_key[OF assms(3)]]
  have "select_coordinator ps = select_coordinator qs" by (simp only: eq)
  moreover have "mset (rank_providers ps) = mset (map nr_node_id ps)" by (simp add: rank_providers_def s)
  ultimately show ?thesis using eq hd[OF assms(2) inj_rank_key[OF assms(3)]] by blast
qed

theorem coordinator_agreement_witness:
  "let a = \<lparr>nr_node_id = NodeId [2], nr_uptime_secs = 10, nr_reputation = Fin (1 / 2)\<rparr>;
       b = \<lparr>nr_node_id = NodeId [1], nr_uptime_secs = 10, nr_reputation = Fin (1 / 2)\<rparr>;
       c = \<lparr>nr_node_id = NodeId [0], nr_uptime_secs = 3, nr_reputation = Fin 1\<rparr>
   in rank_providers [c, a, b] = [NodeId [1], NodeId [2], NodeId [0]] \<and> select_coordinator [a, b, c] = Some (NodeId [1])"
proof -
  let ?a = "\<lparr>nr_node_id = NodeId [2], nr_uptime_secs = 10, nr_reputation = Fin (1 / 2)\<rparr>"
  let ?b = "\<lparr>nr_node_id = NodeId [1], nr_uptime_secs = 10, nr_reputation = Fin (1 / 2)\<rparr>"
  let ?c = "\<lparr>nr_node_id = NodeId [0], nr_uptime_secs = 3, nr_reputation = Fin 1\<rparr>"
  have "rank_providers [?c, ?a, ?b] = [NodeId [1], NodeId [2], NodeId [0]]"
    by (simp add: rank_providers_def sort_by_def ranking_cmp_def compare_def)
  moreover have "mset [?c, ?a, ?b] = mset [?a, ?b, ?c]" "\<forall>p \<in> set [?c, ?a, ?b]. nr_reputation p \<noteq> NaN"
    "distinct (map nr_node_id [?c, ?a, ?b])" by simp_all
  note coordinator_agreement[OF this]
  ultimately show ?thesis unfolding Let_def by (metis list.simps(5))
qed

end
