(* ===== verification/Tracker.thy ===== *)
theory Tracker
  imports Tables
begin

text \<open>
  The piece tracker (craftec-health/src/tracker.rs): how many coded pieces of a content identifier
  each node has reported, and the parameter \<open>k\<close> of its encoding.  The sum of the counts wraps at
  32 bits, as \<open>sum\<close> does in a release build.
\<close>

section \<open>State and operations\<close>

record piece_holder =
  ph_node :: node_id
  ph_count :: u32
  ph_last_seen :: instant

record piece_tracker =
  pt_availability :: "piece_holder table"
  pt_k_values :: "(cid \<times> u32) list"

definition tracker_new :: piece_tracker where
  "tracker_new = \<lparr>pt_availability = [], pt_k_values = []\<rparr>"

definition record_piece :: "cid \<Rightarrow> piece_holder \<Rightarrow> piece_tracker \<Rightarrow> piece_tracker" where
  "record_piece c h t = t\<lparr>pt_availability :=
     AList.update c (upsert_by ph_node (\<lambda>x. x\<lparr>ph_count := max (ph_count x) (ph_count h), ph_last_seen := ph_last_seen h\<rparr>) h
       (table_get (pt_availability t) c)) (pt_availability t)\<rparr>"

definition get_holders :: "piece_tracker \<Rightarrow> cid \<Rightarrow> piece_holder list" where
  "get_holders t c = table_get (pt_availability t) c"

definition available_count :: "piece_tracker \<Rightarrow> cid \<Rightarrow> u32" where
  "available_count t c =
     (case map_of (pt_availability t) c of None \<Rightarrow> 0 | Some hs \<Rightarrow> sum_list (map ph_count hs))"

definition local_piece_count :: "piece_tracker \<Rightarrow> cid \<Rightarrow> node_id \<Rightarrow> u32" where
  "local_piece_count t c n =
     (case map_of (pt_availability t) c of None \<Rightarrow> 0
      | Some hs \<Rightarrow> (case find_by ph_node n hs of None \<Rightarrow> 0 | Some h \<Rightarrow> ph_count h))"

definition holders_with_count :: "piece_tracker \<Rightarrow> cid \<Rightarrow> (node_id \<times> u32) list" where
  "holders_with_count t c = map (\<lambda>h. (ph_node h, ph_count h)) (table_get (pt_availability t) c)"

definition record_k :: "cid \<Rightarrow> u32 \<Rightarrow> piece_tracker \<Rightarrow> piece_tracker" where
  "record_k c k t = (if map_of (pt_k_values t) c = None then t\<lparr>pt_k_values := AList.update c k (pt_k_values t)\<rparr> else t)"

definition get_k :: "piece_tracker \<Rightarrow> cid \<Rightarrow> u32 option" where
  "get_k t c = map_of (pt_k_values t) c"

definition emptied_cids :: "node_id \<Rightarrow> piece_tracker \<Rightarrow> cid list" where
  "emptied_cids n t = map fst (filter (\<lambda>e. filter (\<lambda>h. ph_node h \<noteq> n) (snd e) = []) (pt_availability t))"

definition tracker_remove_node :: "node_id \<Rightarrow> piece_tracker \<Rightarrow> piece_tracker" where
  "tracker_remove_node n t = t\<lparr>
     pt_availability := retain_records (\<lambda>h. ph_node h \<noteq> n) (pt_availability t),
     pt_k_values := foldl (\<lambda>ks c. AList.delete c ks) (pt_k_values t) (emptied_cids n t)\<rparr>"

definition tracker_fresh :: "instant \<Rightarrow> duration \<Rightarrow> instant \<Rightarrow> bool" where
  "tracker_fresh now max_age seen \<longleftrightarrow> seen > now - int max_age"

definition tracker_prune_stale :: "instant \<Rightarrow> duration \<Rightarrow> piece_tracker \<Rightarrow> nat \<times> piece_tracker" where
  "tracker_prune_stale now max_age t =
     (let keep = (\<lambda>h. tracker_fresh now max_age (ph_last_seen h))
      in (removed_records keep (pt_availability t), t\<lparr>pt_availability := retain_records keep (pt_availability t)\<rparr>))"

definition tracker_cid_count :: "piece_tracker \<Rightarrow> nat" where
  "tracker_cid_count t = length (pt_availability t)"

definition sorted_cids :: "piece_tracker \<Rightarrow> cid list" where
  "sorted_cids t = sort_key cid_bytes (map fst (pt_availability t))"

definition holder_nodes :: "piece_tracker \<Rightarrow> cid \<Rightarrow> node_id list" where
  "holder_nodes t c = map ph_node (table_get (pt_availability t) c)"

section \<open>The tracker as an index of reports\<close>

definition tracker_inv :: "piece_tracker \<Rightarrow> bool" where
  "tracker_inv t \<longleftrightarrow> table_ok ph_node (pt_availability t)"

definition tracker_seen :: "piece_tracker \<Rightarrow> cid \<Rightarrow> node_id \<Rightarrow> instant option" where
  "tracker_seen t c n = map_option ph_last_seen (find_by ph_node n (table_get (pt_availability t) c))"

abbreviation report :: "instant \<Rightarrow> u32 \<Rightarrow> cid \<Rightarrow> node_id \<Rightarrow> piece_tracker \<Rightarrow> piece_tracker" where
  "report now k c n \<equiv> record_piece c \<lparr>ph_node = n, ph_count = k, ph_last_seen = now\<rparr>"

abbreviation tracker_run :: "u32 index_op list \<Rightarrow> piece_tracker" where
  "tracker_run ops \<equiv> foldr (index_step report tracker_remove_node (\<lambda>now a t. snd (tracker_prune_stale now a t))) ops tracker_new"

lemma tracker_inv_get: "tracker_inv t \<Longrightarrow> distinct (map ph_node (table_get (pt_availability t) c))"
  unfolding tracker_inv_def by (rule table_ok_get)

lemma tracker_inv_keys: "tracker_inv t \<Longrightarrow> distinct (map fst (pt_availability t))"
  by (simp add: tracker_inv_def table_ok_def)

lemmas find_retain = table_get_retain[OF tracker_inv_keys] find_by_filter[OF tracker_inv_get]

interpretation piece_reports: timed_index tracker_inv tracker_seen tracker_new report tracker_remove_node
  "\<lambda>now a t. snd (tracker_prune_stale now a t)" tracker_fresh
proof (unfold_locales, goal_cases)
  case (3 s t x c n)
  then show ?case
    by (auto simp: tracker_inv_def record_piece_def intro!: table_ok_update distinct_upsert table_ok_get)
next
  case (4 s t x c n c' n')
  then show ?case by (auto simp: tracker_seen_def record_piece_def table_get_update find_by_upsert split: option.splits)
next
  case (6 s n c' n')
  then show ?case
    by (auto simp: tracker_seen_def tracker_remove_node_def find_retain split: option.splits dest: find_by_Some)
next
  case (8 s now a c n)
  then show ?case
    by (auto simp: tracker_seen_def tracker_prune_stale_def Let_def find_retain split: option.splits)
qed (auto simp: tracker_inv_def tracker_seen_def tracker_new_def tracker_remove_node_def tracker_prune_stale_def Let_def
    intro: table_ok_retain)

section \<open>Counts\<close>

text \<open>The count a history of reports, latest first, gives for a node: the largest since it was last unknown.\<close>

fun reported :: "u32 index_op list \<Rightarrow> cid \<Rightarrow> node_id \<Rightarrow> u32" where
  "reported [] c n = 0"
| "reported (Announce t x c' n' # past) c n =
     (if c' = c \<and> n' = n then (if last_announced tracker_fresh past c n = None then x else max (reported past c n) x)
      else reported past c n)"
| "reported (op # past) c n = (if last_announced tracker_fresh (op # past) c n = None then 0 else reported past c n)"

lemma local_piece_count_find:
  "local_piece_count t c n = (case find_by ph_node n (table_get (pt_availability t) c) of None \<Rightarrow> 0 | Some h \<Rightarrow> ph_count h)"
  by (auto simp: local_piece_count_def table_get_def split: option.splits)

lemma seen_None_find: "tracker_seen t c n = None \<longleftrightarrow> find_by ph_node n (table_get (pt_availability t) c) = None"
  by (simp add: tracker_seen_def)

lemma count_report:
  "local_piece_count (report now k c n t) c' n' =
     (if c' = c \<and> n' = n then (if tracker_seen t c n = None then k else max (local_piece_count t c n) k)
      else local_piece_count t c' n')"
  by (auto simp: local_piece_count_find record_piece_def table_get_update find_by_upsert tracker_seen_def split: option.splits)

lemma count_leave:
  "tracker_inv t \<Longrightarrow> local_piece_count (tracker_remove_node n t) c n' = (if n' = n then 0 else local_piece_count t c n')"
  by (auto simp: local_piece_count_find tracker_remove_node_def find_retain split: option.splits dest: find_by_Some)

lemma count_prune:
  "tracker_inv t \<Longrightarrow> local_piece_count (snd (tracker_prune_stale now a t)) c n =
     (if tracker_seen (snd (tracker_prune_stale now a t)) c n = None then 0 else local_piece_count t c n)"
  by (auto simp: local_piece_count_find tracker_seen_def tracker_prune_stale_def Let_def find_retain split: option.splits)

lemma count_seen_None: "tracker_seen t c n = None \<Longrightarrow> local_piece_count t c n = 0"
  by (simp add: local_piece_count_find tracker_seen_def split: option.splits)

lemma tracker_counts: "local_piece_count (tracker_run ops) c n = reported ops c n"
proof (induction ops)
  case Nil
  then show ?case by (simp add: local_piece_count_def tracker_new_def)
next
  case (Cons op ops)
  note inv = piece_reports.run_inv[of ops] and seen = piece_reports.run_seen[of ops c n]
  show ?case
  proof (cases op)
    case (Announce t x c' n')
    then show ?thesis using Cons seen by (auto simp: count_report)
  next
    case (Leave n')
    then show ?thesis
      using Cons seen count_seen_None[of "tracker_run ops" c n] by (auto simp: count_leave[OF inv])
  next
    case (Expire now a)
    have "tracker_seen (snd (tracker_prune_stale now a (tracker_run ops))) c n = last_announced tracker_fresh (op # ops) c n"
      using piece_reports.run_seen[of "op # ops" c n] Expire by simp
    then show ?thesis using Cons Expire by (simp only: foldr.simps comp_apply index_step.simps count_prune[OF inv] reported.simps)
  qed
qed

lemma unat_sum_list: "unat (sum_list (xs :: u32 list)) = sum_list (map unat xs) mod 2 ^ 32"
proof (induction xs)
  case (Cons x xs)
  then show ?case by (simp add: unat_word_ariths mod_add_right_eq)
qed simp

lemma available_count_sum:
  assumes "tracker_inv t"
  shows "unat (available_count t c) = (\<Sum>n \<in> set (holder_nodes t c). unat (local_piece_count t c n)) mod 2 ^ 32"
proof -
  let ?hs = "table_get (pt_availability t) c"
  have d: "distinct (map ph_node ?hs)" by (rule tracker_inv_get[OF assms])
  have "available_count t c = sum_list (map ph_count ?hs)"
    by (auto simp: available_count_def table_get_def split: option.splits)
  also have "map ph_count ?hs = map (local_piece_count t c) (map ph_node ?hs)"
    using find_by_mem[OF d] by (auto simp: local_piece_count_find)
  finally have "unat (available_count t c) = sum_list (map unat (map (local_piece_count t c) (map ph_node ?hs))) mod 2 ^ 32"
    by (simp only: unat_sum_list)
  also have "sum_list (map unat (map (local_piece_count t c) (map ph_node ?hs))) = sum_list (map (\<lambda>n. unat (local_piece_count t c n)) (holder_nodes t c))"
    by (simp add: holder_nodes_def comp_def)
  also have "\<dots> = (\<Sum>n \<in> set (holder_nodes t c). unat (local_piece_count t c n))"
    using d by (intro sum_list_distinct_conv_sum_set) (simp add: holder_nodes_def)
  finally show ?thesis .
qed

lemma sorted_cid_bytes: "sorted xs \<longleftrightarrow> sorted (map cid_bytes xs)"
  by (induction xs) (auto simp: less_eq_cid_def)

text \<open>
  C38. The piece tracker.  After any history of reports, departures and expiries, a node is listed
  for an identifier, once, exactly when its last report has neither expired nor been followed by a
  departure; its count is the largest it reported since it was last unlisted; and the number of
  available pieces is the sum of the counts modulo 2^32, so that reports can wrap it to zero.
\<close>

theorem piece_tracker_correct:
  "distinct (holder_nodes (tracker_run ops) c) \<and>
   (n \<in> set (holder_nodes (tracker_run ops) c) \<longleftrightarrow> last_announced tracker_fresh ops c n \<noteq> None) \<and>
   local_piece_count (tracker_run ops) c n = reported ops c n \<and>
   unat (available_count (tracker_run ops) c) = (\<Sum>m \<in> set (holder_nodes (tracker_run ops) c). unat (reported ops c m)) mod 2 ^ 32 \<and>
   set (sorted_cids (tracker_run ops)) = {c. holder_nodes (tracker_run ops) c \<noteq> []} \<and>
   sorted (sorted_cids (tracker_run ops)) \<and> distinct (sorted_cids (tracker_run ops))"
proof -
  note inv = piece_reports.run_inv[of ops]
  have "distinct (holder_nodes (tracker_run ops) c)"
    using tracker_inv_get[OF inv] by (simp add: holder_nodes_def)
  moreover have "n \<in> set (holder_nodes (tracker_run ops) c) \<longleftrightarrow> tracker_seen (tracker_run ops) c n \<noteq> None"
    by (simp add: holder_nodes_def seen_None_find find_by_None)
  moreover have "unat (available_count (tracker_run ops) c) =
      (\<Sum>m \<in> set (holder_nodes (tracker_run ops) c). unat (reported ops c m)) mod 2 ^ 32"
    using available_count_sum[OF inv, of c] by (simp only: tracker_counts)
  moreover have "set (sorted_cids (tracker_run ops)) = {c. holder_nodes (tracker_run ops) c \<noteq> []}"
    using table_ok_keys[of ph_node "pt_availability (tracker_run ops)"] inv
    by (auto simp: sorted_cids_def holder_nodes_def tracker_inv_def)
  moreover have "sorted (sorted_cids (tracker_run ops))"
  proof -
    have "sorted (map cid_bytes (sorted_cids (tracker_run ops)))"
      unfolding sorted_cids_def by (rule sorted_sort_key)
    then show ?thesis by (simp add: sorted_cid_bytes)
  qed
  moreover have "distinct (sorted_cids (tracker_run ops))"
    using tracker_inv_keys[OF inv] by (simp add: sorted_cids_def)
  ultimately show ?thesis by (simp only: piece_reports.run_seen tracker_counts)
qed

section \<open>The encoding parameter\<close>

lemma map_of_delete_all: "map_of (foldl (\<lambda>ks c. AList.delete c ks) ks cs) c = (if c \<in> set cs then None else map_of ks c)"
  by (induction cs arbitrary: ks) (auto simp: delete_conv')

lemma emptied_iff:
  "tracker_inv t \<Longrightarrow> c \<in> set (emptied_cids n t) \<longleftrightarrow> holder_nodes t c \<noteq> [] \<and> holder_nodes (tracker_remove_node n t) c = []"
proof -
  assume inv: "tracker_inv t"
  have "holder_nodes (tracker_remove_node n t) c = [] \<longleftrightarrow> filter (\<lambda>h. ph_node h \<noteq> n) (table_get (pt_availability t) c) = []"
    by (simp add: holder_nodes_def tracker_remove_node_def table_get_retain[OF tracker_inv_keys[OF inv]])
  moreover have "(c, hs) \<in> set (pt_availability t) \<longleftrightarrow> table_get (pt_availability t) c = hs \<and> hs \<noteq> []" for hs
    using inv map_of_eq_Some_iff[OF tracker_inv_keys[OF inv]] unfolding table_get_def tracker_inv_def table_ok_def
    by (fastforce split: option.splits)
  ultimately show ?thesis unfolding emptied_cids_def by (auto simp: image_iff holder_nodes_def)
qed

text \<open>
  The encoding parameter of an identifier.  The first value recorded wins and later ones are
  ignored.  It is forgotten exactly when a departure takes the last holder away.  An expiry that
  takes the last holder away keeps it, so that a later encoding with another parameter is judged by
  the old one.
\<close>

theorem k_value_lifetime:
  assumes "tracker_inv t"
  shows "get_k (record_k c k t) c' = (if c' = c \<and> get_k t c = None then Some k else get_k t c')
    \<and> get_k (tracker_remove_node n t) c =
        (if holder_nodes t c \<noteq> [] \<and> holder_nodes (tracker_remove_node n t) c = [] then None else get_k t c)
    \<and> get_k (snd (tracker_prune_stale now a t)) c = get_k t c
    \<and> get_k (record_k c k (snd (tracker_prune_stale now a (record_k c k' tracker_new)))) c = Some k'"
  using emptied_iff[OF assms, of c n]
  by (auto simp: get_k_def record_k_def tracker_remove_node_def map_of_delete_all tracker_prune_stale_def Let_def
      update_conv' tracker_new_def)

theorem k_value_lifetime_witness:
  "let t = record_k (Cid [1]) 8 (report 0 3 (Cid [1]) (NodeId [2]) tracker_new)
   in get_k (tracker_remove_node (NodeId [2]) t) (Cid [1]) = None \<and>
      get_k (snd (tracker_prune_stale 100 10 t)) (Cid [1]) = Some 8 \<and>
      holder_nodes (snd (tracker_prune_stale 100 10 t)) (Cid [1]) = []"
proof -
  let ?t = "record_k (Cid [1]) 8 (report 0 3 (Cid [1]) (NodeId [2]) tracker_new)"
  have inv: "tracker_inv ?t"
    by (simp add: tracker_inv_def record_k_def record_piece_def tracker_new_def table_ok_def)
  note k = k_value_lifetime[OF inv, of "Cid [1]" 0 "Cid [1]" "NodeId [2]" 100 10 0]
  have "get_k ?t (Cid [1]) = Some 8" "holder_nodes ?t (Cid [1]) = [NodeId [2]]"
    "holder_nodes (tracker_remove_node (NodeId [2]) ?t) (Cid [1]) = []"
    "holder_nodes (snd (tracker_prune_stale 100 10 ?t)) (Cid [1]) = []"
    by (simp_all add: get_k_def record_k_def record_piece_def tracker_new_def holder_nodes_def table_get_def
        tracker_remove_node_def tracker_prune_stale_def tracker_fresh_def retain_records_def Let_def)
  with k show ?thesis unfolding Let_def by simp
qed

end
