(* ===== verification/Scanner.thy ===== *)
theory Scanner
  imports Tracker F64
begin

text \<open>
  The health scanner (craftec-health/src/scanner.rs): the target piece count in double-precision
  arithmetic, the evaluation of one identifier, and the scan cycle with its cursor over the sorted
  list of identifiers of which the node holds at least two pieces.
\<close>

section \<open>Requests\<close>

datatype repair_request = Critical cid u32 u32 | Normal cid u32 u32

fun request_cid :: "repair_request \<Rightarrow> cid" where
  "request_cid (Critical c _ _) = c"
| "request_cid (Normal c _ _) = c"

fun request_target :: "repair_request \<Rightarrow> u32" where
  "request_target (Critical _ _ k) = k"
| "request_target (Normal _ _ target) = target"

fun request_available :: "repair_request \<Rightarrow> u32" where
  "request_available (Critical _ a _) = a"
| "request_available (Normal _ a _) = a"

section \<open>The scanner\<close>

definition DEFAULT_K :: u32 where "DEFAULT_K = 32"

definition target_piece_count :: "u32 \<Rightarrow> u32" where
  "target_piece_count k0 =
     (let k = max k0 1;
          factor = of_nat (f64_as_u32 (fceil (fadd (Fin 2) (fdiv (Fin 16) (u32_as_f64 (unat k))))))
      in k * factor)"

record health_scanner =
  scan_percent :: f64
  cycle_interval :: duration
  hs_node_id :: node_id
  last_scan_index :: nat

text \<open>The literal \<open>0.01\<close> is the double nearest to it.\<close>

definition scanner_new :: "duration \<Rightarrow> node_id \<Rightarrow> health_scanner" where
  "scanner_new interval me = \<lparr>scan_percent = Fin (rnd (1 / 100)), cycle_interval = interval, hs_node_id = me, last_scan_index = 0\<rparr>"

definition evaluate_cid :: "piece_tracker \<Rightarrow> cid \<Rightarrow> repair_request option" where
  "evaluate_cid t c =
     (let available = available_count t c;
          k = (case get_k t c of None \<Rightarrow> DEFAULT_K | Some k \<Rightarrow> k);
          target = target_piece_count k
      in if available < k then Some (Critical c available k)
         else if available < target then Some (Normal c available target)
         else None)"

definition eligible_cids :: "piece_tracker \<Rightarrow> node_id \<Rightarrow> cid list" where
  "eligible_cids t me = filter (\<lambda>c. local_piece_count t c me \<ge> 2) (sorted_cids t)"

definition batch_size :: "f64 \<Rightarrow> nat \<Rightarrow> nat" where
  "batch_size percent count = max (f64_as_usize (fceil (fmul (usize_as_f64 count) percent))) 1"

definition scan_window :: "nat \<Rightarrow> nat \<Rightarrow> cid list \<Rightarrow> cid list" where
  "scan_window start bsize cids =
     (let count = length cids; stop = min (start + bsize) count;
          batch = drop start (take stop cids);
          wrapped = (if start + bsize > count then take (min (start + bsize - count) count) cids else [])
      in batch @ wrapped)"

definition scan_cycle :: "piece_tracker \<Rightarrow> health_scanner \<Rightarrow> repair_request list \<times> health_scanner" where
  "scan_cycle t sc =
     (if sorted_cids t = [] then ([], sc)
      else let eligible = eligible_cids t (hs_node_id sc)
        in if eligible = [] then ([], sc)
           else let count = length eligible;
                    bsize = batch_size (scan_percent sc) count;
                    start = last_scan_index sc mod count
                in (List.map_filter (evaluate_cid t) (scan_window start bsize eligible),
                    sc\<lparr>last_scan_index := (start + bsize) mod count\<rparr>))"

text \<open>A number of consecutive cycles of the background loop, with the requests they send.\<close>

fun scan_cycles :: "nat \<Rightarrow> piece_tracker \<Rightarrow> health_scanner \<Rightarrow> repair_request list \<times> health_scanner" where
  "scan_cycles 0 t sc = ([], sc)"
| "scan_cycles (Suc n) t sc =
     (let (reqs, sc') = scan_cycle t sc; (reqs', sc'') = scan_cycles n t sc' in (reqs @ reqs', sc''))"

section \<open>The target piece count\<close>

text \<open>The two roundings are too small to move the quotient across an integer.\<close>

lemma nat_div_gap:
  assumes "0 < k" "\<not> k dvd (16 :: nat)"
  shows "of_nat (16 div k) + 1 / of_nat k \<le> (16 / of_nat k :: rat)" "(16 / of_nat k :: rat) \<le> of_nat (16 div k) + 1 - 1 / of_nat k"
proof -
  have r: "0 < 16 mod k" "16 mod k < k" using assms by (auto simp: dvd_eq_mod_eq_0)
  have "(of_nat 16 :: rat) = of_nat (16 div k * k + 16 mod k)" by (simp only: div_mult_mod_eq)
  then have e: "(16 :: rat) = of_nat (16 div k) * of_nat k + of_nat (16 mod k)"
    by (simp only: of_nat_add of_nat_mult of_nat_numeral)
  have k: "(0 :: rat) < of_nat k" using assms(1) by simp
  have q: "(16 / of_nat k :: rat) = of_nat (16 div k) + of_nat (16 mod k) / of_nat k"
    by (subst e) (use k in \<open>simp add: add_divide_distrib\<close>)
  have "(1 :: rat) \<le> of_nat (16 mod k)" using r(1) by (metis One_nat_def Suc_leI of_nat_1 of_nat_le_iff)
  moreover have "of_nat (16 mod k) \<le> (of_nat k - 1 :: rat)" using r(2)
    by (metis Suc_leI add.commute le_diff_eq of_nat_Suc of_nat_le_iff)
  ultimately have "1 / of_nat k \<le> (of_nat (16 mod k) / of_nat k :: rat)" "(of_nat (16 mod k) / of_nat k :: rat) \<le> 1 - 1 / of_nat k"
    using k by (simp_all add: field_simps)
  then show "of_nat (16 div k) + 1 / of_nat k \<le> (16 / of_nat k :: rat)" "(16 / of_nat k :: rat) \<le> of_nat (16 div k) + 1 - 1 / of_nat k"
    unfolding q by simp_all
qed

lemma redundancy_factor:
  assumes "0 < k" "k < 2 ^ 32"
  shows "f64_as_u32 (fceil (fadd (Fin 2) (fdiv (Fin 16) (u32_as_f64 k)))) = 2 + nat \<lceil>16 / (of_nat k :: rat)\<rceil>"
proof -
  let ?x = "16 / of_nat k :: rat"
  have v: "f64_as_u32 (fceil (fadd (Fin 2) (fdiv (Fin 16) (u32_as_f64 k)))) = min (nat \<lceil>rnd (2 + rnd ?x)\<rceil>) (2 ^ 32 - 1)"
    using assms(1) by (simp add: u32_as_f64_def)
  have x: "0 < ?x" "?x \<le> 16" using assms(1) by (simp_all add: field_simps)
  have c16: "\<lceil>?x\<rceil> \<le> 16" using x(2) by (simp add: ceiling_le_iff)
  have c0: "0 \<le> \<lceil>?x\<rceil>" using x(1) by linarith
  have "\<lceil>rnd (2 + rnd ?x)\<rceil> = 2 + \<lceil>?x\<rceil>"
  proof (cases "k dvd 16")
    case True
    then obtain m where m: "16 = k * m" ..
    then have "?x = of_nat m" using assms(1) by (metis nonzero_mult_div_cancel_left of_nat_0_eq_iff of_nat_mult of_nat_numeral neq0_conv)
    moreover have "m \<le> 16" using m assms(1) by (cases k) auto
    moreover have "rnd (2 + of_nat m) = 2 + of_nat m" if "m \<le> 16"
      using rnd_of_nat[of "2 + m"] that by simp
    moreover have "\<lceil>2 + of_nat m :: rat\<rceil> = 2 + int m"
      using ceiling_of_nat[of "2 + m", where 'a = rat] by simp
    ultimately show ?thesis using rnd_of_nat[of m] by simp
  next
    case False
    note gap = nat_div_gap[OF assms(1) False]
    have tiny: "(40 / 2 ^ 53 :: rat) < 1 / of_nat k"
    proof -
      have "(of_nat k :: rat) < 2 ^ 32" using assms(2) by (metis of_nat_less_iff of_nat_numeral of_nat_power)
      then show ?thesis using assms(1) by (simp add: field_simps)
    qed
    have e1: "\<bar>rnd ?x - ?x\<bar> \<le> 16 / 2 ^ 53"
      using rnd_error[OF x(1)] x(2) by (simp add: field_simps)
    have p1: "0 < rnd ?x" by (rule rnd_pos[OF x(1)])
    have "rnd ?x - ?x \<le> 1" using e1 by (rule abs_le_D1[THEN order_trans]) simp
    then have "rnd ?x \<le> 17" using x(2) by linarith
    then have e2: "\<bar>rnd (2 + rnd ?x) - (2 + rnd ?x)\<bar> \<le> 19 / 2 ^ 53"
      using rnd_error[of "2 + rnd ?x"] p1 by (simp add: field_simps)
    have "\<bar>rnd (2 + rnd ?x) - (2 + ?x)\<bar> < 1 / of_nat k"
    proof -
      have "\<bar>rnd (2 + rnd ?x) - (2 + ?x)\<bar> \<le> \<bar>rnd (2 + rnd ?x) - (2 + rnd ?x)\<bar> + \<bar>rnd ?x - ?x\<bar>" by linarith
      also have "\<dots> \<le> 19 / 2 ^ 53 + 16 / 2 ^ 53" using e1 e2 by (rule add_mono[rotated])
      also have "\<dots> < 40 / 2 ^ 53" by simp
      finally show ?thesis using tiny by (rule less_trans)
    qed
    then have "of_nat (16 div k) + 2 < rnd (2 + rnd ?x)" "rnd (2 + rnd ?x) \<le> of_nat (16 div k) + 3"
      using gap by (simp_all add: abs_less_iff)
    then have "\<lceil>rnd (2 + rnd ?x)\<rceil> = int (16 div k) + 3"
      by (intro ceiling_unique) simp_all
    moreover have "\<lceil>?x\<rceil> = int (16 div k) + 1"
    proof (intro ceiling_unique)
      have "(0 :: rat) < 1 / of_nat k" using assms(1) by simp
      then show "of_int (int (16 div k) + 1) - 1 < ?x" "?x \<le> of_int (int (16 div k) + 1)"
        unfolding of_int_add of_int_of_nat_eq of_int_1 using gap by linarith+
    qed
    ultimately show ?thesis by simp
  qed
  then show ?thesis using v c16 c0 by (simp add: nat_add_distrib)
qed

text \<open>
  The evaluation of an identifier.  The target computed in double precision is exactly
  \<open>k * \<lceil>2 + 16 / k\<rceil>\<close>, modulo 2^32; a request is issued exactly when the available pieces are below
  \<open>k\<close> or below that target, critical in the first case, and a missing \<open>k\<close> counts as 32.  The
  product wraps from \<open>k = 1431655766\<close> on, where the target is smaller than \<open>k\<close>.
\<close>

theorem scanner_target_exact:
  "unat (target_piece_count k) = unat (max k 1) * (2 + nat \<lceil>16 / (of_nat (unat (max k 1)) :: rat)\<rceil>) mod 2 ^ 32 \<and>
   target_piece_count 32 = 96 \<and> target_piece_count 8 = 32 \<and> target_piece_count 1431655766 = 2 \<and>
   (let k = case get_k t c of None \<Rightarrow> 32 | Some k \<Rightarrow> k; a = available_count t c
    in (evaluate_cid t c = None \<longleftrightarrow> k \<le> a \<and> target_piece_count k \<le> a) \<and>
       (evaluate_cid t c = Some (Critical c a k) \<longleftrightarrow> a < k))"
proof -
  have eq: "unat (target_piece_count k) = unat (max k 1) * (2 + nat \<lceil>16 / (of_nat (unat (max k 1)) :: rat)\<rceil>) mod 2 ^ 32" for k
  proof -
    have "(1 :: u32) \<le> max k 1" by simp
    then have pos: "0 < unat (max k 1)" by (simp add: word_le_nat_alt)
    have "unat (max k 1) < 2 ^ 32" using unat_lt2p[of "max k 1"] by simp
    from redundancy_factor[OF pos this] show ?thesis
      by (simp only: target_piece_count_def Let_def unat_word_ariths unat_of_nat mod_mult_right_eq) simp
  qed
  have c: "\<lceil>16 / (32 :: rat)\<rceil> = 1" "\<lceil>16 / (8 :: rat)\<rceil> = 2" "\<lceil>16 / (1431655766 :: rat)\<rceil> = 1"
    by (simp_all add: ceiling_eq_iff)
  have "unat (target_piece_count 32) = 96" "unat (target_piece_count 8) = 32" "unat (target_piece_count 1431655766) = 2"
    using c by (simp_all add: eq max_def word_le_nat_alt)
  then have "target_piece_count 32 = 96" "target_piece_count 8 = 32" "target_piece_count 1431655766 = 2"
    by (simp_all add: word_unat_eq_iff)
  moreover have "let k = case get_k t c of None \<Rightarrow> 32 | Some k \<Rightarrow> k; a = available_count t c
    in (evaluate_cid t c = None \<longleftrightarrow> k \<le> a \<and> target_piece_count k \<le> a) \<and> (evaluate_cid t c = Some (Critical c a k) \<longleftrightarrow> a < k)"
    unfolding evaluate_cid_def DEFAULT_K_def Let_def by auto
  ultimately show ?thesis using eq[of k] by blast
qed

section \<open>Coverage\<close>

lemma scan_window_covers:
  assumes "start < length cids" "j < bsize"
  shows "cids ! ((start + j) mod length cids) \<in> set (scan_window start bsize cids)"
proof (cases "start + j < length cids")
  case True
  have "drop start (take (min (start + bsize) (length cids)) cids) ! j = cids ! (start + j)" using True assms by simp
  moreover have "j < length (drop start (take (min (start + bsize) (length cids)) cids))" using True assms by simp
  ultimately have "cids ! (start + j) \<in> set (drop start (take (min (start + bsize) (length cids)) cids))" by (metis nth_mem)
  then show ?thesis using True by (simp add: scan_window_def Let_def)
next
  case False
  let ?i = "(start + j) mod length cids"
  have i: "?i < length cids" by (rule mod_less_divisor) (use assms(1) in linarith)
  have over: "start + bsize > length cids" using False assms by simp
  consider "?i < start + bsize - length cids" | "start \<le> ?i"
  proof (cases "start + j < 2 * length cids")
    case True
    then have "?i = start + j - length cids" using False by (simp add: mod_if)
    then show ?thesis using that(1) assms False by simp
  next
    case far: False
    then show ?thesis using that assms i by (cases "start \<le> ?i") auto
  qed
  then show ?thesis
  proof cases
    case 1
    then have "cids ! ?i = take (min (start + bsize - length cids) (length cids)) cids ! ?i"
      "?i < length (take (min (start + bsize - length cids) (length cids)) cids)" using i by simp_all
    then have "cids ! ?i \<in> set (take (min (start + bsize - length cids) (length cids)) cids)" by (metis nth_mem)
    then show ?thesis using over by (simp add: scan_window_def Let_def)
  next
    case 2
    then have "cids ! ?i = drop start cids ! (?i - start)" "?i - start < length (drop start cids)" using i by simp_all
    then have "cids ! ?i \<in> set (drop start cids)" by (metis nth_mem)
    then show ?thesis using over by (simp add: scan_window_def Let_def min_def)
  qed
qed

lemma scan_window_subset: "set (scan_window start bsize cids) \<subseteq> set cids"
  by (auto simp: scan_window_def Let_def dest: in_set_takeD in_set_dropD split: if_splits)

lemma scan_cycle_index:
  assumes "eligible_cids t (hs_node_id sc) \<noteq> []"
  defines "cids \<equiv> eligible_cids t (hs_node_id sc)"
  defines "b \<equiv> batch_size (scan_percent sc) (length cids)"
  shows "scan_cycle t sc = (List.map_filter (evaluate_cid t) (scan_window (last_scan_index sc mod length cids) b cids),
     sc\<lparr>last_scan_index := (last_scan_index sc + b) mod length cids\<rparr>)"
proof -
  have "sorted_cids t \<noteq> []" using assms(1) by (auto simp: eligible_cids_def)
  then show ?thesis using assms(1) by (simp add: scan_cycle_def Let_def cids_def b_def mod_add_left_eq)
qed

lemma scan_cycles_Suc:
  "fst (scan_cycles (Suc m) t sc) = fst (scan_cycle t sc) @ fst (scan_cycles m t (snd (scan_cycle t sc)))"
  by (simp add: case_prod_unfold Let_def)

lemma scan_cycles_cover:
  assumes "eligible_cids t (hs_node_id sc) \<noteq> []"
    and "d < m * batch_size (scan_percent sc) (length (eligible_cids t (hs_node_id sc)))"
    and "evaluate_cid t (eligible_cids t (hs_node_id sc) ! ((last_scan_index sc + d) mod length (eligible_cids t (hs_node_id sc)))) = Some r"
  shows "r \<in> set (fst (scan_cycles m t sc))"
  using assms
proof (induction m arbitrary: sc d)
  case (Suc m)
  let ?cids = "eligible_cids t (hs_node_id sc)"
  let ?b = "batch_size (scan_percent sc) (length ?cids)"
  let ?sc = "sc\<lparr>last_scan_index := (last_scan_index sc + ?b) mod length ?cids\<rparr>"
  note cyc = scan_cycle_index[OF Suc.prems(1)]
  show ?case
  proof (cases "d < ?b")
    case True
    have "last_scan_index sc mod length ?cids < length ?cids" using Suc.prems(1) by (intro mod_less_divisor) simp
    from scan_window_covers[OF this True] Suc.prems(3)
    have "r \<in> set (fst (scan_cycle t sc))"
      unfolding cyc by (force simp: map_filter_def mod_add_left_eq)
    then show ?thesis by (simp only: scan_cycles_Suc set_append Un_iff simp_thms)
  next
    case False
    have "(last_scan_index ?sc + (d - ?b)) mod length ?cids = (last_scan_index sc + ?b + (d - ?b)) mod length ?cids"
      by (simp add: mod_add_left_eq)
    also have "last_scan_index sc + ?b + (d - ?b) = last_scan_index sc + d" using False by simp
    finally have "r \<in> set (fst (scan_cycles m t ?sc))"
      using Suc.IH[of ?sc "d - ?b"] Suc.prems False by simp
    then show ?thesis by (simp add: scan_cycles_Suc cyc del: scan_cycles.simps)
  qed
qed simp

lemma batch_size_bounds:
  fixes n :: nat
  assumes "0 < n" "n < 2 ^ 50"
  defines "y \<equiv> rnd (of_nat n * rnd (1 / 100))"
  shows "of_nat n / 100 - 1 / 100 < y" "y < of_nat n / 100 + 1 / 100"
proof -
  let ?n = "of_nat n :: rat"
  have n: "0 < ?n" "?n < 2 ^ 50" using assms(1,2) by simp_all
  have p: "\<bar>rnd (1 / 100) - 1 / 100\<bar> \<le> (1 / 100 :: rat) / 2 ^ 53" by (rule rnd_error) simp
  have p0: "0 < rnd (1 / 100)" by (rule rnd_pos) simp
  have x: "\<bar>?n * rnd (1 / 100) - ?n / 100\<bar> \<le> ?n * ((1 / 100) / 2 ^ 53)"
  proof -
    have "?n * rnd (1 / 100) - ?n / 100 = ?n * (rnd (1 / 100) - 1 / 100)" by (simp add: algebra_simps)
    then have "\<bar>?n * rnd (1 / 100) - ?n / 100\<bar> = ?n * \<bar>rnd (1 / 100) - 1 / 100\<bar>" using n(1) by (simp add: abs_mult)
    then show ?thesis using p n(1) by (simp only: mult_left_mono less_imp_le)
  qed
  have "\<bar>y - ?n * rnd (1 / 100)\<bar> \<le> (?n * rnd (1 / 100)) / 2 ^ 53"
    unfolding y_def using n p0 by (intro rnd_error) simp
  moreover have "?n * rnd (1 / 100) \<le> ?n / 50"
  proof -
    have "rnd (1 / 100) - 1 / 100 \<le> (1 / 100 :: rat) / 2 ^ 53" using p by (rule abs_le_D1)
    moreover have "(1 / 100 :: rat) / 2 ^ 53 \<le> 1 / 100" by simp
    ultimately have "rnd (1 / 100) \<le> 1 / 50" by linarith
    then have "?n * rnd (1 / 100) \<le> ?n * (1 / 50)" using n(1) by (simp only: mult_left_mono less_imp_le)
    then show ?thesis by simp
  qed
  ultimately have y: "\<bar>y - ?n * rnd (1 / 100)\<bar> \<le> (?n / 50) / 2 ^ 53"
    by (meson divide_right_mono order_trans zero_le_numeral zero_le_power)
  have "\<bar>y - ?n / 100\<bar> \<le> \<bar>y - ?n * rnd (1 / 100)\<bar> + \<bar>?n * rnd (1 / 100) - ?n / 100\<bar>" by linarith
  also have "\<dots> \<le> (?n / 50) / 2 ^ 53 + ?n * ((1 / 100) / 2 ^ 53)" using x y by linarith
  also have "\<dots> < 1 / 100" using n(2) by simp
  finally show "?n / 100 - 1 / 100 < y" "y < ?n / 100 + 1 / 100" by linarith+
qed

lemma batch_size_percent:
  assumes "n < 2 ^ 50"
  shows "n \<le> 100 * batch_size (Fin (rnd (1 / 100))) n" "batch_size (Fin (rnd (1 / 100))) n \<le> n div 100 + 1"
proof -
  define y where "y = rnd (of_nat n * rnd (1 / 100))"
  have b: "batch_size (Fin (rnd (1 / 100))) n = max (min (nat \<lceil>y\<rceil>) (2 ^ 64 - 1)) 1"
    using rnd_of_nat[of n] assms by (simp add: batch_size_def usize_as_f64_def y_def)
  have "n \<le> 100 * batch_size (Fin (rnd (1 / 100))) n \<and> batch_size (Fin (rnd (1 / 100))) n \<le> n div 100 + 1"
  proof (cases "n = 0")
    case True
    then have "y = 0" by (simp add: y_def) (simp add: rnd_def)
    then show ?thesis using True b by simp
  next
    case False
    then have yb: "of_nat n / 100 - 1 / 100 < y" "y < of_nat n / 100 + 1 / 100"
      using batch_size_bounds[of n] assms unfolding y_def by simp_all
    have lo: "int n \<le> 100 * \<lceil>y\<rceil>"
    proof (rule ccontr)
      assume "\<not> int n \<le> 100 * \<lceil>y\<rceil>"
      then have "100 * \<lceil>y\<rceil> \<le> int n - 1" by simp
      then have "of_int (100 * \<lceil>y\<rceil>) \<le> (of_int (int n - 1) :: rat)" by (simp only: of_int_le_iff)
      then have "100 * of_int \<lceil>y\<rceil> \<le> (of_nat n - 1 :: rat)" by simp
      moreover have "y \<le> of_int \<lceil>y\<rceil>" by simp
      ultimately show False using yb(1) by (simp add: field_simps)
    qed
    have "(of_nat n :: rat) = of_nat (n div 100 * 100 + n mod 100)" by (simp only: div_mult_mod_eq)
    moreover have "(of_nat (n mod 100) :: rat) \<le> of_nat 99" by (subst of_nat_le_iff) simp
    ultimately have "y \<le> of_int (int (n div 100) + 1)" using yb(2) by simp
    then have hi: "\<lceil>y\<rceil> \<le> int (n div 100) + 1" by (simp only: ceiling_le_iff)
    have "nat \<lceil>y\<rceil> \<le> n div 100 + 1" "n \<le> 100 * nat \<lceil>y\<rceil>" using lo hi by linarith+
    moreover have "n div 100 + 1 \<le> 2 ^ 64 - 1" using assms by simp
    ultimately show ?thesis by (auto simp: b)
  qed
  then show "n \<le> 100 * batch_size (Fin (rnd (1 / 100))) n" "batch_size (Fin (rnd (1 / 100))) n \<le> n div 100 + 1"
    by simp_all
qed

lemma scan_cycles_sound:
  "r \<in> set (fst (scan_cycles m t sc)) \<Longrightarrow> \<exists>c \<in> set (eligible_cids t (hs_node_id sc)). evaluate_cid t c = Some r"
proof (induction m arbitrary: sc)
  case (Suc m)
  show ?case
  proof (cases "eligible_cids t (hs_node_id sc) = []")
    case True
    then have "scan_cycle t sc = ([], sc)" by (simp add: scan_cycle_def Let_def)
    then show ?thesis using Suc by (simp add: case_prod_unfold Let_def)
  next
    case False
    note c = scan_cycle_index[OF False]
    have "r \<in> set (fst (scan_cycle t sc)) \<or> r \<in> set (fst (scan_cycles m t (snd (scan_cycle t sc))))"
      using Suc.prems by (simp only: scan_cycles_Suc set_append Un_iff)
    then show ?thesis
    proof
      assume "r \<in> set (fst (scan_cycle t sc))"
      then show ?thesis unfolding c using scan_window_subset by (force simp: map_filter_def)
    next
      assume "r \<in> set (fst (scan_cycles m t (snd (scan_cycle t sc))))"
      from Suc.IH[OF this] show ?thesis by (simp add: c)
    qed
  qed
qed simp

lemma scan_window_length: "start < length cids \<Longrightarrow> length (scan_window start bsize cids) \<le> bsize"
  by (auto simp: scan_window_def Let_def min_def)

text \<open>
  C37. Scan coverage.  While the tracker does not change, one hundred consecutive cycles of the
  default scanner, from any cursor, request the repair of every identifier that needs one and of
  which the node holds at least two pieces, and of no other; and one cycle requests at most one
  percent of the eligible identifiers, rounded up, plus one.
\<close>

theorem scan_coverage:
  assumes "scan_percent sc = scan_percent (scanner_new interval me)" "length (eligible_cids t (hs_node_id sc)) < 2 ^ 50"
  shows "set (fst (scan_cycles 100 t sc)) =
      {r. \<exists>c. c \<in> set (sorted_cids t) \<and> 2 \<le> local_piece_count t c (hs_node_id sc) \<and> evaluate_cid t c = Some r} \<and>
    length (fst (scan_cycle t sc)) \<le> length (eligible_cids t (hs_node_id sc)) div 100 + 1"
proof (intro conjI set_eqI iffI)
  fix r assume "r \<in> set (fst (scan_cycles 100 t sc))"
  from scan_cycles_sound[OF this]
  show "r \<in> {r. \<exists>c. c \<in> set (sorted_cids t) \<and> 2 \<le> local_piece_count t c (hs_node_id sc) \<and> evaluate_cid t c = Some r}"
    by (auto simp: eligible_cids_def)
next
  fix r assume "r \<in> {r. \<exists>c. c \<in> set (sorted_cids t) \<and> 2 \<le> local_piece_count t c (hs_node_id sc) \<and> evaluate_cid t c = Some r}"
  then obtain c where c: "c \<in> set (eligible_cids t (hs_node_id sc))" "evaluate_cid t c = Some r"
    by (auto simp: eligible_cids_def)
  let ?cids = "eligible_cids t (hs_node_id sc)"
  let ?n = "length ?cids" and ?i0 = "last_scan_index sc"
  obtain i where i: "i < ?n" "?cids ! i = c" using c(1) by (auto simp: in_set_conv_nth)
  then have ne: "?cids \<noteq> []" and n: "0 < ?n" by auto
  let ?d = "(i + (?n - ?i0 mod ?n)) mod ?n"
  have "(?i0 + ?d) mod ?n = (?i0 mod ?n + (i + (?n - ?i0 mod ?n))) mod ?n" by (simp add: mod_add_left_eq mod_add_right_eq)
  also have "?i0 mod ?n + (i + (?n - ?i0 mod ?n)) = i + ?n" using mod_less_divisor[OF n, of ?i0] by linarith
  finally have "(?i0 + ?d) mod ?n = i" using i(1) by simp
  moreover have "?d < ?n" using n by simp
  then have "?d < 100 * batch_size (scan_percent sc) ?n"
    using batch_size_percent(1)[OF assms(2)] assms(1) by (simp add: scanner_new_def)
  ultimately show "r \<in> set (fst (scan_cycles 100 t sc))"
    using scan_cycles_cover[OF ne, of ?d 100 r] i(2) c(2) by simp
next
  show "length (fst (scan_cycle t sc)) \<le> length (eligible_cids t (hs_node_id sc)) div 100 + 1"
  proof (cases "eligible_cids t (hs_node_id sc) = []")
    case True
    then show ?thesis by (simp add: scan_cycle_def Let_def)
  next
    case False
    have "length (fst (scan_cycle t sc)) \<le> batch_size (scan_percent sc) (length (eligible_cids t (hs_node_id sc)))"
      unfolding scan_cycle_index[OF False]
      using scan_window_length[OF mod_less_divisor] False by (simp add: map_filter_def) (meson le_trans length_filter_le length_greater_0_conv)
    then show ?thesis using batch_size_percent(2)[OF assms(2)] assms(1) by (simp add: scanner_new_def)
  qed
qed

theorem scan_coverage_witness:
  "let t = report 0 2 (Cid [1]) (NodeId [9]) tracker_new
   in Critical (Cid [1]) 2 32 \<in> set (fst (scan_cycles 100 t (scanner_new 300 (NodeId [9]))))"
proof -
  let ?t = "report 0 2 (Cid [1]) (NodeId [9]) tracker_new" and ?sc = "scanner_new 300 (NodeId [9])"
  have cs: "sorted_cids ?t = [Cid [1]]" "local_piece_count ?t (Cid [1]) (NodeId [9]) = 2"
    by (simp_all add: sorted_cids_def record_piece_def tracker_new_def local_piece_count_def)
  have "length (eligible_cids ?t (hs_node_id ?sc)) < 2 ^ 50" by (simp add: eligible_cids_def cs)
  from scan_coverage[OF refl this]
  have eq: "set (fst (scan_cycles 100 ?t ?sc)) =
      {r. \<exists>c. c \<in> set (sorted_cids ?t) \<and> 2 \<le> local_piece_count ?t c (hs_node_id ?sc) \<and> evaluate_cid ?t c = Some r}"
    by (rule conjunct1)
  have "evaluate_cid ?t (Cid [1]) = Some (Critical (Cid [1]) 2 32)"
    by (simp add: evaluate_cid_def available_count_def get_k_def record_piece_def tracker_new_def DEFAULT_K_def Let_def)
  then show ?thesis unfolding Let_def eq by (simp add: cs scanner_new_def)
qed

end
