(* ===== verification/Swim.thy ===== *)
theory Swim
  imports Wire "HOL-Library.AList"
begin

text \<open>
  SWIM membership (craftec-net/src/swim.rs): the member table with its three states, the handling
  of protocol messages, the protocol tick and the probe cycle.  The table is an association list in
  the order in which the concurrent map iterates.  Times are in milliseconds and passed in; a claim
  about a member is one atomic update of its entry, as the code makes it.
\<close>

section \<open>Members\<close>

datatype member_state = Alive u64 | Suspect u64 nat | Dead u64

fun incarnation_of :: "member_state \<Rightarrow> u64" where
  "incarnation_of (Alive i) = i"
| "incarnation_of (Suspect i _) = i"
| "incarnation_of (Dead i) = i"

fun is_alive_state :: "member_state \<Rightarrow> bool" where
  "is_alive_state (Alive _) = True"
| "is_alive_state _ = False"

record swim =
  sw_members :: "(node_id \<times> member_state) list"
  sw_incarnation :: u64
  sw_local :: node_id
  sw_suspect_timeout :: nat
  sw_protocol_period :: nat
  sw_probe_index :: u64
  sw_probe_nonce :: u64
  sw_pending :: "u64 list"
  sw_acked :: "(u64 \<times> u64) list"
  sw_tick_count :: u64
  sw_events :: "event list option"

definition DEFAULT_SUSPECT_TIMEOUT :: nat where "DEFAULT_SUSPECT_TIMEOUT = 5000"
definition DEFAULT_PROTOCOL_PERIOD :: nat where "DEFAULT_PROTOCOL_PERIOD = 500"

definition swim_new :: "node_id \<Rightarrow> swim" where
  "swim_new local_id = \<lparr>sw_members = [], sw_incarnation = 0, sw_local = local_id,
     sw_suspect_timeout = DEFAULT_SUSPECT_TIMEOUT, sw_protocol_period = DEFAULT_PROTOCOL_PERIOD,
     sw_probe_index = 0, sw_probe_nonce = 0, sw_pending = [], sw_acked = [], sw_tick_count = 0, sw_events = None\<rparr>"

definition alive_members :: "swim \<Rightarrow> node_id list" where
  "alive_members s = map fst (filter (\<lambda>e. is_alive_state (snd e)) (sw_members s))"

definition member_count :: "swim \<Rightarrow> nat" where
  "member_count s = length (sw_members s)"

definition alive_count :: "swim \<Rightarrow> nat" where
  "alive_count s = length (filter (\<lambda>e. is_alive_state (snd e)) (sw_members s))"

definition is_alive :: "swim \<Rightarrow> node_id \<Rightarrow> bool" where
  "is_alive s n = (case map_of (sw_members s) n of Some (Alive _) \<Rightarrow> True | _ \<Rightarrow> False)"

text \<open>The sender of events can be set once; later calls have no effect.\<close>

definition swim_set_event_sender :: "swim \<Rightarrow> swim" where
  "swim_set_event_sender s = (if sw_events s = None then s\<lparr>sw_events := Some []\<rparr> else s)"

definition send_event :: "event \<Rightarrow> swim \<Rightarrow> swim" where
  "send_event e s = s\<lparr>sw_events := map_option (\<lambda>es. es @ [e]) (sw_events s)\<rparr>"

definition last_known_incarnation :: "swim \<Rightarrow> node_id \<Rightarrow> u64" where
  "last_known_incarnation s n = (case map_of (sw_members s) n of None \<Rightarrow> 0 | Some st \<Rightarrow> incarnation_of st)"

section \<open>State transitions\<close>

fun alive_dominated :: "u64 \<Rightarrow> member_state \<Rightarrow> bool" where
  "alive_dominated inc (Alive i) \<longleftrightarrow> inc \<le> i"
| "alive_dominated inc (Suspect i _) \<longleftrightarrow> inc < i"
| "alive_dominated inc (Dead i) \<longleftrightarrow> inc \<le> i"

fun suspect_updates :: "u64 \<Rightarrow> member_state \<Rightarrow> bool" where
  "suspect_updates inc (Alive i) \<longleftrightarrow> inc \<ge> i"
| "suspect_updates inc (Suspect i _) \<longleftrightarrow> inc > i"
| "suspect_updates inc (Dead _) \<longleftrightarrow> False"

fun dead_updates :: "u64 \<Rightarrow> member_state \<Rightarrow> bool" where
  "dead_updates inc (Dead i) \<longleftrightarrow> inc > i"
| "dead_updates inc _ \<longleftrightarrow> True"

text \<open>\<open>entry(k).and_modify(f).or_insert_with(v)\<close>.\<close>

definition upsert :: "node_id \<Rightarrow> (member_state \<Rightarrow> member_state) \<Rightarrow> member_state \<Rightarrow> swim \<Rightarrow> swim" where
  "upsert n f v s = s\<lparr>sw_members := AList.update n (case map_of (sw_members s) n of None \<Rightarrow> v | Some st \<Rightarrow> f st) (sw_members s)\<rparr>"

definition mark_alive :: "node_id \<Rightarrow> u64 \<Rightarrow> swim \<Rightarrow> swim" where
  "mark_alive n inc s =
     (if n = sw_local s then s
      else let is_new = (map_of (sw_members s) n = None);
               s' = upsert n (\<lambda>st. if alive_dominated inc st then st else Alive inc) (Alive inc) s
           in if is_new then send_event (PeerConnected n) s' else s')"

definition mark_suspect :: "nat \<Rightarrow> node_id \<Rightarrow> u64 \<Rightarrow> swim \<Rightarrow> swim" where
  "mark_suspect now n inc s =
     (if n = sw_local s then s\<lparr>sw_incarnation := sw_incarnation s + 1\<rparr>
      else upsert n (\<lambda>st. if suspect_updates inc st then Suspect inc now else st) (Suspect inc now) s)"

definition mark_dead :: "node_id \<Rightarrow> u64 \<Rightarrow> swim \<Rightarrow> swim" where
  "mark_dead n inc s =
     (if n = sw_local s then s
      else let was_connected = (case map_of (sw_members s) n of Some (Alive _) \<Rightarrow> True | Some (Suspect _ _) \<Rightarrow> True | _ \<Rightarrow> False);
               s' = upsert n (\<lambda>st. if dead_updates inc st then Dead inc else st) (Dead inc) s
           in if was_connected then send_event (PeerDisconnected n) s' else s')"

section \<open>Probes\<close>

text \<open>
  \<open>sw_pending\<close> holds the nonces whose oneshot sender is registered, \<open>sw_acked\<close> the values sent to
  the receivers.
\<close>

definition insert_probe :: "u64 \<Rightarrow> swim \<Rightarrow> swim" where
  "insert_probe nonce s = s\<lparr>sw_pending := nonce # removeAll nonce (sw_pending s)\<rparr>"

definition register_probe :: "swim \<Rightarrow> u64 \<times> swim" where
  "register_probe s = (sw_probe_nonce s, insert_probe (sw_probe_nonce s) (s\<lparr>sw_probe_nonce := sw_probe_nonce s + 1\<rparr>))"

definition resolve_probe :: "u64 \<Rightarrow> u64 \<Rightarrow> swim \<Rightarrow> bool \<times> swim" where
  "resolve_probe nonce inc s =
     (if nonce \<in> set (sw_pending s)
      then (True, s\<lparr>sw_pending := removeAll nonce (sw_pending s), sw_acked := (nonce, inc) # sw_acked s\<rparr>)
      else (False, s))"

section \<open>Messages\<close>

fun handle_message :: "nat \<Rightarrow> wire_message \<Rightarrow> swim \<Rightarrow> wire_message list \<times> swim"
  and handle_messages :: "nat \<Rightarrow> wire_message list \<Rightarrow> swim \<Rightarrow> wire_message list \<times> swim" where
  "handle_message now (SwimJoin n port) s =
     (let s' = mark_alive n 0 s in ([SwimAlive (sw_local s') (sw_incarnation s')], s'))"
| "handle_message now (SwimAlive n inc) s = ([SwimAlive n inc], mark_alive n inc s)"
| "handle_message now (SwimSuspect n inc from) s = ([SwimSuspect n inc from], mark_suspect now n inc s)"
| "handle_message now (SwimDead n inc from) s = ([SwimDead n inc from], mark_dead n inc s)"
| "handle_message now (SwimPing from nonce piggyback) s =
     (case handle_messages now piggyback s of (rs, s') \<Rightarrow> (rs @ [SwimPingAck (sw_local s') nonce (sw_incarnation s')], s'))"
| "handle_message now (SwimPingAck from nonce inc) s = ([], snd (resolve_probe nonce inc (mark_alive from inc s)))"
| "handle_message now _ s = ([], s)"
| "handle_messages now [] s = ([], s)"
| "handle_messages now (m # ms) s =
     (case handle_message now m s of (rs, s') \<Rightarrow>
        case handle_messages now ms s' of (rs', s'') \<Rightarrow> (rs @ rs', s''))"

section \<open>Protocol tick\<close>

text \<open>The number of times a value can be halved is \<open>usize::BITS - leading_zeros() - 1\<close>.\<close>

function ilog2 :: "nat \<Rightarrow> nat" where
  "ilog2 n = (if n \<le> 1 then 0 else ilog2 (n div 2) + 1)"
  by pat_completeness auto
termination
  by (relation "measure id") auto

declare ilog2.simps [simp del]

definition adaptive_piggyback_count :: "nat \<Rightarrow> nat" where
  "adaptive_piggyback_count n =
     (if n \<le> 16 then 4
      else let log2 = ilog2 n; ceil_log2 = (if n = 2 ^ log2 then log2 else log2 + 1) in max ceil_log2 4)"

fun state_rank :: "member_state \<Rightarrow> nat" where
  "state_rank (Alive _) = 0"
| "state_rank (Suspect _ _) = 1"
| "state_rank (Dead _) = 2"

fun gossip_msg :: "node_id \<Rightarrow> node_id \<times> member_state \<Rightarrow> wire_message" where
  "gossip_msg me (n, Alive i) = SwimAlive n i"
| "gossip_msg me (n, Suspect i _) = SwimSuspect n i me"
| "gossip_msg me (n, Dead i) = SwimDead n i me"

definition collect_gossip_msgs :: "nat \<Rightarrow> swim \<Rightarrow> wire_message list" where
  "collect_gossip_msgs limit s =
     map (gossip_msg (sw_local s)) (take limit (sort_key (\<lambda>e. state_rank (snd e)) (sw_members s)))"

fun expired :: "nat \<Rightarrow> nat \<Rightarrow> member_state \<Rightarrow> bool" where
  "expired now timeout (Suspect _ since) \<longleftrightarrow> now - since \<ge> timeout"
| "expired now timeout _ \<longleftrightarrow> False"

definition newly_dead :: "nat \<Rightarrow> swim \<Rightarrow> (node_id \<times> u64) list" where
  "newly_dead now s = map (\<lambda>e. (fst e, incarnation_of (snd e))) (filter (\<lambda>e. expired now (sw_suspect_timeout s) (snd e)) (sw_members s))"

definition expire_suspects :: "nat \<Rightarrow> swim \<Rightarrow> swim" where
  "expire_suspects now s = foldl (\<lambda>s e. mark_dead (fst e) (snd e) s) s (newly_dead now s)"

definition protocol_tick :: "nat \<Rightarrow> swim \<Rightarrow> (node_id \<times> wire_message) list \<times> swim" where
  "protocol_tick now s0 =
     (let s1 = expire_suspects now s0; alive = alive_members s1;
          s2 = s1\<lparr>sw_tick_count := sw_tick_count s1 + 1\<rparr>
      in if alive = [] then ([], s2)
         else let idx = unat (sw_probe_index s2) mod length alive;
                  s3 = s2\<lparr>sw_probe_index := sw_probe_index s2 + 1\<rparr>;
                  target = alive ! idx;
                  piggyback = collect_gossip_msgs (adaptive_piggyback_count (length alive)) s3;
                  nonce = sw_probe_nonce s3;
                  s4 = s3\<lparr>sw_probe_nonce := sw_probe_nonce s3 + 1\<rparr>
              in ([(target, SwimPing (sw_local s4) nonce piggyback)], s4))"

section \<open>The probe cycle\<close>

text \<open>
  \<open>probe_with_ack\<close>, cut at its waiting points: sending the ping, waiting for the direct
  acknowledgement, waiting for the indirect one.  \<open>shuffle\<close> is the random order of the delegates.
\<close>

datatype probe = ProbeSend node_id wire_message | ProbeDirect node_id u64 | ProbeIndirect node_id u64 | ProbeDone

definition INDIRECT_PROBE_K :: nat where "INDIRECT_PROBE_K = 3"

definition random_alive_excluding :: "(node_id list \<Rightarrow> node_id list) \<Rightarrow> node_id \<Rightarrow> nat \<Rightarrow> swim \<Rightarrow> node_id list" where
  "random_alive_excluding shuffle exclude count s = take count (shuffle (filter (\<lambda>n. n \<noteq> exclude) (alive_members s)))"

definition suspect_target :: "nat \<Rightarrow> node_id \<Rightarrow> swim \<Rightarrow> swim" where
  "suspect_target now target s = mark_suspect now target (last_known_incarnation s target) s"

fun probe_send :: "nat \<Rightarrow> bool \<Rightarrow> node_id \<Rightarrow> wire_message \<Rightarrow> swim \<Rightarrow> probe \<times> swim" where
  "probe_send now send_ok target (SwimPing from nonce pb) s =
     (let s1 = insert_probe nonce s
      in if send_ok then (ProbeDirect target nonce, s1)
         else (ProbeDone, suspect_target now target (s1\<lparr>sw_pending := removeAll nonce (sw_pending s1)\<rparr>)))"
| "probe_send now send_ok target _ s = (ProbeDone, s)"

definition probe_direct_timeout :: "nat \<Rightarrow> (node_id list \<Rightarrow> node_id list) \<Rightarrow> node_id \<Rightarrow> swim \<Rightarrow> probe \<times> swim" where
  "probe_direct_timeout now shuffle target s =
     (if random_alive_excluding shuffle target INDIRECT_PROBE_K s = [] then (ProbeDone, suspect_target now target s)
      else case register_probe s of (nonce, s') \<Rightarrow> (ProbeIndirect target nonce, s'))"

definition probe_indirect_timeout :: "nat \<Rightarrow> node_id \<Rightarrow> swim \<Rightarrow> probe \<times> swim" where
  "probe_indirect_timeout now target s = (ProbeDone, suspect_target now target s)"

section \<open>The node as a transition system\<close>

record swim_sys =
  sy_swim :: swim
  sy_probes :: "probe list"
  sy_now :: nat

definition set_probe :: "nat \<Rightarrow> probe \<times> swim \<Rightarrow> swim_sys \<Rightarrow> swim_sys" where
  "set_probe i r y = y\<lparr>sy_swim := snd r, sy_probes := (sy_probes y)[i := fst r]\<rparr>"

definition acked :: "swim \<Rightarrow> u64 \<Rightarrow> bool" where
  "acked s nonce \<longleftrightarrow> nonce \<in> fst ` set (sw_acked s)"

text \<open>
  Messages from anyone, ticks of the background loop, the tasks of the probes it spawns, and the
  passing of time, in any order.
\<close>

inductive swim_step :: "swim_sys \<Rightarrow> swim_sys \<Rightarrow> bool" where
  elapse: "swim_step y (y\<lparr>sy_now := sy_now y + k\<rparr>)"
| receive: "swim_step y (y\<lparr>sy_swim := snd (handle_message (sy_now y) m (sy_swim y))\<rparr>)"
| set_sender: "swim_step y (y\<lparr>sy_swim := swim_set_event_sender (sy_swim y)\<rparr>)"
| tick: "protocol_tick (sy_now y) (sy_swim y) = (out, s') \<Longrightarrow>
    swim_step y (y\<lparr>sy_swim := s', sy_probes := sy_probes y @ map (\<lambda>(t, m). ProbeSend t m) out\<rparr>)"
| send: "i < length (sy_probes y) \<Longrightarrow> sy_probes y ! i = ProbeSend t m \<Longrightarrow>
    swim_step y (set_probe i (probe_send (sy_now y) ok t m (sy_swim y)) y)"
| direct_ack: "i < length (sy_probes y) \<Longrightarrow> sy_probes y ! i = ProbeDirect t nonce \<Longrightarrow> acked (sy_swim y) nonce \<Longrightarrow>
    swim_step y (set_probe i (ProbeDone, sy_swim y) y)"
| direct_timeout: "i < length (sy_probes y) \<Longrightarrow> sy_probes y ! i = ProbeDirect t nonce \<Longrightarrow> \<not> acked (sy_swim y) nonce \<Longrightarrow>
    swim_step y (set_probe i (probe_direct_timeout (sy_now y) shuffle t (sy_swim y)) y)"
| indirect_ack: "i < length (sy_probes y) \<Longrightarrow> sy_probes y ! i = ProbeIndirect t nonce \<Longrightarrow> acked (sy_swim y) nonce \<Longrightarrow>
    swim_step y (set_probe i (ProbeDone, sy_swim y) y)"
| indirect_timeout: "i < length (sy_probes y) \<Longrightarrow> sy_probes y ! i = ProbeIndirect t nonce \<Longrightarrow> \<not> acked (sy_swim y) nonce \<Longrightarrow>
    swim_step y (set_probe i (probe_indirect_timeout (sy_now y) t (sy_swim y)) y)"

inductive swim_reachable :: "node_id \<Rightarrow> swim_sys \<Rightarrow> bool" for me where
  init: "swim_reachable me \<lparr>sy_swim = swim_new me, sy_probes = [], sy_now = now\<rparr>"
| step: "swim_reachable me y \<Longrightarrow> swim_step y y' \<Longrightarrow> swim_reachable me y'"

section \<open>Member transitions\<close>

text \<open>The allowed changes of one member's entry.\<close>

inductive member_trans :: "member_state option \<Rightarrow> member_state option \<Rightarrow> bool" where
  join: "member_trans None (Some st)"
| alive_newer: "i < j \<Longrightarrow> member_trans (Some (Alive i)) (Some (Alive j))"
| alive_suspect: "i \<le> j \<Longrightarrow> member_trans (Some (Alive i)) (Some (Suspect j t))"
| suspect_alive: "i \<le> j \<Longrightarrow> member_trans (Some (Suspect i t)) (Some (Alive j))"
| suspect_newer: "i < j \<Longrightarrow> member_trans (Some (Suspect i t)) (Some (Suspect j t'))"
| die: "\<not> (\<exists>i. st = Dead i) \<Longrightarrow> member_trans (Some st) (Some (Dead j))"
| dead_newer: "i < j \<Longrightarrow> member_trans (Some (Dead i)) (Some (Dead j))"
| revive: "i < j \<Longrightarrow> member_trans (Some (Dead i)) (Some (Alive j))"

definition swim_ext :: "swim \<Rightarrow> swim \<Rightarrow> bool" where
  "swim_ext s s' \<longleftrightarrow> sw_local s' = sw_local s \<and>
     (\<forall>n. member_trans\<^sup>*\<^sup>* (map_of (sw_members s) n) (map_of (sw_members s') n)) \<and>
     (sw_local s \<notin> fst ` set (sw_members s) \<longrightarrow> sw_local s \<notin> fst ` set (sw_members s')) \<and>
     (distinct (map fst (sw_members s)) \<longrightarrow> distinct (map fst (sw_members s')))"

lemma swim_ext_refl [simp]: "swim_ext s s"
  by (simp add: swim_ext_def)

lemma swim_ext_same: "sw_local s' = sw_local s \<Longrightarrow> sw_members s' = sw_members s \<Longrightarrow> swim_ext s s'"
  by (simp add: swim_ext_def)

lemma swim_ext_trans: "swim_ext s t \<Longrightarrow> swim_ext t u \<Longrightarrow> swim_ext s u"
  unfolding swim_ext_def by (metis rtranclp_trans)

lemma upsert_members:
  "map_of (sw_members (upsert n f v s)) m =
     (if m = n then Some (case map_of (sw_members s) n of None \<Rightarrow> v | Some st \<Rightarrow> f st) else map_of (sw_members s) m)"
  by (simp add: upsert_def update_conv')

lemma upsert_ext:
  assumes "n \<noteq> sw_local s"
    and "\<And>st. map_of (sw_members s) n = Some st \<Longrightarrow> f st = st \<or> member_trans (Some st) (Some (f st))"
  shows "swim_ext s (upsert n f v s)"
proof -
  have "member_trans\<^sup>*\<^sup>* (map_of (sw_members s) m) (map_of (sw_members (upsert n f v s)) m)" for m
    using assms(2) member_trans.join by (cases "map_of (sw_members s) n") (auto simp: upsert_members)
  then show ?thesis using assms(1) by (simp add: swim_ext_def upsert_def distinct_update dom_update)
qed

lemma send_event_members [simp]:
  "sw_members (send_event e s) = sw_members s" "sw_local (send_event e s) = sw_local s"
  "sw_incarnation (send_event e s) = sw_incarnation s" "sw_suspect_timeout (send_event e s) = sw_suspect_timeout s"
  by (simp_all add: send_event_def)

lemma swim_ext_send_event: "swim_ext s s' \<Longrightarrow> swim_ext s (send_event e s')"
  by (simp add: swim_ext_def)

lemma mark_ext:
  "swim_ext s (mark_alive n inc s)" "swim_ext s (mark_suspect now n inc s)" "swim_ext s (mark_dead n inc s)"
proof -
  have a: "swim_ext s (upsert n (\<lambda>st. if alive_dominated inc st then st else Alive inc) (Alive inc) s)" if "n \<noteq> sw_local s"
  proof (rule upsert_ext[OF that])
    fix st
    show "(if alive_dominated inc st then st else Alive inc) = st \<or> member_trans (Some st) (Some (if alive_dominated inc st then st else Alive inc))"
      by (cases st) (auto intro: member_trans.intros)
  qed
  then show "swim_ext s (mark_alive n inc s)"
    by (auto simp: mark_alive_def Let_def intro: swim_ext_send_event)
  have "swim_ext s (upsert n (\<lambda>st. if suspect_updates inc st then Suspect inc now else st) (Suspect inc now) s)" if "n \<noteq> sw_local s"
  proof (rule upsert_ext[OF that])
    fix st
    show "(if suspect_updates inc st then Suspect inc now else st) = st \<or> member_trans (Some st) (Some (if suspect_updates inc st then Suspect inc now else st))"
      by (cases st) (auto intro: member_trans.intros)
  qed
  then show "swim_ext s (mark_suspect now n inc s)"
    by (auto simp: mark_suspect_def intro: swim_ext_same)
  have "swim_ext s (upsert n (\<lambda>st. if dead_updates inc st then Dead inc else st) (Dead inc) s)" if "n \<noteq> sw_local s"
  proof (rule upsert_ext[OF that])
    fix st
    show "(if dead_updates inc st then Dead inc else st) = st \<or> member_trans (Some st) (Some (if dead_updates inc st then Dead inc else st))"
      by (cases st) (auto intro: member_trans.intros)
  qed
  then show "swim_ext s (mark_dead n inc s)"
    by (auto simp: mark_dead_def Let_def intro: swim_ext_send_event)
qed

lemma resolve_probe_ext: "swim_ext s (snd (resolve_probe nonce inc s))"
  by (simp add: resolve_probe_def swim_ext_same)

lemma handle_ext: "swim_ext s (snd (handle_message now m s))" "swim_ext s (snd (handle_messages now ms s))"
proof (induction now m s and now ms s rule: handle_message_handle_messages.induct)
  case (6 now src nonce inc s)
  then show ?case using swim_ext_trans[OF mark_ext(1) resolve_probe_ext] by simp
next
  case (9 now m ms s)
  obtain rs s' where 1: "handle_message now m s = (rs, s')" by (cases "handle_message now m s")
  obtain rs' s'' where 2: "handle_messages now ms s' = (rs', s'')" by (cases "handle_messages now ms s'")
  show ?case using 9 1 2 swim_ext_trans by auto
qed (auto simp: mark_ext Let_def split: prod.splits)

lemma expire_ext: "swim_ext s (expire_suspects now s)"
proof -
  have "swim_ext s (foldl (\<lambda>s e. mark_dead (fst e) (snd e) s) s es)" for es
    by (induction es arbitrary: s) (auto intro: swim_ext_trans mark_ext)
  then show ?thesis by (simp add: expire_suspects_def)
qed

lemma protocol_tick_ext: "swim_ext s (snd (protocol_tick now s))"
proof -
  have "swim_ext (expire_suspects now s) (snd (protocol_tick now s))" by (simp add: protocol_tick_def Let_def swim_ext_same)
  then show ?thesis using expire_ext swim_ext_trans by blast
qed

lemma suspect_target_ext: "swim_ext s (suspect_target now t s)"
  by (simp add: suspect_target_def mark_ext)

lemma probe_ext:
  "swim_ext s (snd (probe_send now ok t m s))" "swim_ext s (snd (probe_direct_timeout now shuffle t s))"
  "swim_ext s (snd (probe_indirect_timeout now t s))"
proof -
  have "swim_ext s (s\<lparr>sw_pending := x\<rparr>)" for x by (simp add: swim_ext_same)
  then show "swim_ext s (snd (probe_send now ok t m s))"
    using swim_ext_trans[OF _ suspect_target_ext] by (cases m) (auto simp: Let_def insert_probe_def)
  show "swim_ext s (snd (probe_direct_timeout now shuffle t s))"
    by (simp add: probe_direct_timeout_def register_probe_def insert_probe_def swim_ext_same suspect_target_ext)
  show "swim_ext s (snd (probe_indirect_timeout now t s))" by (simp add: probe_indirect_timeout_def suspect_target_ext)
qed

lemma swim_step_ext:
  assumes "swim_step y y'"
  shows "swim_ext (sy_swim y) (sy_swim y')"
  using assms
proof cases
  case (tick out s')
  then show ?thesis using protocol_tick_ext[of "sy_swim y" "sy_now y"] by simp
qed (auto simp: set_probe_def handle_ext probe_ext swim_set_event_sender_def intro: swim_ext_same)

lemma swim_reachable_wf:
  assumes "swim_reachable me y"
  shows "sw_local (sy_swim y) = me \<and> me \<notin> fst ` set (sw_members (sy_swim y)) \<and> distinct (map fst (sw_members (sy_swim y)))"
  using assms
proof induction
  case (init now)
  then show ?case by (simp add: swim_new_def)
next
  case (step y y')
  then show ?case using swim_step_ext[OF step.hyps(2)] by (simp add: swim_ext_def)
qed

section \<open>Probe acknowledgements\<close>

text \<open>How many claims in a message suspect a node, at any nesting depth.\<close>

fun suspicions :: "node_id \<Rightarrow> wire_message \<Rightarrow> nat" where
  "suspicions me (SwimSuspect n _ _) = (if n = me then 1 else 0)"
| "suspicions me (SwimPing _ _ pb) = sum_list (map (suspicions me) pb)"
| "suspicions me _ = 0"

lemma mark_incarnation [simp]:
  "sw_incarnation (mark_alive n inc s) = sw_incarnation s" "sw_local (mark_alive n inc s) = sw_local s"
  "sw_incarnation (mark_suspect now n inc s) = sw_incarnation s + (if n = sw_local s then 1 else 0)"
  "sw_local (mark_suspect now n inc s) = sw_local s"
  "sw_incarnation (mark_dead n inc s) = sw_incarnation s" "sw_local (mark_dead n inc s) = sw_local s"
  "sw_suspect_timeout (mark_dead n inc s) = sw_suspect_timeout s"
  by (simp_all add: mark_alive_def mark_suspect_def mark_dead_def upsert_def Let_def)

lemma resolve_probe_incarnation [simp]:
  "sw_incarnation (snd (resolve_probe nonce inc s)) = sw_incarnation s" "sw_local (snd (resolve_probe nonce inc s)) = sw_local s"
  "sw_members (snd (resolve_probe nonce inc s)) = sw_members s"
  by (simp_all add: resolve_probe_def)

lemma handle_incarnation:
  "sw_incarnation (snd (handle_message now m s)) = sw_incarnation s + of_nat (suspicions (sw_local s) m) \<and>
     sw_local (snd (handle_message now m s)) = sw_local s"
  "sw_incarnation (snd (handle_messages now ms s)) = sw_incarnation s + of_nat (sum_list (map (suspicions (sw_local s)) ms)) \<and>
     sw_local (snd (handle_messages now ms s)) = sw_local s"
proof (induction now m s and now ms s rule: handle_message_handle_messages.induct)
  case (9 now m ms s)
  obtain rs s' where 1: "handle_message now m s = (rs, s')" by (cases "handle_message now m s")
  obtain rs' s'' where 2: "handle_messages now ms s' = (rs', s'')" by (cases "handle_messages now ms s'")
  show ?case using 9 1 2 by (simp add: add.assoc)
qed (auto simp: Let_def split: prod.splits)

lemma mark_alive_result:
  assumes "n \<noteq> sw_local s"
  shows "is_alive (mark_alive n inc s) n \<longleftrightarrow>
    (case map_of (sw_members s) n of Some (Suspect i _) \<Rightarrow> i \<le> inc | Some (Dead i) \<Rightarrow> i < inc | _ \<Rightarrow> True)"
  using assms by (auto simp: mark_alive_def Let_def is_alive_def upsert_members split: option.splits member_state.splits)

section \<open>Properties\<close>



text \<open>
  Refutation.  A node answers every ping with an acknowledgement carrying its incarnation, raised
  once for every claim in the ping that suspects it.  The peer that receives the acknowledgement
  then considers the node alive exactly when it did so before, or suspected it at an incarnation
  not above the acknowledged one, or had it dead at a lower incarnation.  In particular a node
  that restarts with incarnation zero stays dead for its peers until it exceeds its old one.
\<close>

theorem swim_refutation:
  assumes "sw_local q \<noteq> sw_local p" "handle_message now (SwimPing (sw_local p) nonce pb) q = (rs, q')"
  shows "last rs = SwimPingAck (sw_local q) nonce (sw_incarnation q') \<and>
    sw_incarnation q' = sw_incarnation q + of_nat (sum_list (map (suspicions (sw_local q)) pb)) \<and>
    (is_alive (snd (handle_message now' (last rs) p)) (sw_local q) \<longleftrightarrow>
      (case map_of (sw_members p) (sw_local q) of
         Some (Suspect i _) \<Rightarrow> i \<le> sw_incarnation q' | Some (Dead i) \<Rightarrow> i < sw_incarnation q' | _ \<Rightarrow> True))"
proof -
  obtain rs0 where rs: "handle_messages now pb q = (rs0, q')" "rs = rs0 @ [SwimPingAck (sw_local q') nonce (sw_incarnation q')]"
    using assms(2) by (auto split: prod.splits)
  have q': "sw_incarnation q' = sw_incarnation q + of_nat (sum_list (map (suspicions (sw_local q)) pb))" "sw_local q' = sw_local q"
    using handle_incarnation(2)[of now pb q] rs(1) by simp_all
  have "is_alive (snd (handle_message now' (last rs) p)) (sw_local q) \<longleftrightarrow> is_alive (mark_alive (sw_local q) (sw_incarnation q') p) (sw_local q)"
    by (simp add: rs(2) q'(2) is_alive_def)
  then show ?thesis unfolding mark_alive_result[OF assms(1)] using q' rs(2) by simp
qed

theorem swim_refutation_witness:
  "is_alive (snd (handle_message 9 (SwimPingAck (NodeId [2]) 5 1)
      (snd (handle_message 8 (SwimSuspect (NodeId [2]) 0 (NodeId [3])) (swim_new (NodeId [1])))))) (NodeId [2])"
proof -
  let ?p = "snd (handle_message 8 (SwimSuspect (NodeId [2]) 0 (NodeId [3])) (swim_new (NodeId [1])))"
  let ?q = "swim_new (NodeId [2])" and ?pb = "[SwimSuspect (NodeId [2]) 0 (NodeId [1])]"
  obtain rs q' where r: "handle_message 8 (SwimPing (sw_local ?p) 5 ?pb) ?q = (rs, q')"
    by (cases "handle_message 8 (SwimPing (sw_local ?p) 5 ?pb) ?q")
  have m: "map_of (sw_members ?p) (NodeId [2]) = Some (Suspect 0 8)" by code_simp
  have l: "sw_local ?p = NodeId [1]" "sw_local ?q = NodeId [2]" "sw_incarnation ?q = 0" by (simp_all add: swim_new_def)
  have ne: "sw_local ?q \<noteq> sw_local ?p" unfolding l by simp
  have c: "sum_list (map (suspicions (sw_local ?q)) ?pb) = 1" by (simp add: l)
  note t = swim_refutation[OF ne r, of 9, unfolded l m c]
  have q': "sw_incarnation q' = 1" using t by simp
  have "last rs = SwimPingAck (NodeId [2]) 5 1" using t unfolding q' by (simp only:)
  moreover have "is_alive (snd (handle_message 9 (last rs) ?p)) (NodeId [2])" using conjunct2[OF conjunct2[OF t]] by simp
  ultimately show ?thesis by (simp only:)
qed

section \<open>Ticks\<close>

lemma mark_dead_members:
  assumes "n \<noteq> sw_local s"
  shows "map_of (sw_members (mark_dead n inc s)) m =
    (if m = n then Some (case map_of (sw_members s) n of None \<Rightarrow> Dead inc | Some st \<Rightarrow> if dead_updates inc st then Dead inc else st)
     else map_of (sw_members s) m)"
  using assms by (simp add: mark_dead_def Let_def upsert_members)

lemma foldl_mark_dead:
  assumes "distinct (map fst es)" "sw_local s \<notin> fst ` set es"
    and "\<forall>(n, i) \<in> set es. \<exists>t. map_of (sw_members s) n = Some (Suspect i t)"
  shows "map_of (sw_members (foldl (\<lambda>s e. mark_dead (fst e) (snd e) s) s es)) m =
    (case map_of es m of Some i \<Rightarrow> Some (Dead i) | None \<Rightarrow> map_of (sw_members s) m)"
  using assms
proof (induction es arbitrary: s)
  case Nil
  then show ?case by simp
next
  case (Cons e es)
  obtain n i where e: "e = (n, i)" by (cases e)
  let ?s = "mark_dead n i s"
  obtain t where t: "map_of (sw_members s) n = Some (Suspect i t)" using Cons.prems(3) e by auto
  have n: "n \<noteq> sw_local s" using Cons.prems(2) e by auto
  have at: "map_of (sw_members ?s) m = (if m = n then Some (Dead i) else map_of (sw_members s) m)" for m
    using mark_dead_members[OF n, of i m] t by simp
  have "\<forall>(n', i') \<in> set es. \<exists>t. map_of (sw_members ?s) n' = Some (Suspect i' t)"
  proof (clarify)
    fix n' i'
    assume m: "(n', i') \<in> set es"
    then have "n' \<noteq> n" using Cons.prems(1) e by (auto simp: rev_image_eqI)
    then show "\<exists>t. map_of (sw_members ?s) n' = Some (Suspect i' t)" using Cons.prems(3) m at by auto
  qed
  then have "map_of (sw_members (foldl (\<lambda>s e. mark_dead (fst e) (snd e) s) ?s es)) m =
      (case map_of es m of Some i \<Rightarrow> Some (Dead i) | None \<Rightarrow> map_of (sw_members ?s) m)"
    using Cons.prems(1,2) e by (intro Cons.IH) auto
  moreover have "map_of es n = None" using Cons.prems(1) e by (simp add: map_of_eq_None_iff)
  ultimately show ?case using at e by (auto split: option.splits)
qed

lemma expire_members:
  assumes "distinct (map fst (sw_members s))" "sw_local s \<notin> fst ` set (sw_members s)"
  shows "map_of (sw_members (expire_suspects now s)) n =
    (case map_of (sw_members s) n of
       Some st \<Rightarrow> Some (if expired now (sw_suspect_timeout s) st then Dead (incarnation_of st) else st)
     | None \<Rightarrow> None)"
proof -
  let ?ex = "\<lambda>e. expired now (sw_suspect_timeout s) (snd e)"
  let ?es = "newly_dead now s"
  have d: "distinct (map fst ?es)" using assms(1) by (simp add: newly_dead_def comp_def distinct_map_filter)
  have mem: "map_of (sw_members s) n = Some st" if "(n, st) \<in> set (sw_members s)" for n st
    using assms(1) that by (rule map_of_is_SomeI)
  have s: "\<forall>(n, i) \<in> set ?es. \<exists>t. map_of (sw_members s) n = Some (Suspect i t)"
  proof (clarify)
    fix n i
    assume "(n, i) \<in> set ?es"
    then obtain st where st: "(n, st) \<in> set (sw_members s)" "expired now (sw_suspect_timeout s) st" "i = incarnation_of st"
      by (auto simp: newly_dead_def)
    then show "\<exists>t. map_of (sw_members s) n = Some (Suspect i t)" using mem by (cases st) auto
  qed
  have es: "map_of ?es n = (case map_of (sw_members s) n of
      Some st \<Rightarrow> if expired now (sw_suspect_timeout s) st then Some (incarnation_of st) else None | None \<Rightarrow> None)"
  proof (cases "map_of (sw_members s) n")
    case None
    then have "n \<notin> fst ` set ?es" by (force simp: newly_dead_def map_of_eq_None_iff)
    then show ?thesis using None by (simp add: map_of_eq_None_iff[THEN iffD2])
  next
    case (Some st)
    show ?thesis
    proof (cases "expired now (sw_suspect_timeout s) st")
      case True
      then have "(n, incarnation_of st) \<in> set ?es" using map_of_SomeD[OF Some] by (force simp: newly_dead_def)
      then show ?thesis using map_of_is_SomeI[OF d] Some True by simp
    next
      case False
      have "n \<notin> fst ` set ?es" using mem Some False by (auto simp: newly_dead_def)
      then show ?thesis using Some False by (simp add: map_of_eq_None_iff)
    qed
  qed
  have l: "sw_local s \<notin> fst ` set ?es" using assms(2) by (force simp: newly_dead_def)
  show ?thesis
    unfolding expire_suspects_def foldl_mark_dead[OF d l s] es by (simp split: option.splits)
qed

text \<open>The targets of consecutive ticks at the given times.\<close>

fun tick_targets :: "nat list \<Rightarrow> swim \<Rightarrow> node_id list" where
  "tick_targets [] s = []"
| "tick_targets (t # ts) s = map fst (fst (protocol_tick t s)) @ tick_targets ts (snd (protocol_tick t s))"

definition no_suspects :: "swim \<Rightarrow> bool" where
  "no_suspects s \<longleftrightarrow> list_all (\<lambda>e. state_rank (snd e) \<noteq> 1) (sw_members s)"

lemma expire_no_suspects: "no_suspects s \<Longrightarrow> expire_suspects now s = s"
proof -
  have "\<not> expired now t st" if "state_rank st \<noteq> 1" for t st using that by (cases st) auto
  then show "no_suspects s \<Longrightarrow> ?thesis"
    by (simp add: expire_suspects_def newly_dead_def no_suspects_def list_all_iff filter_empty_conv)
qed

lemma protocol_tick_quiet:
  assumes "no_suspects s" "alive_members s \<noteq> []"
  shows "map fst (fst (protocol_tick now s)) = [alive_members s ! (unat (sw_probe_index s) mod length (alive_members s))]"
    "sw_members (snd (protocol_tick now s)) = sw_members s" "sw_probe_index (snd (protocol_tick now s)) = sw_probe_index s + 1"
  using assms by (simp_all add: protocol_tick_def expire_no_suspects Let_def)

lemma tick_targets_nth:
  assumes "no_suspects s" "alive_members s \<noteq> []" "unat (sw_probe_index s) + length ts < 2 ^ 64"
  shows "tick_targets ts s =
    map (\<lambda>j. alive_members s ! ((unat (sw_probe_index s) + j) mod length (alive_members s))) [0..<length ts]"
  using assms
proof (induction ts arbitrary: s)
  case Nil
  then show ?case by simp
next
  case (Cons t ts)
  let ?s = "snd (protocol_tick t s)" and ?i = "unat (sw_probe_index s)"
  note q = protocol_tick_quiet[OF Cons.prems(1,2), of t]
  have i: "unat (sw_probe_index ?s) = ?i + 1"
    using Cons.prems(3) q(3) by (simp add: unat_word_ariths)
  have a: "alive_members ?s = alive_members s" "no_suspects ?s" using q(2) Cons.prems(1) by (simp_all add: alive_members_def no_suspects_def)
  have "tick_targets ts ?s = map (\<lambda>j. alive_members s ! ((?i + 1 + j) mod length (alive_members s))) [0..<length ts]"
    using Cons.IH[of ?s] a Cons.prems(2,3) i by simp
  then show ?case using q(1) by (simp add: upt_conv_Cons map_Suc_upt[symmetric] comp_def del: upt_Suc)
qed

lemma round_robin:
  assumes "no_suspects s" "alive_members s \<noteq> []" "length ts = length (alive_members s)"
    and "unat (sw_probe_index s) + length ts < 2 ^ 64"
  shows "tick_targets ts s = rotate (unat (sw_probe_index s)) (alive_members s)"
  using tick_targets_nth[OF assms(1,2,4)] assms(3)
  by (intro nth_equalityI) (simp_all add: nth_rotate)

lemma ilog2_bounds: "0 < n \<Longrightarrow> 2 ^ ilog2 n \<le> n \<and> n < 2 ^ (ilog2 n + 1)"
proof (induction n rule: ilog2.induct)
  case (1 n)
  show ?case
  proof (cases "n \<le> 1")
    case True
    then show ?thesis using 1(2) by (simp add: ilog2.simps[of n])
  next
    case False
    then have "2 ^ ilog2 (n div 2) \<le> n div 2" "n div 2 < 2 ^ (ilog2 (n div 2) + 1)" using 1(1) by simp_all
    moreover have "n = 2 * (n div 2) \<or> n = 2 * (n div 2) + 1" by arith
    ultimately show ?thesis using False by (auto simp: ilog2.simps[of n])
  qed
qed

lemma adaptive_piggyback_bounds:
  "adaptive_piggyback_count n \<ge> 4" "n \<le> 2 ^ adaptive_piggyback_count n"
  "n > 16 \<Longrightarrow> 2 ^ (adaptive_piggyback_count n - 1) < n"
proof -
  show "adaptive_piggyback_count n \<ge> 4" by (simp add: adaptive_piggyback_count_def Let_def)
  have "2 ^ adaptive_piggyback_count n \<ge> n \<and> 2 ^ (adaptive_piggyback_count n - 1) < n" if "n > 16"
  proof -
    let ?l = "ilog2 n"
    have b: "2 ^ ?l \<le> n" "n < 2 ^ (?l + 1)" using ilog2_bounds[of n] that by simp_all
    have "(2::nat) ^ 4 < 2 ^ (?l + 1)" using b(2) that by simp
    then have "?l \<ge> 4" using power_less_imp_less_exp[of "2::nat" 4 "?l + 1"] by simp
    then have "(2::nat) ^ (?l - 1) < 2 ^ ?l" by (intro power_strict_increasing) simp_all
    then have "2 ^ (?l - 1) < n" using b(1) by (rule less_le_trans)
    then show ?thesis using that b \<open>?l \<ge> 4\<close> by (auto simp: adaptive_piggyback_count_def Let_def max_def)
  qed
  moreover have "n \<le> 2 ^ adaptive_piggyback_count n" if "n \<le> 16" using that by (simp add: adaptive_piggyback_count_def)
  ultimately show "n \<le> 2 ^ adaptive_piggyback_count n" "n > 16 \<Longrightarrow> 2 ^ (adaptive_piggyback_count n - 1) < n"
    by (cases "n \<le> 16"; simp)+
qed

text \<open>
  The protocol tick.  A tick turns exactly the suspects whose timeout has passed into dead
  members of the same incarnation and leaves every other entry alone.  When no member is suspected,
  as many consecutive ticks as there are alive members probe each of them exactly once, so every
  member is probed within one round; each ping gossips about at least four members, or all of them,
  and about as many as the base-two logarithm of the cluster size.
\<close>

theorem protocol_tick_correct:
  assumes "distinct (map fst (sw_members s))" "sw_local s \<notin> fst ` set (sw_members s)"
  shows "(\<forall>n. map_of (sw_members (snd (protocol_tick now s))) n =
      (case map_of (sw_members s) n of
         Some st \<Rightarrow> Some (if expired now (sw_suspect_timeout s) st then Dead (incarnation_of st) else st)
       | None \<Rightarrow> None)) \<and>
    (no_suspects s \<and> alive_members s \<noteq> [] \<and> length ts = length (alive_members s) \<and>
      unat (sw_probe_index s) + length ts < 2 ^ 64 \<longrightarrow>
      distinct (tick_targets ts s) \<and> set (tick_targets ts s) = set (alive_members s)) \<and>
    length (collect_gossip_msgs (adaptive_piggyback_count n) s) = min (member_count s) (adaptive_piggyback_count n) \<and>
    4 \<le> adaptive_piggyback_count n \<and> n \<le> 2 ^ adaptive_piggyback_count n"
proof (intro conjI impI allI)
  fix n
  have "sw_members (snd (protocol_tick now s)) = sw_members (expire_suspects now s)" by (simp add: protocol_tick_def Let_def)
  then show "map_of (sw_members (snd (protocol_tick now s))) n =
      (case map_of (sw_members s) n of
         Some st \<Rightarrow> Some (if expired now (sw_suspect_timeout s) st then Dead (incarnation_of st) else st)
       | None \<Rightarrow> None)" using expire_members[OF assms] by simp
next
  assume a: "no_suspects s \<and> alive_members s \<noteq> [] \<and> length ts = length (alive_members s) \<and>
      unat (sw_probe_index s) + length ts < 2 ^ 64"
  have "distinct (alive_members s)" using assms(1) by (simp add: alive_members_def distinct_map_filter)
  then show "distinct (tick_targets ts s)" "set (tick_targets ts s) = set (alive_members s)"
    using round_robin[of s ts] a by simp_all
qed (simp_all add: adaptive_piggyback_bounds collect_gossip_msgs_def member_count_def min.commute)

definition demo_swim :: swim where
  "demo_swim = (swim_new (NodeId [1]))\<lparr>sw_members := [(NodeId [2], Alive 0), (NodeId [3], Alive 4)]\<rparr>"

theorem protocol_tick_correct_witness:
  "set (tick_targets [0, 500] demo_swim) = {NodeId [2], NodeId [3]}"
proof -
  have "no_suspects demo_swim \<and> alive_members demo_swim \<noteq> [] \<and> length [0, 500] = length (alive_members demo_swim) \<and>
      unat (sw_probe_index demo_swim) + length [0, 500 :: nat] < 2 ^ 64"
    by (simp add: demo_swim_def swim_new_def no_suspects_def alive_members_def)
  moreover have "distinct (map fst (sw_members demo_swim))" "sw_local demo_swim \<notin> fst ` set (sw_members demo_swim)"
    by (simp_all add: demo_swim_def swim_new_def)
  ultimately have "set (tick_targets [0, 500] demo_swim) = set (alive_members demo_swim)"
    using protocol_tick_correct[of demo_swim 0 "[0, 500]" 2] by blast
  then show ?thesis by (simp add: demo_swim_def alive_members_def)
qed

end
