(* ===== verification/LinAlg.thy ===== *)
theory LinAlg
  imports GF256
begin

text \<open>
  Linear combinations of byte vectors over GF(2^8).  \<open>vec_comb\<close> is the accumulation loop that
  the encoder, the recoder and the tag combination share: start from zeros and apply
  \<open>gf_vec_mul_add\<close> once per vector.  The lemmas give its entries as sums in the field and its
  behaviour under a second combination, which is what recoding relies on.
\<close>

definition vec_comb :: "nat \<Rightarrow> bytes list \<Rightarrow> bytes \<Rightarrow> bytes" where
  "vec_comb n vs cs = foldl (\<lambda>acc (v, c). gf_vec_mul_add acc v c) (replicate n 0) (zip vs cs)"

definition all_len :: "nat \<Rightarrow> bytes list \<Rightarrow> bool" where
  "all_len n vs = list_all (\<lambda>v. length v = n) vs"

lemma all_len_Nil [simp]: "all_len n []"
  by (simp add: all_len_def)

lemma all_len_Cons [simp]: "all_len n (v # vs) \<longleftrightarrow> length v = n \<and> all_len n vs"
  by (simp add: all_len_def)

lemma all_len_nth: "all_len n vs \<Longrightarrow> i < length vs \<Longrightarrow> length (vs ! i) = n"
  by (simp add: all_len_def list_all_length)

lemma all_len_map: "all_len n (map f xs) \<longleftrightarrow> (\<forall>x \<in> set xs. length (f x) = n)"
  by (simp add: all_len_def list_all_iff)

lemma length_foldl_mul_add [simp]:
  "length (foldl (\<lambda>acc (v, c). gf_vec_mul_add acc v c) z vcs) = length z"
  by (induction vcs arbitrary: z) (simp_all add: case_prod_beta)

lemma length_vec_comb [simp]: "length (vec_comb n vs cs) = n"
  by (simp add: vec_comb_def)

lemma to_gf_foldl_mul_add:
  "length vs = length cs \<Longrightarrow> all_len (length z) vs \<Longrightarrow> j < length z \<Longrightarrow>
    to_gf (foldl (\<lambda>acc (v, c). gf_vec_mul_add acc v c) z (zip vs cs) ! j) =
    to_gf (z ! j) + (\<Sum>i<length cs. to_gf (cs ! i) * to_gf (vs ! i ! j))"
proof (induction vs cs arbitrary: z rule: list_induct2)
  case Nil
  then show ?case by simp
next
  case (Cons v vs c cs)
  then show ?case
    by (simp add: sum.lessThan_Suc_shift to_gf_vec_mul_add_nth add.assoc del: sum.lessThan_Suc)
qed

lemma to_gf_vec_comb:
  "length vs = length cs \<Longrightarrow> all_len n vs \<Longrightarrow> j < n \<Longrightarrow>
   to_gf (vec_comb n vs cs ! j) = (\<Sum>i<length cs. to_gf (cs ! i) * to_gf (vs ! i ! j))"
  unfolding vec_comb_def by (subst to_gf_foldl_mul_add) (simp_all add: to_gf_hom)

lemma vec_comb_eqI:
  assumes "length vs = length cs" "all_len n vs" "length x = n"
    and "\<And>j. j < n \<Longrightarrow> to_gf (x ! j) = (\<Sum>i<length cs. to_gf (cs ! i) * to_gf (vs ! i ! j))"
  shows "x = vec_comb n vs cs"
proof (rule nth_equalityI)
  show "x ! j = vec_comb n vs cs ! j" if "j < length x" for j
    using that assms by (intro to_gf_eqI) (simp add: to_gf_vec_comb)
qed (simp add: assms)

text \<open>
  A combination of combinations is the combination whose coefficients are combined the same
  way: the algebra behind recoding.
\<close>

lemma vec_comb_vec_comb:
  assumes cs: "all_len (length ss) css" "length css = length ws" and ss: "all_len n ss"
  shows "vec_comb n (map (vec_comb n ss) css) ws = vec_comb n ss (vec_comb (length ss) css ws)"
proof (rule vec_comb_eqI)
  fix j
  assume j: "j < n"
  let ?k = "length ss" and ?m = "length ws"
  have "to_gf (vec_comb n (map (vec_comb n ss) css) ws ! j) =
      (\<Sum>a<?m. to_gf (ws ! a) * to_gf (map (vec_comb n ss) css ! a ! j))"
    using cs j by (subst to_gf_vec_comb) (auto simp: all_len_map)
  also have "\<dots> = (\<Sum>a<?m. to_gf (ws ! a) * (\<Sum>i<?k. to_gf (css ! a ! i) * to_gf (ss ! i ! j)))"
    using cs ss j by (intro sum.cong) (simp_all add: to_gf_vec_comb all_len_nth)
  also have "\<dots> = (\<Sum>i<?k. (\<Sum>a<?m. to_gf (ws ! a) * to_gf (css ! a ! i)) * to_gf (ss ! i ! j))"
    by (simp add: sum_distrib_left sum_distrib_right mult.assoc) (rule sum.swap)
  also have "\<dots> = (\<Sum>i<?k. to_gf (vec_comb ?k css ws ! i) * to_gf (ss ! i ! j))"
    using cs by (intro sum.cong) (simp_all add: to_gf_vec_comb)
  finally show "to_gf (vec_comb n (map (vec_comb n ss) css) ws ! j) =
      (\<Sum>i<length (vec_comb ?k css ws). to_gf (vec_comb ?k css ws ! i) * to_gf (ss ! i ! j))" by simp
qed (simp_all add: ss)

end
