(* ===== verification/HomMac.thy ===== *)
theory HomMac
  imports Types LinAlg
begin

text \<open>
  The homomorphic message authentication code of \<open>craftec-crypto/src/hommac.rs\<close>: tag
  computation, verification, and the combination of tags that recoding uses.  The theory shows
  that the tag is linear, that the combined tag is the tag of the combined piece, and that the
  copy of the computation in \<open>piece.rs\<close> accepts exactly the same tags.
\<close>

section \<open>Definitions\<close>

datatype hom_mac_key = HomMacKey (key_bytes: bytes)

text \<open>\<open>OsRng.fill_bytes\<close> is the parameter \<open>fill\<close>: entropy and a length to bytes.\<close>

definition hom_mac_key_generate :: "('r \<Rightarrow> nat \<Rightarrow> bytes) \<Rightarrow> 'r \<Rightarrow> hom_mac_key" where
  "hom_mac_key_generate fill r = HomMacKey (fill r 32)"

definition gf256_mul :: "u8 \<Rightarrow> u8 \<Rightarrow> u8" where
  "gf256_mul a b = gf256_mul_loop 8 0 a b"

definition compute_tag :: "blake3 \<Rightarrow> hom_mac_key \<Rightarrow> bytes \<Rightarrow> bytes \<Rightarrow> bytes" where
  "compute_tag B key cv d =
     map (\<lambda>j. mac_byte gf256_mul (b3_xof B (key_bytes key @ [of_nat j])) cv d) [0..<32]"

definition verify_tag :: "blake3 \<Rightarrow> hom_mac_key \<Rightarrow> bytes \<Rightarrow> bytes \<Rightarrow> bytes \<Rightarrow> bool" where
  "verify_tag B key cv d tag = (compute_tag B key cv d = tag)"

definition combine_tags :: "hom_mac_key \<Rightarrow> bytes list \<Rightarrow> bytes \<Rightarrow> bytes" where
  "combine_tags key tags coefficients =
     foldl (\<lambda>combined (tag, coeff). zip_with_keep (\<lambda>acc t. acc XOR gf256_mul coeff t) combined tag)
       (replicate 32 0) (zip tags coefficients)"

section \<open>Linearity\<close>

interpretation hom_mul: byte_product gf256_mul
  by unfold_locales (simp add: gf256_mul_def gf256_mul_loop_pmul times_gf256.abs_eq eq_onp_same_args)

lemma length_compute_tag [simp]: "length (compute_tag B key cv d) = 32"
  by (simp add: compute_tag_def)

lemma to_gf_compute_tag:
  "j < 32 \<Longrightarrow> to_gf (compute_tag B key cv d ! j) = dotg (b3_xof B (key_bytes key @ [of_nat j])) 0 (cv @ d)"
  by (simp add: compute_tag_def hom_mul.to_gf_mac_byte)

lemma combine_tags_vec_comb: "combine_tags key tags cs = vec_comb 32 tags cs"
  by (simp add: combine_tags_def vec_comb_def gf_vec_mul_add_eq hom_mul.mul_eq_gf_mul)

lemma dotg_vec_comb:
  assumes "length vs = length cs" "all_len n vs"
  shows "dotg s pos (vec_comb n vs cs) = (\<Sum>a<length cs. to_gf (cs ! a) * dotg s pos (vs ! a))"
proof -
  have "dotg s pos (vec_comb n vs cs) =
      (\<Sum>i<n. to_gf (s (pos + i)) * (\<Sum>a<length cs. to_gf (cs ! a) * to_gf (vs ! a ! i)))"
    unfolding dotg_def using assms by (intro sum.cong) (simp_all add: to_gf_vec_comb)
  also have "\<dots> = (\<Sum>a<length cs. \<Sum>i<n. to_gf (cs ! a) * (to_gf (s (pos + i)) * to_gf (vs ! a ! i)))"
    by (simp add: sum_distrib_left mult.left_commute) (rule sum.swap)
  also have "\<dots> = (\<Sum>a<length cs. to_gf (cs ! a) * dotg s pos (vs ! a))"
    using assms by (intro sum.cong) (simp_all add: dotg_def sum_distrib_left all_len_nth)
  finally show ?thesis .
qed

lemma combine_tags_compute_tag:
  assumes "length cvs = length ws" "length ds = length ws" "all_len k cvs" "all_len n ds"
  shows "combine_tags key (map2 (compute_tag B key) cvs ds) ws =
    compute_tag B key (vec_comb k cvs ws) (vec_comb n ds ws)" (is "_ = ?r")
proof -
  have "?r = vec_comb 32 (map2 (compute_tag B key) cvs ds) ws"
  proof (rule vec_comb_eqI)
    fix j :: nat
    assume j: "j < 32"
    let ?s = "b3_xof B (key_bytes key @ [of_nat j])"
    have "to_gf (?r ! j) = (\<Sum>a<length ws. to_gf (ws ! a) * (dotg ?s 0 (cvs ! a) + dotg ?s k (ds ! a)))"
      using assms j by (simp add: to_gf_compute_tag dotg_append dotg_vec_comb distrib_left sum.distrib)
    also have "\<dots> = (\<Sum>a<length ws. to_gf (ws ! a) * to_gf (map2 (compute_tag B key) cvs ds ! a ! j))"
      using assms j by (intro sum.cong) (simp_all add: to_gf_compute_tag dotg_append all_len_nth)
    finally show "to_gf (?r ! j) = (\<Sum>a<length ws. to_gf (ws ! a) * to_gf (map2 (compute_tag B key) cvs ds ! a ! j))" .
  qed (use assms in \<open>auto simp: all_len_map\<close>)
  then show ?thesis by (simp add: combine_tags_vec_comb)
qed

lemma verify_mac_verify_tag:
  "verify_mac B p = verify_tag B (HomMacKey (cid_bytes (cid p))) (coding_vector p) (data p) (hommac_tag p)"
  by (simp add: verify_mac_def verify_tag_def compute_tag_def hom_mul.mul_eq_gf_mul
      piece_mul.mul_eq_gf_mul)

section \<open>Properties\<close>

text \<open>
  C3. Homomorphism of the tag: combining the tags of any number of pieces (with equal coding
  vector and data lengths) with coefficients \<open>ws\<close> gives the tag of the piece whose coding vector
  and data are combined with the same coefficients.
\<close>

theorem combine_tags_homomorphic:
  assumes "length cvs = length ws" "length ds = length ws" "all_len k cvs" "all_len n ds"
  shows "verify_tag B key (vec_comb k cvs ws) (vec_comb n ds ws)
           (combine_tags key (map2 (compute_tag B key) cvs ds) ws)"
  using combine_tags_compute_tag[OF assms] by (simp add: verify_tag_def)

theorem combine_tags_homomorphic_witness:
  "verify_tag \<lparr>b3_hash = \<lambda>x. replicate 32 0, b3_xof = \<lambda>x i. of_nat i\<rparr> (HomMacKey [1])
     (vec_comb 2 [[1, 0], [0, 1]] [3, 5]) (vec_comb 1 [[7], [9]] [3, 5])
     (combine_tags (HomMacKey [1])
        (map2 (compute_tag \<lparr>b3_hash = \<lambda>x. replicate 32 0, b3_xof = \<lambda>x i. of_nat i\<rparr> (HomMacKey [1]))
           [[1, 0], [0, 1]] [[7], [9]]) [3, 5])"
  by (rule combine_tags_homomorphic) simp_all

text \<open>
  The integrity check duplicated in \<open>CodedPiece::verify_mac\<close> and the one in
  \<open>hommac::verify_tag\<close> agree on every piece, with the content identifier as the key.  The key is
  thereby public: any coding vector and any data have a tag that both checks accept, computed
  from the identifier alone.
\<close>

theorem verify_mac_public_key:
  "verify_mac B p = verify_tag B (HomMacKey (cid_bytes (cid p))) (coding_vector p) (data p) (hommac_tag p) \<and>
   verify_mac B (coded_piece_new B c cv d (compute_tag B (HomMacKey (cid_bytes c)) cv d)) \<and>
   verify_piece_id B (coded_piece_new B c cv d (compute_tag B (HomMacKey (cid_bytes c)) cv d))"
  by (simp add: verify_mac_verify_tag) (simp add: verify_tag_def)

end
