(* ===== verification/Rlnc_Encoder.thy ===== *)
theory Rlnc_Encoder
  imports HomMac
begin

text \<open>
  The encoder of \<open>craftec-rlnc/src/encoder.rs\<close> and the error type of \<open>error.rs\<close>.  The random
  number generator of the \<open>rand\<close> crate is a parameter: a record of its two draw operations over
  an arbitrary state type.  The generation size \<open>k\<close> and the lengths are natural numbers: the
  products \<open>i * piece_size\<close> of the source stay below \<open>total + k\<close>, far from the 64-bit bound.
\<close>

section \<open>Errors\<close>

text \<open>The two messages of \<open>DecodeFailed\<close> are kept as data instead of formatted text.\<close>

datatype decode_failure = PivotSlotEmpty nat | PivotNotOne nat u8

datatype rlnc_error =
    InsufficientPieces nat nat
  | LinearlyDependent
  | DecodeFailed decode_failure
  | InvalidPieceSize nat nat
  | SemaphoreError
  | CodingVectorLengthMismatch nat nat
  | InsufficientRecodeInputs nat
  | MismatchedCids

section \<open>The random number generator\<close>

record 'g rng_api =
  rng_gen :: "'g \<Rightarrow> u8 \<times> 'g"
  rng_range :: "u8 \<Rightarrow> u8 \<Rightarrow> 'g \<Rightarrow> u8 \<times> 'g"

text \<open>\<open>gen_range(lo..=hi)\<close> returns a value of the range.\<close>

definition rng_ok :: "'g rng_api \<Rightarrow> bool" where
  "rng_ok R \<longleftrightarrow> (\<forall>lo hi g. lo \<le> hi \<longrightarrow> lo \<le> fst (rng_range R lo hi g) \<and> fst (rng_range R lo hi g) \<le> hi)"

definition draw_nonzero :: "'g rng_api \<Rightarrow> 'g \<Rightarrow> u8 \<times> 'g" where
  "draw_nonzero R g = (let (c, g1) = rng_gen R g in if c = 0 then rng_range R 1 255 g1 else (c, g1))"

fun draw_vec :: "'g rng_api \<Rightarrow> nat \<Rightarrow> 'g \<Rightarrow> bytes \<times> 'g" where
  "draw_vec R 0 g = ([], g)"
| "draw_vec R (Suc n) g =
     (let (c, g1) = draw_nonzero R g; (cs, g2) = draw_vec R n g1 in (c # cs, g2))"

section \<open>The encoder\<close>

record rlnc_encoder =
  enc_k :: nat
  piece_size :: nat
  original_pieces :: "bytes list"
  enc_cid :: cid

definition div_ceil :: "nat \<Rightarrow> nat \<Rightarrow> nat" where
  "div_ceil a b = (if a mod b = 0 then a div b else a div b + 1)"

definition source_piece :: "bytes \<Rightarrow> nat \<Rightarrow> nat \<Rightarrow> bytes" where
  "source_piece d ps i =
     (let total = length d;
          start = i * ps;
          stop = min ((i + 1) * ps) total;
          piece = replicate ps 0
      in if start < total then slice start stop d @ drop (stop - start) piece else piece)"

definition encoder_new :: "blake3 \<Rightarrow> bytes \<Rightarrow> nat \<Rightarrow> (rlnc_encoder, rlnc_error) result" where
  "encoder_new B d k =
     (if k = 0 then Inl (InsufficientPieces 0 1)
      else let total = length d;
               ps = (if total = 0 then 1 else div_ceil total k)
           in Inr \<lparr>enc_k = k, piece_size = ps, original_pieces = map (source_piece d ps) [0..<k],
                   enc_cid = cid_from_data B d\<rparr>)"

definition encode_piece :: "blake3 \<Rightarrow> 'g rng_api \<Rightarrow> rlnc_encoder \<Rightarrow> 'g \<Rightarrow> coded_piece \<times> 'g" where
  "encode_piece B R e g =
     (let (cv, g') = draw_vec R (enc_k e) g;
          coded_data = foldl (\<lambda>acc (j, piece). gf_vec_mul_add acc piece (cv ! j))
                         (replicate (piece_size e) 0) (enumerate 0 (original_pieces e));
          hom_mac = compute_tag B (HomMacKey (cid_bytes (enc_cid e))) cv coded_data
      in (coded_piece_new B (enc_cid e) cv coded_data hom_mac, g'))"

fun encode_n :: "blake3 \<Rightarrow> 'g rng_api \<Rightarrow> rlnc_encoder \<Rightarrow> nat \<Rightarrow> 'g \<Rightarrow> coded_piece list \<times> 'g" where
  "encode_n B R e 0 g = ([], g)"
| "encode_n B R e (Suc n) g =
     (let (p, g1) = encode_piece B R e g; (ps, g2) = encode_n B R e n g1 in (p # ps, g2))"

section \<open>Splitting and padding\<close>

lemma div_ceil_mult: "0 < k \<Longrightarrow> n \<le> k * div_ceil n k"
proof -
  assume k: "0 < k"
  have "n = k * (n div k) + n mod k" "n mod k < k" using k by simp_all
  then have "n \<le> k * (n div k) + k" by linarith
  then show ?thesis unfolding div_ceil_def by (auto simp: add.commute)
qed

lemma source_piece_eq:
  "source_piece d ps i = take ps (drop (i * ps) d @ replicate (ps - (length d - i * ps)) 0)"
proof (cases "i * ps < length d")
  case True
  then show ?thesis
    by (auto simp: source_piece_def slice_def Let_def min_def algebra_simps)
next
  case False
  then show ?thesis by (simp add: source_piece_def)
qed

lemma length_source_piece [simp]: "length (source_piece d ps i) = ps"
  by (simp add: source_piece_eq)

lemma source_piece_padded:
  "(i + 1) * ps \<le> length (d @ replicate m 0) \<Longrightarrow>
   source_piece d ps i = take ps (drop (i * ps) (d @ replicate m 0))"
  unfolding source_piece_eq
  by (rule nth_equalityI) (auto simp: nth_append algebra_simps min_def)

lemma concat_take_drop:
  "k * ps \<le> length xs \<Longrightarrow> concat (map (\<lambda>i. take ps (drop (i * ps) xs)) [0..<k]) = take (k * ps) xs"
proof (induction k)
  case 0
  then show ?case by simp
next
  case (Suc k)
  then show ?case by (simp add: add.commute[of ps] take_add)
qed

lemma concat_source_pieces:
  assumes "length d \<le> k * ps"
  shows "concat (map (source_piece d ps) [0..<k]) = d @ replicate (k * ps - length d) 0"
proof -
  let ?x = "d @ replicate (k * ps - length d) 0"
  have "map (source_piece d ps) [0..<k] = map (\<lambda>i. take ps (drop (i * ps) ?x)) [0..<k]"
  proof (rule map_cong)
    fix i
    assume "i \<in> set [0..<k]"
    then have "(i + 1) * ps \<le> k * ps" by (intro mult_right_mono) auto
    then show "source_piece d ps i = take ps (drop (i * ps) ?x)"
      using assms by (intro source_piece_padded) simp
  qed simp
  then have "concat (map (source_piece d ps) [0..<k]) = take (k * ps) ?x"
    using assms concat_take_drop[of k ps ?x] by (simp only: length_append length_replicate)
  then show ?thesis using assms by simp
qed

section \<open>What an encoder and its pieces satisfy\<close>

definition encoder_wf :: "rlnc_encoder \<Rightarrow> bool" where
  "encoder_wf e \<longleftrightarrow> 0 < enc_k e \<and> 0 < piece_size e \<and> length (original_pieces e) = enc_k e \<and>
     all_len (piece_size e) (original_pieces e)"

lemma encoder_new_cases:
  assumes "encoder_new B d k = Inr e"
  shows "encoder_wf e" "enc_k e = k" "enc_cid e = cid_from_data B d"
    "concat (original_pieces e) = d @ replicate (k * piece_size e - length d) 0"
    "length d \<le> k * piece_size e"
proof -
  have k: "0 < k" using assms by (auto simp: encoder_new_def split: if_splits)
  have le: "length d \<le> k * (if length d = 0 then 1 else div_ceil (length d) k)"
    using div_ceil_mult[OF k] by simp
  have pos: "0 < div_ceil (length d) k" if "d \<noteq> []"
    using that div_ceil_mult[OF k, of "length d"] by (cases "div_ceil (length d) k") auto
  have e: "e = \<lparr>enc_k = k, piece_size = (if length d = 0 then 1 else div_ceil (length d) k),
      original_pieces = map (source_piece d (if length d = 0 then 1 else div_ceil (length d) k)) [0..<k],
      enc_cid = cid_from_data B d\<rparr>"
    using assms k by (simp add: encoder_new_def Let_def)
  show "encoder_wf e" "enc_k e = k" "enc_cid e = cid_from_data B d"
    using pos k by (auto simp: e encoder_wf_def all_len_map)
  show "concat (original_pieces e) = d @ replicate (k * piece_size e - length d) 0"
    "length d \<le> k * piece_size e"
    using concat_source_pieces[OF le] le by (simp_all add: e)
qed

lemma draw_nonzero_neq: "rng_ok R \<Longrightarrow> fst (draw_nonzero R g) \<noteq> 0"
proof -
  assume R: "rng_ok R"
  obtain c g1 where g: "rng_gen R g = (c, g1)" by (cases "rng_gen R g")
  have "1 \<le> fst (rng_range R 1 255 g1)" using R unfolding rng_ok_def by simp
  then have "fst (rng_range R 1 255 g1) \<noteq> 0" by auto
  with g show ?thesis by (simp add: draw_nonzero_def)
qed

lemma draw_vec_facts:
  "length (fst (draw_vec R n g)) = n" "rng_ok R \<Longrightarrow> 0 \<notin> set (fst (draw_vec R n g))"
  by (induction n arbitrary: g)
     (auto simp: case_prod_beta Let_def dest: draw_nonzero_neq)

lemma foldl_enumerate_zip:
  "length ps + m \<le> length cv \<Longrightarrow>
   foldl (\<lambda>acc (j, piece). f acc piece (cv ! j)) z (enumerate m ps) =
   foldl (\<lambda>acc (v, c). f acc v c) z (zip ps (drop m cv))"
proof (induction ps arbitrary: m z)
  case Nil
  then show ?case by simp
next
  case (Cons p ps)
  then have "drop m cv = cv ! m # drop (Suc m) cv" by (simp add: Cons_nth_drop_Suc)
  with Cons show ?case by simp
qed

lemma encode_piece_eq:
  assumes "encoder_wf e" "draw_vec R (enc_k e) g = (cv, g')"
  shows "encode_piece B R e g =
    (coded_piece_new B (enc_cid e) cv (vec_comb (piece_size e) (original_pieces e) cv)
       (compute_tag B (HomMacKey (cid_bytes (enc_cid e))) cv (vec_comb (piece_size e) (original_pieces e) cv)), g')"
proof -
  have "length cv = enc_k e" using draw_vec_facts(1)[of R "enc_k e" g] assms(2) by simp
  then show ?thesis using assms foldl_enumerate_zip[of "original_pieces e" 0 cv gf_vec_mul_add]
    by (simp add: encode_piece_def encoder_wf_def vec_comb_def Let_def)
qed

text \<open>
  A valid piece of a generation with sources \<open>S\<close>: the data is the combination of the sources
  with the coefficients of the coding vector, and the identifier and the tag check out.
\<close>

definition valid_piece :: "blake3 \<Rightarrow> cid \<Rightarrow> nat \<Rightarrow> bytes list \<Rightarrow> coded_piece \<Rightarrow> bool" where
  "valid_piece B c n S p \<longleftrightarrow> cid p = c \<and> length (coding_vector p) = length S \<and>
     data p = vec_comb n S (coding_vector p) \<and> verify_piece_id B p \<and> verify_mac B p"

lemma encode_piece_valid:
  assumes "encoder_wf e"
  shows "valid_piece B (enc_cid e) (piece_size e) (original_pieces e) (fst (encode_piece B R e g))"
proof -
  obtain cv g' where g: "draw_vec R (enc_k e) g = (cv, g')" by (cases "draw_vec R (enc_k e) g")
  then have "length cv = length (original_pieces e)"
    using draw_vec_facts(1)[of R "enc_k e" g] assms by (simp add: encoder_wf_def)
  then show ?thesis
    by (simp add: encode_piece_eq[OF assms g] valid_piece_def verify_mac_verify_tag)
       (simp add: verify_tag_def)
qed

lemma encode_n_valid:
  assumes "encoder_wf e"
  shows "length (fst (encode_n B R e n g)) = n \<and>
    list_all (valid_piece B (enc_cid e) (piece_size e) (original_pieces e)) (fst (encode_n B R e n g))"
proof (induction n arbitrary: g)
  case 0
  then show ?case by simp
next
  case (Suc n)
  then show ?case using encode_piece_valid[OF assms] by (simp add: case_prod_beta Let_def)
qed

section \<open>Properties\<close>

text \<open>
  Splitting loses nothing: for every blob and every generation size above zero the encoder
  exists, has exactly \<open>k\<close> source pieces of the same positive size, and their concatenation is the
  blob followed by zeros, so that cutting it to the length of the blob restores the blob.  For
  generation size zero the constructor returns \<open>InsufficientPieces\<close>.
\<close>

theorem encoder_new_correct:
  "case encoder_new B d k of
     Inl err \<Rightarrow> k = 0 \<and> err = InsufficientPieces 0 1
   | Inr e \<Rightarrow> 0 < k \<and> encoder_wf e \<and> enc_k e = k \<and> enc_cid e = cid_from_data B d \<and>
       concat (original_pieces e) = d @ replicate (k * piece_size e - length d) 0 \<and>
       take (length d) (concat (original_pieces e)) = d"
proof (cases "encoder_new B d k")
  case (Inl err)
  then show ?thesis by (auto simp: encoder_new_def Let_def split: if_splits)
next
  case (Inr e)
  have "0 < k" using Inr by (auto simp: encoder_new_def split: if_splits)
  with Inr encoder_new_cases[OF Inr] show ?thesis by simp
qed

text \<open>
  Every piece of \<open>encode_n\<close> is valid for the generation: it carries the identifier of the
  blob, its coding vector has one coefficient per source piece and none of them is zero, its
  data is the linear combination of the sources with these coefficients, and both
  \<open>verify_piece_id\<close> and \<open>verify_mac\<close> accept it.  Exactly \<open>n\<close> pieces are produced.
\<close>

theorem encode_n_correct:
  assumes "encoder_new B d k = Inr e" "rng_ok R"
  shows "length (fst (encode_n B R e n g)) = n \<and>
    (\<forall>p \<in> set (fst (encode_n B R e n g)).
       valid_piece B (cid_from_data B d) (piece_size e) (original_pieces e) p \<and> 0 \<notin> set (coding_vector p))"
proof -
  note e = encoder_new_cases[OF assms(1)]
  have nz: "0 \<notin> set (coding_vector (fst (encode_piece B R e g)))" for g
    using draw_vec_facts(2)[OF assms(2), of "enc_k e" g]
    by (cases "draw_vec R (enc_k e) g") (simp add: encode_piece_eq[OF e(1)])
  have "\<forall>p \<in> set (fst (encode_n B R e n g)). 0 \<notin> set (coding_vector p)" for n g
    by (induction n arbitrary: g) (auto simp: case_prod_beta Let_def nz)
  with encode_n_valid[OF e(1), of B R n g] e(3) show ?thesis by (auto simp: list_all_iff)
qed

theorem encode_n_correct_witness:
  "\<exists>e. encoder_new \<lparr>b3_hash = \<lambda>x. replicate 32 0, b3_xof = \<lambda>x i. 0\<rparr> [1, 2, 3] 2 = Inr e \<and>
     rng_ok \<lparr>rng_gen = \<lambda>g::nat. (of_nat g, Suc g), rng_range = \<lambda>lo hi g. (lo, g)\<rparr> \<and>
     length (fst (encode_n \<lparr>b3_hash = \<lambda>x. replicate 32 0, b3_xof = \<lambda>x i. 0\<rparr>
       \<lparr>rng_gen = \<lambda>g::nat. (of_nat g, Suc g), rng_range = \<lambda>lo hi g. (lo, g)\<rparr> e 3 0)) = 3"
proof -
  let ?B = "\<lparr>b3_hash = \<lambda>x. replicate 32 0, b3_xof = \<lambda>x i. 0\<rparr>"
  obtain e where e: "encoder_new ?B [1, 2, 3] 2 = Inr e"
    by (cases "encoder_new ?B [1, 2, 3] 2") (auto simp: encoder_new_def Let_def)
  have r: "rng_ok \<lparr>rng_gen = \<lambda>g::nat. (of_nat g, Suc g), rng_range = \<lambda>lo hi g. (lo, g)\<rparr>"
    by (simp add: rng_ok_def)
  from encode_n_correct[OF e r, of 3 0] e r show ?thesis by blast
qed

end
