(* ===== verification/Rlnc_Decoder.thy ===== *)
theory Rlnc_Decoder
  imports Rlnc_Encoder
begin

text \<open>
  The progressive decoder of \<open>craftec-rlnc/src/decoder.rs\<close>: partial Gaussian elimination when a
  piece arrives, back-substitution when the rank is full.  The theory gives the invariant of the
  matrix, its preservation by every operation, soundness of decoding (the result is the source
  data) and completeness of \<open>add_piece\<close> (a piece is accepted exactly when it is linearly
  independent of the rows held).
\<close>

section \<open>Definitions\<close>

record rlnc_decoder =
  dec_k :: nat
  dec_piece_size :: nat
  matrix :: "bytes list"
  pivot_col :: "nat option list"
  rank :: nat
  decoded :: bool

definition decoder_new :: "nat \<Rightarrow> nat \<Rightarrow> rlnc_decoder" where
  "decoder_new k ps =
     \<lparr>dec_k = k, dec_piece_size = ps, matrix = replicate k [], pivot_col = replicate k None,
      rank = 0, decoded = False\<rparr>"

definition is_decodable :: "rlnc_decoder \<Rightarrow> bool" where
  "is_decodable D \<longleftrightarrow> rank D = dec_k D"

text \<open>One step of the reduction loop: cancel the pivot column of row slot \<open>r\<close>.\<close>

definition reduce_step :: "rlnc_decoder \<Rightarrow> bytes \<Rightarrow> nat \<Rightarrow> bytes" where
  "reduce_step D row r =
     (case pivot_col D ! r of
        None \<Rightarrow> row
      | Some col \<Rightarrow>
          let coeff = row ! col
          in if coeff = 0 then row
             else let pivot_row = matrix D ! r in gf_vec_mul_add row pivot_row coeff)"

definition reduce_row :: "rlnc_decoder \<Rightarrow> bytes \<Rightarrow> bytes" where
  "reduce_row D row = foldl (reduce_step D) row [0..<dec_k D]"

definition add_piece :: "rlnc_decoder \<Rightarrow> coded_piece \<Rightarrow> (bool, rlnc_error) result \<times> rlnc_decoder" where
  "add_piece D p =
     (let k = dec_k D in
      if length (coding_vector p) \<noteq> k
      then (Inl (CodingVectorLengthMismatch k (length (coding_vector p))), D)
      else if length (data p) \<noteq> dec_piece_size D
      then (Inl (InvalidPieceSize (dec_piece_size D) (length (data p))), D)
      else let row = reduce_row D (coding_vector p @ data p)
           in case position (\<lambda>b. b \<noteq> 0) (take k row) of
                None \<Rightarrow> (Inr False, D)
              | Some col \<Rightarrow>
                  let inv = gf_inv (row ! col);
                      row' = map (\<lambda>b. gf_mul b inv) row
                  in (Inr True, D\<lparr>matrix := (matrix D)[col := row'],
                                  pivot_col := (pivot_col D)[col := Some col],
                                  rank := rank D + 1\<rparr>))"

definition elim_row :: "nat \<Rightarrow> bytes list \<Rightarrow> nat \<Rightarrow> bytes list" where
  "elim_row col M r =
     (let coeff = M ! r ! col
      in if coeff = 0 then M
         else let pivot_row = M ! col in M[r := gf_vec_mul_add (M ! r) pivot_row coeff])"

definition elim_col :: "bytes list \<Rightarrow> nat \<Rightarrow> bytes list" where
  "elim_col M col = foldl (elim_row col) M [0..<col]"

definition back_substitute :: "nat \<Rightarrow> bytes list \<Rightarrow> bytes list" where
  "back_substitute k M = foldl elim_col M (rev [0..<k])"

fun extract_rows :: "nat \<Rightarrow> bytes list \<Rightarrow> nat list \<Rightarrow> (bytes, rlnc_error) result" where
  "extract_rows k M [] = Inr []"
| "extract_rows k M (col # cols) =
     (if M ! col ! col \<noteq> 1 then Inl (DecodeFailed (PivotNotOne col (M ! col ! col)))
      else case extract_rows k M cols of
             Inl e \<Rightarrow> Inl e
           | Inr rest \<Rightarrow> Inr (drop k (M ! col) @ rest))"

definition decode :: "rlnc_decoder \<Rightarrow> (bytes, rlnc_error) result \<times> rlnc_decoder" where
  "decode D =
     (let k = dec_k D in
      if rank D < k then (Inl (InsufficientPieces (rank D) k), D)
      else case List.find (\<lambda>col. pivot_col D ! col = None \<or> matrix D ! col = []) [0..<k] of
             Some col \<Rightarrow> (Inl (DecodeFailed (PivotSlotEmpty col)), D)
           | None \<Rightarrow>
               let M = back_substitute k (matrix D); D' = D\<lparr>matrix := M\<rparr>
               in case extract_rows k M [0..<k] of
                    Inl e \<Rightarrow> (Inl e, D')
                  | Inr out \<Rightarrow> (Inr out, D'\<lparr>decoded := True\<rparr>))"

section \<open>The invariant\<close>

text \<open>The filled slots, and the matrix entries as field elements.\<close>

definition filled :: "rlnc_decoder \<Rightarrow> nat set" where
  "filled D = {r. r < dec_k D \<and> pivot_col D ! r \<noteq> None}"

definition entry :: "bytes list \<Rightarrow> nat \<Rightarrow> nat \<Rightarrow> gf256" where
  "entry M r j = to_gf (M ! r ! j)"

definition slot_wf :: "rlnc_decoder \<Rightarrow> nat \<Rightarrow> bool" where
  "slot_wf D r \<longleftrightarrow>
     (case pivot_col D ! r of
        None \<Rightarrow> matrix D ! r = []
      | Some c \<Rightarrow> c = r \<and> length (matrix D ! r) = dec_k D + dec_piece_size D \<and>
          matrix D ! r ! r = 1 \<and> (\<forall>j < r. matrix D ! r ! j = 0))"

definition decoder_wf :: "rlnc_decoder \<Rightarrow> bool" where
  "decoder_wf D \<longleftrightarrow> length (matrix D) = dec_k D \<and> length (pivot_col D) = dec_k D \<and>
     (\<forall>r < dec_k D. slot_wf D r) \<and> rank D = card (filled D)"

lemma finite_filled [simp]: "finite (filled D)"
  by (simp add: filled_def)

lemma filledD:
  assumes "decoder_wf D" "r \<in> filled D"
  shows "r < dec_k D" "pivot_col D ! r = Some r" "length (matrix D ! r) = dec_k D + dec_piece_size D"
    "entry (matrix D) r r = 1" "j < r \<Longrightarrow> entry (matrix D) r j = 0"
proof -
  have r: "r < dec_k D" "pivot_col D ! r \<noteq> None" using assms by (auto simp: filled_def)
  with assms(1) have s: "slot_wf D r" by (simp add: decoder_wf_def)
  from r s show "r < dec_k D" "pivot_col D ! r = Some r"
    "length (matrix D ! r) = dec_k D + dec_piece_size D" "entry (matrix D) r r = 1"
    "j < r \<Longrightarrow> entry (matrix D) r j = 0"
    by (auto simp: slot_wf_def entry_def to_gf_hom split: option.splits)
qed

lemma decoder_new_wf: "decoder_wf (decoder_new k ps)"
  by (simp add: decoder_new_def decoder_wf_def slot_wf_def filled_def)

lemma decoder_new_simps [simp]:
  "dec_k (decoder_new k n) = k" "dec_piece_size (decoder_new k n) = n" "rank (decoder_new k n) = 0"
  "filled (decoder_new k n) = {}"
  by (auto simp: decoder_new_def filled_def)

section \<open>Reduction of a row\<close>

definition row_len :: "rlnc_decoder \<Rightarrow> nat" where
  "row_len D = dec_k D + dec_piece_size D"

lemma reduce_step_wf:
  assumes "decoder_wf D" "r < dec_k D" "length row = row_len D"
  shows "length (reduce_step D row r) = row_len D"
    "j < row_len D \<Longrightarrow> to_gf (reduce_step D row r ! j) =
       to_gf (row ! j) + (if r \<in> filled D then to_gf (row ! r) * entry (matrix D) r j else 0)"
proof -
  have "length (reduce_step D row r) = row_len D \<and> (j < row_len D \<longrightarrow> to_gf (reduce_step D row r ! j) =
       to_gf (row ! j) + (if r \<in> filled D then to_gf (row ! r) * entry (matrix D) r j else 0))"
  proof (cases "r \<in> filled D")
    case True
    note r = filledD[OF assms(1) True]
    show ?thesis using True r(2,3) assms(3)
      by (simp add: reduce_step_def Let_def to_gf_vec_mul_add_nth entry_def row_len_def to_gf_hom)
  next
    case False
    then show ?thesis using assms by (simp add: reduce_step_def filled_def)
  qed
  then show "length (reduce_step D row r) = row_len D"
    "j < row_len D \<Longrightarrow> to_gf (reduce_step D row r ! j) =
       to_gf (row ! j) + (if r \<in> filled D then to_gf (row ! r) * entry (matrix D) r j else 0)" by auto
qed

text \<open>
  After the first \<open>n\<close> steps the row has changed by a combination of filled rows, and its pivot
  columns below \<open>n\<close> are zero.
\<close>

lemma reduce_prefix:
  assumes "decoder_wf D" "length row = row_len D"
  shows "n \<le> dec_k D \<Longrightarrow> length (foldl (reduce_step D) row [0..<n]) = row_len D \<and>
    (\<exists>b. \<forall>j < row_len D. to_gf (foldl (reduce_step D) row [0..<n] ! j) =
       to_gf (row ! j) + (\<Sum>r \<in> filled D. b r * entry (matrix D) r j)) \<and>
    (\<forall>r \<in> filled D. r < n \<longrightarrow> foldl (reduce_step D) row [0..<n] ! r = 0)"
proof (induction n)
  case 0
  show ?case using assms by (auto intro!: exI[of _ "\<lambda>_. 0"])
next
  case (Suc n)
  let ?x = "foldl (reduce_step D) row [0..<n]" and ?y = "foldl (reduce_step D) row [0..<Suc n]"
  have y: "?y = reduce_step D ?x n" by simp
  from Suc obtain b where len: "length ?x = row_len D" and
    b: "\<And>j. j < row_len D \<Longrightarrow> to_gf (?x ! j) = to_gf (row ! j) + (\<Sum>r \<in> filled D. b r * entry (matrix D) r j)" and
    z: "\<And>r. r \<in> filled D \<Longrightarrow> r < n \<Longrightarrow> ?x ! r = 0" by auto
  have n: "n < dec_k D" using Suc.prems by simp
  note st = reduce_step_wf[OF assms(1) n len]
  have pz: "?y ! r = 0" if "r \<in> filled D" "r < Suc n" for r
  proof -
    have rl: "r < row_len D" using filledD(1)[OF assms(1) that(1)] by (simp add: row_len_def)
    have "to_gf (?y ! r) = 0"
      unfolding y st(2)[OF rl] using that z[of r] filledD(4,5)[OF assms(1)]
      by (cases "r = n") (auto simp: to_gf_hom)
    then show ?thesis by simp
  qed
  have "\<exists>b'. \<forall>j < row_len D. to_gf (?y ! j) = to_gf (row ! j) + (\<Sum>r \<in> filled D. b' r * entry (matrix D) r j)"
  proof (intro exI allI impI)
    fix j
    assume j: "j < row_len D"
    let ?b = "\<lambda>r. b r + (if r = n then to_gf (?x ! n) else 0)"
    have "(\<Sum>r \<in> filled D. ?b r * entry (matrix D) r j) =
        (\<Sum>r \<in> filled D. b r * entry (matrix D) r j) +
        (\<Sum>r \<in> filled D. if r = n then to_gf (?x ! n) * entry (matrix D) n j else 0)"
      unfolding sum.distrib [symmetric] by (rule sum.cong) (auto simp: distrib_right)
    then show "to_gf (?y ! j) = to_gf (row ! j) + (\<Sum>r \<in> filled D. ?b r * entry (matrix D) r j)"
      unfolding y st(2)[OF j] b[OF j] by (simp add: add.assoc)
  qed
  then show ?case using st(1) pz y by auto
qed

lemma reduce_row_facts:
  assumes "decoder_wf D" "length row = row_len D"
  shows "length (reduce_row D row) = row_len D"
    "\<exists>b. \<forall>j < row_len D. to_gf (reduce_row D row ! j) =
       to_gf (row ! j) + (\<Sum>r \<in> filled D. b r * entry (matrix D) r j)"
    "r \<in> filled D \<Longrightarrow> reduce_row D row ! r = 0"
  using reduce_prefix[OF assms, of "dec_k D"] filledD(1)[OF assms(1)] by (auto simp: reduce_row_def)

section \<open>Spans\<close>

text \<open>\<open>gspan n I F v\<close>: on the first \<open>n\<close> coordinates \<open>v\<close> is a combination of the family \<open>F\<close> over \<open>I\<close>.\<close>

definition gspan :: "nat \<Rightarrow> nat set \<Rightarrow> (nat \<Rightarrow> nat \<Rightarrow> gf256) \<Rightarrow> (nat \<Rightarrow> gf256) \<Rightarrow> bool" where
  "gspan n I F v \<longleftrightarrow> (\<exists>a. \<forall>j < n. v j = (\<Sum>i \<in> I. a i * F i j))"

lemma gspan_add: "gspan n I F v \<Longrightarrow> gspan n I F w \<Longrightarrow> gspan n I F (\<lambda>j. v j + w j)"
proof -
  assume "gspan n I F v" "gspan n I F w"
  then obtain a b where "\<forall>j < n. v j = (\<Sum>i \<in> I. a i * F i j)" "\<forall>j < n. w j = (\<Sum>i \<in> I. b i * F i j)"
    by (auto simp: gspan_def)
  then show ?thesis unfolding gspan_def
    by (intro exI[of _ "\<lambda>i. a i + b i"]) (simp add: distrib_right sum.distrib)
qed

lemma gspan_scale: "gspan n I F v \<Longrightarrow> gspan n I F (\<lambda>j. c * v j)"
proof -
  assume "gspan n I F v"
  then obtain a where "\<forall>j < n. v j = (\<Sum>i \<in> I. a i * F i j)" by (auto simp: gspan_def)
  then show ?thesis unfolding gspan_def
    by (intro exI[of _ "\<lambda>i. c * a i"]) (simp add: sum_distrib_left mult.assoc)
qed

lemma gspan_zero: "gspan n I F (\<lambda>j. 0)"
  unfolding gspan_def by (intro exI[of _ "\<lambda>_. 0"]) simp

lemma gspan_base: "finite I \<Longrightarrow> i \<in> I \<Longrightarrow> gspan n I F (F i)"
  unfolding gspan_def by (intro exI[of _ "\<lambda>x. if x = i then 1 else 0"]) (simp add: if_distrib[of "\<lambda>x. x * _"] cong: if_cong)

lemma gspan_cong: "(\<And>j. j < n \<Longrightarrow> v j = w j) \<Longrightarrow> gspan n I F v = gspan n I F w"
  by (simp add: gspan_def)

lemma gspan_eqI: "gspan n I F w \<Longrightarrow> (\<And>j. j < n \<Longrightarrow> v j = w j) \<Longrightarrow> gspan n I F v"
  by (simp add: gspan_def)

lemma gspan_sum:
  "finite J \<Longrightarrow> (\<And>i. i \<in> J \<Longrightarrow> gspan n I F (G i)) \<Longrightarrow> gspan n I F (\<lambda>j. \<Sum>i \<in> J. a i * G i j)"
  by (induction J rule: finite_induct) (simp_all add: gspan_zero gspan_add gspan_scale)

lemma gspan_trans:
  assumes "finite J" "gspan n J G v" "\<And>i. i \<in> J \<Longrightarrow> gspan n I F (G i)"
  shows "gspan n I F v"
proof -
  obtain a where a: "\<forall>j < n. v j = (\<Sum>i \<in> J. a i * G i j)" using assms(2) by (auto simp: gspan_def)
  have "gspan n I F (\<lambda>j. \<Sum>i \<in> J. a i * G i j)" by (rule gspan_sum[OF assms(1,3)])
  then show ?thesis using a gspan_cong[of n v "\<lambda>j. \<Sum>i \<in> J. a i * G i j" I F] by simp
qed

text \<open>The coding vectors the decoder can reproduce from its rows.\<close>

definition dspan :: "rlnc_decoder \<Rightarrow> (nat \<Rightarrow> gf256) \<Rightarrow> bool" where
  "dspan D v = gspan (dec_k D) (filled D) (entry (matrix D)) v"

definition cvf :: "coded_piece \<Rightarrow> nat \<Rightarrow> gf256" where
  "cvf p j = to_gf (coding_vector p ! j)"

lemma dspan_pivots_zero:
  assumes "decoder_wf D" "dspan D v" "\<And>r. r \<in> filled D \<Longrightarrow> v r = 0" "j < dec_k D"
  shows "v j = 0"
proof -
  obtain a where a: "\<forall>j < dec_k D. v j = (\<Sum>i \<in> filled D. a i * entry (matrix D) i j)"
    using assms(2) by (auto simp: dspan_def gspan_def)
  have "r \<in> filled D \<Longrightarrow> a r = 0" for r
  proof (induction r rule: less_induct)
    case (less r)
    have "a i * entry (matrix D) i r = (if i = r then a r else 0)" if "i \<in> filled D" for i
      using that less filledD(4,5)[OF assms(1) that] by (cases i r rule: linorder_cases) auto
    then have "(\<Sum>i \<in> filled D. a i * entry (matrix D) i r) = a r"
      using less.prems by simp
    then show ?case using a assms(3)[OF less.prems] filledD(1)[OF assms(1) less.prems] by simp
  qed
  with a assms(4) show ?thesis by simp
qed

section \<open>Adding a piece\<close>

definition piece_fits :: "rlnc_decoder \<Rightarrow> coded_piece \<Rightarrow> bool" where
  "piece_fits D p \<longleftrightarrow> length (coding_vector p) = dec_k D \<and> length (data p) = dec_piece_size D"

definition store_row :: "rlnc_decoder \<Rightarrow> nat \<Rightarrow> bytes \<Rightarrow> rlnc_decoder" where
  "store_row D col row = D\<lparr>matrix := (matrix D)[col := row],
     pivot_col := (pivot_col D)[col := Some col], rank := rank D + 1\<rparr>"

lemma add_piece_unfit:
  "\<not> piece_fits D p \<Longrightarrow> snd (add_piece D p) = D \<and>
   (fst (add_piece D p) = Inl (CodingVectorLengthMismatch (dec_k D) (length (coding_vector p))) \<or>
    fst (add_piece D p) = Inl (InvalidPieceSize (dec_piece_size D) (length (data p))))"
  by (auto simp: add_piece_def piece_fits_def Let_def)

lemma add_piece_dependent:
  assumes "decoder_wf D" "piece_fits D p"
    and "position (\<lambda>b. b \<noteq> 0) (take (dec_k D) (reduce_row D (coding_vector p @ data p))) = None"
  shows "add_piece D p = (Inr False, D)" "dspan D (cvf p)"
proof -
  let ?row = "coding_vector p @ data p"
  have len: "length ?row = row_len D" using assms(2) by (simp add: piece_fits_def row_len_def)
  note rf = reduce_row_facts[OF assms(1) len]
  obtain b where b: "\<And>j. j < row_len D \<Longrightarrow> to_gf (reduce_row D ?row ! j) =
      to_gf (?row ! j) + (\<Sum>r \<in> filled D. b r * entry (matrix D) r j)" using rf(2) by blast
  show "add_piece D p = (Inr False, D)"
    using assms(2,3) by (simp add: add_piece_def piece_fits_def)
  have z: "reduce_row D ?row ! j = 0" if "j < dec_k D" for j
  proof -
    have "reduce_row D ?row ! j \<in> set (take (dec_k D) (reduce_row D ?row))"
      using that rf(1) by (auto simp: in_set_conv_nth row_len_def intro!: exI[of _ j])
    then show ?thesis using assms(3) by (simp add: position_None)
  qed
  have "cvf p j = (\<Sum>r \<in> filled D. b r * entry (matrix D) r j)" if "j < dec_k D" for j
  proof -
    have "?row ! j = coding_vector p ! j" using that assms(2) by (simp add: piece_fits_def nth_append)
    then have "0 = cvf p j + (\<Sum>r \<in> filled D. b r * entry (matrix D) r j)"
      using b[of j] z[OF that] that by (simp add: cvf_def row_len_def to_gf_hom)
    then show ?thesis by (metis gf256_add_cancel add.right_neutral)
  qed
  then show "dspan D (cvf p)" by (auto simp: dspan_def gspan_def)
qed

lemma add_piece_independent:
  assumes "decoder_wf D" "piece_fits D p"
    and "position (\<lambda>b. b \<noteq> 0) (take (dec_k D) (reduce_row D (coding_vector p @ data p))) = Some col"
  shows "\<exists>row c b. add_piece D p = (Inr True, store_row D col row) \<and> col < dec_k D \<and> col \<notin> filled D \<and>
    length row = row_len D \<and> row ! col = 1 \<and> (\<forall>j < col. row ! j = 0) \<and> c \<noteq> 0 \<and>
    (\<forall>j < row_len D. to_gf (row ! j) =
       c * (to_gf ((coding_vector p @ data p) ! j) + (\<Sum>r \<in> filled D. b r * entry (matrix D) r j)))"
    (is ?A) and "\<not> dspan D (cvf p)" (is ?B)
proof -
  let ?row = "coding_vector p @ data p"
  let ?red = "reduce_row D ?row"
  have len: "length ?row = row_len D" using assms(2) by (simp add: piece_fits_def row_len_def)
  note rf = reduce_row_facts[OF assms(1) len]
  obtain b where b: "\<And>j. j < row_len D \<Longrightarrow> to_gf (?red ! j) =
      to_gf (?row ! j) + (\<Sum>r \<in> filled D. b r * entry (matrix D) r j)" using rf(2) by blast
  have c: "col < dec_k D" "?red ! col \<noteq> 0" "\<And>j. j < col \<Longrightarrow> ?red ! j = 0"
    using position_Some[OF assms(3)] rf(1) by (auto simp: row_len_def)
  have nf: "col \<notin> filled D" using c(2) rf(3) by blast
  let ?inv = "gf_inv (?red ! col)"
  let ?new = "map (\<lambda>b. gf_mul b ?inv) ?red"
  have "gf_mul (?red ! col) ?inv = 1" by (rule tab.mul_inverse[OF c(2)])
  moreover from this have "?inv \<noteq> 0" by (metis tab.mul_units(4) zero_neq_one)
  moreover have "add_piece D p = (Inr True, store_row D col ?new)"
    using assms(2,3) by (simp add: add_piece_def piece_fits_def store_row_def Let_def)
  moreover have "\<forall>j < row_len D. to_gf (?new ! j) =
      to_gf ?inv * (to_gf (?row ! j) + (\<Sum>r \<in> filled D. b r * entry (matrix D) r j))"
    using rf(1) b by (simp add: to_gf_hom mult.commute)
  ultimately show ?A
    using c nf rf(1) by (intro exI[of _ ?new] exI[of _ "to_gf ?inv"] exI[of _ b])
      (auto simp: row_len_def tab.mul_units)
  show ?B
  proof
    assume "dspan D (cvf p)"
    then have "gspan (dec_k D) (filled D) (entry (matrix D))
        (\<lambda>j. cvf p j + (\<Sum>r \<in> filled D. b r * entry (matrix D) r j))"
      unfolding dspan_def by (rule gspan_add) (auto simp: gspan_def)
    moreover have "cvf p j + (\<Sum>r \<in> filled D. b r * entry (matrix D) r j) = to_gf (?red ! j)" if "j < dec_k D" for j
      using that assms(2) b[of j] by (simp add: cvf_def row_len_def piece_fits_def nth_append)
    ultimately have "dspan D (\<lambda>j. to_gf (?red ! j))"
      unfolding dspan_def by (simp cong: gspan_cong)
    from dspan_pivots_zero[OF assms(1) this _ c(1)] rf(3) have "to_gf (?red ! col) = 0" by (simp add: to_gf_hom)
    with c(2) show False by simp
  qed
qed

lemma store_row_simps [simp]:
  "dec_k (store_row D col row) = dec_k D" "dec_piece_size (store_row D col row) = dec_piece_size D"
  "row_len (store_row D col row) = row_len D"
  by (simp_all add: store_row_def row_len_def)

lemma store_row_filled:
  "decoder_wf D \<Longrightarrow> col < dec_k D \<Longrightarrow> filled (store_row D col row) = insert col (filled D)"
  by (auto simp: store_row_def filled_def decoder_wf_def nth_list_update)

lemma store_row_entry:
  "decoder_wf D \<Longrightarrow> col < dec_k D \<Longrightarrow>
   entry (matrix (store_row D col row)) r j = (if r = col then to_gf (row ! j) else entry (matrix D) r j)"
  by (auto simp: store_row_def entry_def decoder_wf_def nth_list_update)

lemma store_row_wf:
  assumes "decoder_wf D" "col < dec_k D" "col \<notin> filled D" "length row = row_len D"
    "row ! col = 1" "\<forall>j < col. row ! j = 0"
  shows "decoder_wf (store_row D col row)"
proof -
  have "slot_wf (store_row D col row) r" if "r < dec_k D" for r
  proof -
    have "slot_wf D r" using assms(1) that by (simp add: decoder_wf_def)
    then show ?thesis using assms that
      by (auto simp: slot_wf_def store_row_def decoder_wf_def row_len_def nth_list_update split: option.splits)
  qed
  then show ?thesis using assms store_row_filled[OF assms(1,2)]
    by (simp add: decoder_wf_def) (simp add: store_row_def)
qed

text \<open>The rows of the decoder lie in the span of a family of coding vectors.\<close>

definition rows_in :: "nat set \<Rightarrow> (nat \<Rightarrow> nat \<Rightarrow> gf256) \<Rightarrow> rlnc_decoder \<Rightarrow> bool" where
  "rows_in I F D \<longleftrightarrow> (\<forall>r \<in> filled D. gspan (dec_k D) I F (entry (matrix D) r))"

lemma add_piece_cases:
  assumes "decoder_wf D" "piece_fits D p"
  obtains (dependent) "add_piece D p = (Inr False, D)" "dspan D (cvf p)"
  | (independent) col row c b where "add_piece D p = (Inr True, store_row D col row)"
      "\<not> dspan D (cvf p)" "col < dec_k D" "col \<notin> filled D" "length row = row_len D" "row ! col = 1"
      "\<forall>j < col. row ! j = 0" "c \<noteq> 0"
      "\<And>j. j < row_len D \<Longrightarrow> to_gf (row ! j) =
         c * (to_gf ((coding_vector p @ data p) ! j) + (\<Sum>r \<in> filled D. b r * entry (matrix D) r j))"
proof (cases "position (\<lambda>b. b \<noteq> 0) (take (dec_k D) (reduce_row D (coding_vector p @ data p)))")
  case None
  then show ?thesis using dependent add_piece_dependent[OF assms] by blast
next
  case (Some col)
  from add_piece_independent(1)[OF assms Some] obtain row c b where
    "add_piece D p = (Inr True, store_row D col row)" "col < dec_k D" "col \<notin> filled D"
    "length row = row_len D" "row ! col = 1" "\<forall>j < col. row ! j = 0" "c \<noteq> 0"
    "\<forall>j < row_len D. to_gf (row ! j) =
       c * (to_gf ((coding_vector p @ data p) ! j) + (\<Sum>r \<in> filled D. b r * entry (matrix D) r j))"
    by blast
  with add_piece_independent(2)[OF assms Some] show ?thesis
    by (intro independent[of col row c b]) simp_all
qed

lemma add_piece_wf:
  assumes "decoder_wf D"
  shows "decoder_wf (snd (add_piece D p))" "dec_k (snd (add_piece D p)) = dec_k D"
    "dec_piece_size (snd (add_piece D p)) = dec_piece_size D"
proof -
  have "decoder_wf (snd (add_piece D p)) \<and> dec_k (snd (add_piece D p)) = dec_k D \<and>
      dec_piece_size (snd (add_piece D p)) = dec_piece_size D"
  proof (cases "piece_fits D p")
    case True
    from assms True show ?thesis
      by (cases rule: add_piece_cases) (simp_all add: assms store_row_wf)
  next
    case False
    then show ?thesis using assms add_piece_unfit by simp
  qed
  then show "decoder_wf (snd (add_piece D p))" "dec_k (snd (add_piece D p)) = dec_k D"
    "dec_piece_size (snd (add_piece D p)) = dec_piece_size D" by auto
qed

lemma add_piece_result:
  assumes "decoder_wf D" "piece_fits D p"
  shows "fst (add_piece D p) = Inr (\<not> dspan D (cvf p))"
    "rank (snd (add_piece D p)) = (if dspan D (cvf p) then rank D else rank D + 1)"
  using assms by (cases rule: add_piece_cases; simp add: store_row_def)+

lemma new_row_cvf:
  assumes "piece_fits D p" "j < dec_k D" "c \<noteq> 0"
    and "to_gf (row ! j) = c * (to_gf ((coding_vector p @ data p) ! j) + s)"
  shows "to_gf (row ! j) = c * (cvf p j + s)" "cvf p j = inverse c * to_gf (row ! j) + s"
proof -
  have "(coding_vector p @ data p) ! j = coding_vector p ! j"
    using assms by (simp add: piece_fits_def nth_append)
  then show 1: "to_gf (row ! j) = c * (cvf p j + s)" using assms by (simp add: cvf_def)
  then show "cvf p j = inverse c * to_gf (row ! j) + s"
    using assms(3) by (simp add: mult.assoc [symmetric] add.assoc)
qed

lemma add_piece_span:
  assumes "decoder_wf D" "piece_fits D p"
  shows "dspan (snd (add_piece D p)) (cvf p)" "dspan D v \<Longrightarrow> dspan (snd (add_piece D p)) v"
proof -
  have "dspan (snd (add_piece D p)) (cvf p) \<and> (dspan D v \<longrightarrow> dspan (snd (add_piece D p)) v)"
    using assms
  proof (cases rule: add_piece_cases)
    case dependent
    then show ?thesis by simp
  next
    case (independent col row c b)
    let ?D = "store_row D col row"
    note fe = store_row_filled[OF assms(1) independent(3)] store_row_entry[OF assms(1) independent(3)]
    have base: "gspan (dec_k D) (filled ?D) (entry (matrix ?D)) (entry (matrix ?D) r)" if "r \<in> filled ?D" for r
      using that by (intro gspan_base) auto
    have old: "gspan (dec_k D) (filled ?D) (entry (matrix ?D)) (entry (matrix D) r)" if "r \<in> filled D" for r
    proof -
      have "r \<noteq> col" using that independent(4) by blast
      then have "entry (matrix ?D) r = entry (matrix D) r" using fe(2) by (intro ext) simp
      then show ?thesis using base[of r] that fe(1) by simp
    qed
    have mono: "dspan ?D v" if "dspan D v" for v
      using gspan_trans[OF finite_filled _ old] that by (simp add: dspan_def)
    have "dspan ?D (\<lambda>j. inverse c * entry (matrix ?D) col j + (\<Sum>r \<in> filled D. b r * entry (matrix D) r j))"
      using gspan_add[OF gspan_scale[OF base[of col]] gspan_sum[OF finite_filled old]] fe(1)
      by (simp add: dspan_def)
    moreover have "cvf p j = inverse c * entry (matrix ?D) col j + (\<Sum>r \<in> filled D. b r * entry (matrix D) r j)"
      if "j < dec_k D" for j
      using that new_row_cvf(2)[OF assms(2) that independent(8) independent(9)] fe(2)[of row col j]
      by (simp add: row_len_def)
    ultimately have "dspan ?D (cvf p)" unfolding dspan_def by (rule gspan_eqI) simp
    then show ?thesis using mono independent(1) by simp
  qed
  then show "dspan (snd (add_piece D p)) (cvf p)" "dspan D v \<Longrightarrow> dspan (snd (add_piece D p)) v" by auto
qed

lemma add_piece_rows_in:
  assumes "decoder_wf D" "piece_fits D p" "rows_in I F D" "gspan (dec_k D) I F (cvf p)"
  shows "rows_in I F (snd (add_piece D p))"
  using assms(1,2)
proof (cases rule: add_piece_cases)
  case dependent
  then show ?thesis using assms by simp
next
  case (independent col row c b)
  let ?D = "store_row D col row"
  note fe = store_row_filled[OF assms(1) independent(3)] store_row_entry[OF assms(1) independent(3)]
  have "gspan (dec_k D) I F (\<lambda>j. c * (cvf p j + (\<Sum>r \<in> filled D. b r * entry (matrix D) r j)))"
    using assms(3) by (intro gspan_scale gspan_add[OF assms(4)] gspan_sum[OF finite_filled])
      (simp add: rows_in_def)
  moreover have "entry (matrix ?D) col j = c * (cvf p j + (\<Sum>r \<in> filled D. b r * entry (matrix D) r j))"
    if "j < dec_k D" for j
    using that new_row_cvf(1)[OF assms(2) that independent(8) independent(9)] fe(2)[of row col j]
    by (simp add: row_len_def)
  ultimately have "gspan (dec_k D) I F (entry (matrix ?D) col)"
    by (rule gspan_eqI)
  moreover have "gspan (dec_k D) I F (entry (matrix ?D) r)" if "r \<in> filled D" for r
  proof -
    have "r \<noteq> col" using that independent(4) by blast
    then have "entry (matrix ?D) r = entry (matrix D) r" using fe(2) by (intro ext) simp
    then show ?thesis using assms(3) that by (simp add: rows_in_def)
  qed
  ultimately show ?thesis using independent(1) fe(1) by (simp add: rows_in_def)
qed

section \<open>Rows that agree with the sources\<close>

text \<open>
  A row agrees with the sources \<open>S\<close> when its data part is the combination of the sources with
  the coefficients of its coding part.  Agreement is linear.
\<close>

definition agrees :: "nat \<Rightarrow> nat \<Rightarrow> bytes list \<Rightarrow> (nat \<Rightarrow> gf256) \<Rightarrow> bool" where
  "agrees k n S f \<longleftrightarrow> (\<forall>j < n. f (k + j) = (\<Sum>i<k. f i * to_gf (S ! i ! j)))"

definition consistent :: "bytes list \<Rightarrow> rlnc_decoder \<Rightarrow> bool" where
  "consistent S D \<longleftrightarrow> (\<forall>r \<in> filled D. agrees (dec_k D) (dec_piece_size D) S (entry (matrix D) r))"

lemma agrees_add: "agrees k n S f \<Longrightarrow> agrees k n S g \<Longrightarrow> agrees k n S (\<lambda>j. f j + g j)"
  by (simp add: agrees_def distrib_right sum.distrib)

lemma agrees_scale: "agrees k n S f \<Longrightarrow> agrees k n S (\<lambda>j. c * f j)"
  by (simp add: agrees_def sum_distrib_left mult.assoc)

lemma agrees_sum:
  "finite I \<Longrightarrow> (\<And>i. i \<in> I \<Longrightarrow> agrees k n S (F i)) \<Longrightarrow> agrees k n S (\<lambda>j. \<Sum>i \<in> I. b i * F i j)"
  by (induction I rule: finite_induct) (simp_all add: agrees_add agrees_scale, simp add: agrees_def)

lemma agrees_eqI: "agrees k n S g \<Longrightarrow> (\<And>j. j < k + n \<Longrightarrow> f j = g j) \<Longrightarrow> agrees k n S f"
  by (simp add: agrees_def)

lemma valid_piece_agrees:
  assumes "valid_piece B c n S p" "all_len n S"
  shows "agrees (length S) n S (\<lambda>j. to_gf ((coding_vector p @ data p) ! j))"
    "length (coding_vector p) = length S" "length (data p) = n"
proof -
  have l: "length (coding_vector p) = length S" and d: "data p = vec_comb n S (coding_vector p)"
    using assms(1) by (simp_all add: valid_piece_def)
  then show "length (coding_vector p) = length S" "length (data p) = n" by simp_all
  show "agrees (length S) n S (\<lambda>j. to_gf ((coding_vector p @ data p) ! j))"
    using l assms(2) by (simp add: agrees_def d nth_append to_gf_vec_comb)
qed

lemma add_piece_consistent:
  assumes "decoder_wf D" "piece_fits D p" "consistent S D"
    and "agrees (dec_k D) (dec_piece_size D) S (\<lambda>j. to_gf ((coding_vector p @ data p) ! j))"
  shows "consistent S (snd (add_piece D p))"
  using assms(1,2)
proof (cases rule: add_piece_cases)
  case dependent
  then show ?thesis using assms by simp
next
  case (independent col row c b)
  let ?D = "store_row D col row"
  note fe = store_row_filled[OF assms(1) independent(3)] store_row_entry[OF assms(1) independent(3)]
  have "agrees (dec_k D) (dec_piece_size D) S (\<lambda>j. c * (to_gf ((coding_vector p @ data p) ! j) +
      (\<Sum>r \<in> filled D. b r * entry (matrix D) r j)))"
    using assms(3) by (intro agrees_scale agrees_add[OF assms(4)] agrees_sum) (simp_all add: consistent_def)
  then have new: "agrees (dec_k D) (dec_piece_size D) S (entry (matrix ?D) col)"
    by (rule agrees_eqI) (simp add: fe(2) independent(9) row_len_def)
  have "agrees (dec_k D) (dec_piece_size D) S (entry (matrix ?D) r)" if "r \<in> filled D" for r
  proof -
    have "r \<noteq> col" using that independent(4) by blast
    then have "entry (matrix ?D) r = entry (matrix D) r" using fe(2) by (intro ext) simp
    then show ?thesis using assms(3) that by (simp add: consistent_def)
  qed
  with new show ?thesis using independent(1) fe(1) by (simp add: consistent_def)
qed

section \<open>Back-substitution\<close>

definition echelon :: "nat \<Rightarrow> nat \<Rightarrow> bytes list \<Rightarrow> bool" where
  "echelon k L M \<longleftrightarrow> k \<le> L \<and> length M = k \<and>
     (\<forall>r < k. length (M ! r) = L \<and> entry M r r = 1 \<and> (\<forall>j < r. entry M r j = 0))"

text \<open>\<open>cleared c\<close>: the columns from \<open>c\<close> on are zero above the diagonal.\<close>

definition cleared :: "nat \<Rightarrow> nat \<Rightarrow> bytes list \<Rightarrow> bool" where
  "cleared k c M \<longleftrightarrow> (\<forall>r < k. \<forall>j < k. c \<le> j \<longrightarrow> r < j \<longrightarrow> entry M r j = 0)"

lemma elim_row_eq: "elim_row col M r = M[r := gf_vec_mul_add (M ! r) (M ! col) (M ! r ! col)]"
  by (simp add: elim_row_def Let_def gf_vec_mul_add_def)

lemma elim_prefix:
  "n \<le> col \<Longrightarrow> col < length M \<Longrightarrow> length (foldl (elim_row col) M [0..<n]) = length M \<and>
   (\<forall>r. foldl (elim_row col) M [0..<n] ! r =
      (if r < n then gf_vec_mul_add (M ! r) (M ! col) (M ! r ! col) else M ! r))"
proof (induction n)
  case 0
  then show ?case by simp
next
  case (Suc n)
  then show ?case by (simp add: elim_row_eq nth_list_update)
qed

lemma elim_col_facts:
  assumes "echelon k L M" "col < k"
  shows "length (elim_col M col) = k" "r < k \<Longrightarrow> length (elim_col M col ! r) = L"
    "r < k \<Longrightarrow> j < L \<Longrightarrow> entry (elim_col M col) r j =
       entry M r j + (if r < col then entry M r col * entry M col j else 0)"
proof -
  have l: "length M = k" "\<And>r. r < k \<Longrightarrow> length (M ! r) = L" using assms by (auto simp: echelon_def)
  have e: "length (elim_col M col) = k"
    "elim_col M col ! r = (if r < col then gf_vec_mul_add (M ! r) (M ! col) (M ! r ! col) else M ! r)" for r
    using elim_prefix[of col col M] assms(2) l by (auto simp: elim_col_def)
  show "length (elim_col M col) = k" "r < k \<Longrightarrow> length (elim_col M col ! r) = L"
    using e l by simp_all
  show "r < k \<Longrightarrow> j < L \<Longrightarrow> entry (elim_col M col) r j =
       entry M r j + (if r < col then entry M r col * entry M col j else 0)"
    using e l assms(2) by (simp add: entry_def to_gf_vec_mul_add_nth)
qed

lemma elim_col_step:
  assumes "echelon k L M" "cleared k (Suc col) M" "col < k"
  shows "echelon k L (elim_col M col)" "cleared k col (elim_col M col)"
proof -
  note f = elim_col_facts[OF assms(1,3)]
  have L: "k \<le> L" using assms(1) by (simp add: echelon_def)
  have m: "entry M col j = (if j = col then 1 else 0)" if "j < k" for j
  proof (cases j col rule: linorder_cases)
    case greater
    then show ?thesis using assms(2,3) that by (simp add: cleared_def)
  qed (use assms(1,3) in \<open>simp_all add: echelon_def\<close>)
  have e: "entry (elim_col M col) r j = (if r < col \<and> j = col then 0 else entry M r j)" if "r < k" "j < k" for r j
    using f(3)[OF that(1), of j] m[OF that(2)] that L by (cases "j = col") auto
  show "echelon k L (elim_col M col)"
    using assms(1) f(1,2) by (auto simp: echelon_def e)
  show "cleared k col (elim_col M col)"
    using assms(2) by (auto simp: cleared_def e)
qed

lemma elim_col_agrees:
  assumes "echelon k (k + n) M" "col < k" "\<forall>r < k. agrees k n S (entry M r)"
  shows "\<forall>r < k. agrees k n S (entry (elim_col M col) r)"
proof (intro allI impI)
  fix r
  assume r: "r < k"
  have "agrees k n S (\<lambda>j. entry M r j + (if r < col then entry M r col else 0) * entry M col j)"
    using assms r by (intro agrees_add agrees_scale) auto
  then show "agrees k n S (entry (elim_col M col) r)"
    by (rule agrees_eqI) (simp add: elim_col_facts(3)[OF assms(1,2) r])
qed

lemma back_substitute_cleared:
  "c \<le> k \<Longrightarrow> echelon k L M \<Longrightarrow> cleared k c M \<Longrightarrow>
   echelon k L (foldl elim_col M (rev [0..<c])) \<and> cleared k 0 (foldl elim_col M (rev [0..<c]))"
proof (induction c arbitrary: M)
  case 0
  then show ?case by simp
next
  case (Suc c)
  then show ?case using elim_col_step[of k L M c] by simp
qed

lemma back_substitute_agrees:
  "c \<le> k \<Longrightarrow> echelon k (k + n) M \<Longrightarrow> cleared k c M \<Longrightarrow> \<forall>r < k. agrees k n S (entry M r) \<Longrightarrow>
   \<forall>r < k. agrees k n S (entry (foldl elim_col M (rev [0..<c])) r)"
proof (induction c arbitrary: M)
  case 0
  then show ?case by simp
next
  case (Suc c)
  then show ?case using elim_col_step[of k "k + n" M c] elim_col_agrees[of k n M c S] by simp
qed

lemma extract_rows_ok:
  "\<forall>c \<in> set cols. M ! c ! c = 1 \<Longrightarrow> extract_rows k M cols = Inr (concat (map (\<lambda>c. drop k (M ! c)) cols))"
  by (induction cols) simp_all

lemma back_substitute_correct:
  assumes "echelon k (k + n) M" "\<forall>r < k. agrees k n S (entry M r)" "length S = k" "all_len n S"
  shows "extract_rows k (back_substitute k M) [0..<k] = Inr (concat S)"
    "echelon k (k + n) (back_substitute k M)"
proof -
  let ?M = "back_substitute k M"
  have c: "cleared k k M" by (simp add: cleared_def)
  from back_substitute_cleared[OF _ assms(1) c]
  show e: "echelon k (k + n) ?M" by (simp add: back_substitute_def)
  have z: "cleared k 0 ?M" using back_substitute_cleared[OF _ assms(1) c] by (simp add: back_substitute_def)
  have a: "\<forall>r < k. agrees k n S (entry ?M r)"
    using back_substitute_agrees[OF _ assms(1) c assms(2)] by (simp add: back_substitute_def)
  have id: "entry ?M r i = (if i = r then 1 else 0)" if "r < k" "i < k" for r i
    using that e z by (cases i r rule: linorder_cases) (simp_all add: echelon_def cleared_def)
  have "drop k (?M ! r) = S ! r" if r: "r < k" for r
  proof (rule nth_equalityI)
    have len: "length (?M ! r) = k + n" using e r by (simp add: echelon_def)
    then show "length (drop k (?M ! r)) = length (S ! r)" using assms r by (simp add: all_len_nth)
    fix j
    assume "j < length (drop k (?M ! r))"
    then have j: "j < n" using len by simp
    have "entry ?M r (k + j) = (\<Sum>i<k. entry ?M r i * to_gf (S ! i ! j))"
      using a r j by (simp add: agrees_def)
    also have "\<dots> = (\<Sum>i<k. if i = r then to_gf (S ! r ! j) else 0)"
      using id[OF r] by (intro sum.cong) auto
    also have "\<dots> = to_gf (S ! r ! j)" using r by simp
    finally show "drop k (?M ! r) ! j = S ! r ! j" using len by (simp add: entry_def)
  qed
  then have "map (\<lambda>r. drop k (?M ! r)) [0..<k] = map ((!) S) [0..<k]" by (intro map_cong) auto
  also have "\<dots> = S" using assms(3) map_nth by blast
  finally have m: "map (\<lambda>r. drop k (?M ! r)) [0..<k] = S" .
  have "\<forall>c \<in> set [0..<k]. ?M ! c ! c = 1"
  proof
    fix c
    assume "c \<in> set [0..<k]"
    then have "to_gf (?M ! c ! c) = to_gf 1" using id[of c c] by (simp add: entry_def to_gf_hom)
    then show "?M ! c ! c = 1" by (rule to_gf_eqI)
  qed
  from extract_rows_ok[OF this] show "extract_rows k ?M [0..<k] = Inr (concat S)" by (simp only: m)
qed

section \<open>Full rank\<close>

lemma rank_le: "decoder_wf D \<Longrightarrow> rank D \<le> dec_k D"
proof -
  assume "decoder_wf D"
  moreover have "filled D \<subseteq> {..<dec_k D}" by (auto simp: filled_def)
  then have "card (filled D) \<le> dec_k D" using card_mono[of "{..<dec_k D}"] by fastforce
  ultimately show ?thesis by (simp add: decoder_wf_def)
qed

lemma full_rank_filled: "decoder_wf D \<Longrightarrow> rank D = dec_k D \<longleftrightarrow> filled D = {..<dec_k D}"
proof -
  assume "decoder_wf D"
  then have r: "rank D = card (filled D)" by (simp only: decoder_wf_def)
  have "filled D \<subseteq> {..<dec_k D}" by (auto simp: filled_def)
  then have "card (filled D) = dec_k D \<Longrightarrow> filled D = {..<dec_k D}"
    by (intro card_subset_eq) simp_all
  then show ?thesis using r by (metis card_lessThan)
qed

lemma full_rank_echelon:
  assumes "decoder_wf D" "rank D = dec_k D"
  shows "echelon (dec_k D) (dec_k D + dec_piece_size D) (matrix D)"
proof -
  have "r \<in> filled D" if "r < dec_k D" for r using that full_rank_filled assms by auto
  then have "length (matrix D ! r) = dec_k D + dec_piece_size D \<and> entry (matrix D) r r = 1 \<and>
      (\<forall>j < r. entry (matrix D) r j = 0)" if "r < dec_k D" for r
    using that filledD(3-5)[OF assms(1), of r] by blast
  then show ?thesis using assms(1) unfolding echelon_def decoder_wf_def by simp
qed

lemma full_rank_span:
  assumes "decoder_wf D"
  shows "rank D = dec_k D \<longleftrightarrow> (\<forall>v. dspan D v)"
proof
  assume r: "rank D = dec_k D"
  show "\<forall>v. dspan D v"
  proof
    fix v
    let ?p = "\<lparr>piece_id = PieceId [], cid = Cid [], coding_vector = map (\<lambda>j. of_gf (v j)) [0..<dec_k D],
        data = replicate (dec_piece_size D) 0, hommac_tag = []\<rparr>"
    have fit: "piece_fits D ?p" by (simp add: piece_fits_def)
    have "dspan D (cvf ?p)" using assms fit
    proof (cases rule: add_piece_cases)
      case (independent col row c b)
      then show ?thesis using full_rank_filled[OF assms] r by simp
    qed
    then show "dspan D v" unfolding dspan_def by (rule gspan_eqI) (simp add: cvf_def of_gf_inverse)
  qed
next
  assume s: "\<forall>v. dspan D v"
  have "c \<in> filled D" if "c < dec_k D" for c
  proof (rule ccontr)
    assume "c \<notin> filled D"
    then have "(if c = c then 1 else 0 :: gf256) = 0"
      using s dspan_pivots_zero[OF assms, of "\<lambda>j. if j = c then 1 else 0" c] that by fastforce
    then show False by simp
  qed
  then have "filled D = {..<dec_k D}" by (auto simp: filled_def)
  then show "rank D = dec_k D" using full_rank_filled[OF assms] by simp
qed

section \<open>Decoding\<close>

lemma decode_insufficient: "rank D < dec_k D \<Longrightarrow> decode D = (Inl (InsufficientPieces (rank D) (dec_k D)), D)"
  by (simp add: decode_def)

lemma decode_full:
  assumes "decoder_wf D" "rank D = dec_k D" "consistent S D" "length S = dec_k D" "all_len (dec_piece_size D) S"
  shows "decode D = (Inr (concat S), D\<lparr>matrix := back_substitute (dec_k D) (matrix D), decoded := True\<rparr>)"
proof -
  have f: "filled D = {..<dec_k D}" using full_rank_filled assms(1,2) by simp
  have e: "echelon (dec_k D) (dec_k D + dec_piece_size D) (matrix D)" by (rule full_rank_echelon[OF assms(1,2)])
  have a: "\<forall>r < dec_k D. agrees (dec_k D) (dec_piece_size D) S (entry (matrix D) r)"
    using assms(3) f by (simp add: consistent_def)
  have "\<not> (pivot_col D ! c = None \<or> matrix D ! c = [])" if "c \<in> set [0..<dec_k D]" for c
  proof -
    have "c < dec_k D" "c \<in> filled D" using that f by simp_all
    from filledD(2,3)[OF assms(1) this(2)] this(1) show ?thesis by fastforce
  qed
  then have "List.find (\<lambda>col. pivot_col D ! col = None \<or> matrix D ! col = []) [0..<dec_k D] = None"
    by (simp only: find_None_iff) blast
  then show ?thesis using back_substitute_correct(1)[OF e a assms(4,5)] assms(2)
    by (simp add: decode_def)
qed

section \<open>Feeding a sequence of pieces\<close>

definition feed :: "rlnc_decoder \<Rightarrow> coded_piece list \<Rightarrow> rlnc_decoder" where
  "feed D ps = foldl (\<lambda>D p. snd (add_piece D p)) D ps"

text \<open>The coding vectors of the pieces generate the whole space of coefficient vectors.\<close>

definition pieces_span :: "nat \<Rightarrow> coded_piece list \<Rightarrow> bool" where
  "pieces_span k ps \<longleftrightarrow> (\<forall>v. gspan k {..<length ps} (\<lambda>i. cvf (ps ! i)) v)"

definition decoder_after :: "nat \<Rightarrow> nat \<Rightarrow> coded_piece list \<Rightarrow> rlnc_decoder \<Rightarrow> bool" where
  "decoder_after k n ps D \<longleftrightarrow> decoder_wf D \<and> dec_k D = k \<and> dec_piece_size D = n \<and>
     (\<forall>p \<in> set ps. dspan D (cvf p)) \<and> rows_in {..<length ps} (\<lambda>i. cvf (ps ! i)) D"

lemma decoder_after_new: "decoder_after k n [] (decoder_new k n)"
  by (simp add: decoder_after_def decoder_new_wf rows_in_def)

lemma gspan_snoc:
  "gspan k {..<length ps} (\<lambda>i. cvf (ps ! i)) v \<Longrightarrow> gspan k {..<length (ps @ [p])} (\<lambda>i. cvf ((ps @ [p]) ! i)) v"
proof (rule gspan_trans[of "{..<length ps}" k "\<lambda>i. cvf (ps ! i)"])
  fix i
  assume "i \<in> {..<length ps}"
  then have "i \<in> {..<length (ps @ [p])}" "cvf (ps ! i) = cvf ((ps @ [p]) ! i)" by (auto simp: nth_append)
  then show "gspan k {..<length (ps @ [p])} (\<lambda>i. cvf ((ps @ [p]) ! i)) (cvf (ps ! i))"
    using gspan_base[of "{..<length (ps @ [p])}" i k "\<lambda>i. cvf ((ps @ [p]) ! i)"] by simp
qed simp_all

lemma decoder_after_add:
  assumes "decoder_after k n ps D" "piece_fits D p"
  shows "decoder_after k n (ps @ [p]) (snd (add_piece D p))"
proof -
  have D: "decoder_wf D" "dec_k D = k" "dec_piece_size D = n" "\<forall>p \<in> set ps. dspan D (cvf p)"
    "rows_in {..<length ps} (\<lambda>i. cvf (ps ! i)) D" using assms(1) by (auto simp: decoder_after_def)
  have "rows_in {..<length (ps @ [p])} (\<lambda>i. cvf ((ps @ [p]) ! i)) D"
    using D(5) gspan_snoc unfolding rows_in_def by blast
  moreover have "gspan (dec_k D) {..<length (ps @ [p])} (\<lambda>i. cvf ((ps @ [p]) ! i)) (cvf p)"
    using gspan_base[of "{..<length (ps @ [p])}" "length ps" "dec_k D" "\<lambda>i. cvf ((ps @ [p]) ! i)"] by simp
  ultimately have "rows_in {..<length (ps @ [p])} (\<lambda>i. cvf ((ps @ [p]) ! i)) (snd (add_piece D p))"
    by (rule add_piece_rows_in[OF D(1) assms(2)])
  then show ?thesis
    using D add_piece_wf[OF D(1)] add_piece_span[OF D(1) assms(2)] by (auto simp: decoder_after_def)
qed

lemma decoder_after_span:
  assumes "decoder_after k n ps D"
  shows "rank D = k \<longleftrightarrow> pieces_span k ps"
proof -
  have D: "decoder_wf D" "dec_k D = k" "\<forall>p \<in> set ps. dspan D (cvf p)"
    "rows_in {..<length ps} (\<lambda>i. cvf (ps ! i)) D" using assms by (auto simp: decoder_after_def)
  have 1: "gspan k {..<length ps} (\<lambda>i. cvf (ps ! i)) v" if "dspan D v" for v
    using that D(2,4) gspan_trans[of "filled D" k "entry (matrix D)" v] by (simp add: rows_in_def dspan_def)
  have 2: "dspan D v" if "gspan k {..<length ps} (\<lambda>i. cvf (ps ! i)) v" for v
    using gspan_trans[OF _ that] D(2,3) by (simp add: dspan_def)
  have "(\<forall>v. dspan D v) \<longleftrightarrow> pieces_span k ps" unfolding pieces_span_def using 1 2 by (auto intro!: ext)
  then show ?thesis using full_rank_span[OF D(1)] D(2) by simp
qed

lemma decoder_after_consistent:
  assumes "length S = k" "all_len n S"
  shows "list_all (valid_piece B c n S) ps \<Longrightarrow>
    decoder_after k n ps (feed (decoder_new k n) ps) \<and> consistent S (feed (decoder_new k n) ps)"
proof (induction ps rule: rev_induct)
  case Nil
  then show ?case using decoder_after_new by (simp add: feed_def consistent_def)
next
  case (snoc p ps)
  let ?D = "feed (decoder_new k n) ps"
  have v: "valid_piece B c n S p" and D: "decoder_after k n ps ?D" "consistent S ?D"
    using snoc by simp_all
  then have kn: "dec_k ?D = k" "dec_piece_size ?D = n" "decoder_wf ?D" by (simp_all add: decoder_after_def)
  note va = valid_piece_agrees[OF v assms(2)]
  have fit: "piece_fits ?D p" using va assms(1) kn by (simp add: piece_fits_def)
  have "consistent S (snd (add_piece ?D p))"
    using add_piece_consistent[OF kn(3) fit D(2)] va(1) assms(1) kn by simp
  then show ?case using decoder_after_add[OF D(1) fit] by (simp add: feed_def)
qed

section \<open>Properties\<close>

text \<open>
  C2. \<open>add_piece\<close> keeps the decoder well formed: every filled row slot \<open>r\<close> holds a row of full
  length with a leading one in column \<open>r\<close>, empty slots hold no row, and \<open>rank\<close> counts the filled
  slots.  A piece of the wrong dimensions is rejected with the matching error and leaves the
  decoder unchanged; a piece of the right dimensions is accepted, raising the rank by one,
  exactly when its coding vector is not a linear combination of the rows held.
\<close>

theorem add_piece_correct:
  assumes "decoder_wf D"
  shows "decoder_wf (snd (add_piece D p)) \<and> rank (snd (add_piece D p)) \<le> dec_k D \<and>
    (if length (coding_vector p) \<noteq> dec_k D
     then add_piece D p = (Inl (CodingVectorLengthMismatch (dec_k D) (length (coding_vector p))), D)
     else if length (data p) \<noteq> dec_piece_size D
     then add_piece D p = (Inl (InvalidPieceSize (dec_piece_size D) (length (data p))), D)
     else fst (add_piece D p) = Inr (\<not> dspan D (cvf p)) \<and>
       rank (snd (add_piece D p)) = (if dspan D (cvf p) then rank D else rank D + 1))"
proof -
  have "rank (snd (add_piece D p)) \<le> dec_k D"
    using rank_le[OF add_piece_wf(1)[OF assms, of p]] add_piece_wf(2)[OF assms, of p] by simp
  moreover have "piece_fits D p \<Longrightarrow> fst (add_piece D p) = Inr (\<not> dspan D (cvf p)) \<and>
       rank (snd (add_piece D p)) = (if dspan D (cvf p) then rank D else rank D + 1)"
    using add_piece_result[OF assms] by blast
  moreover have "length (coding_vector p) \<noteq> dec_k D \<Longrightarrow>
      add_piece D p = (Inl (CodingVectorLengthMismatch (dec_k D) (length (coding_vector p))), D)"
    "length (coding_vector p) = dec_k D \<Longrightarrow> length (data p) \<noteq> dec_piece_size D \<Longrightarrow>
      add_piece D p = (Inl (InvalidPieceSize (dec_piece_size D) (length (data p))), D)"
    by (simp_all add: add_piece_def)
  ultimately show ?thesis using add_piece_wf(1)[OF assms] unfolding piece_fits_def by presburger
qed

theorem add_piece_correct_witness:
  "decoder_wf (decoder_new 2 1) \<and> (let p = \<lparr>piece_id = PieceId [], cid = Cid [], coding_vector = [5, 0],
     data = [7], hommac_tag = []\<rparr> in
   fst (add_piece (decoder_new 2 1) p) = Inr True \<and> rank (snd (add_piece (decoder_new 2 1) p)) = 1)"
proof -
  let ?p = "\<lparr>piece_id = PieceId [], cid = Cid [], coding_vector = [5, 0], data = [7], hommac_tag = []\<rparr>"
  have "\<not> dspan (decoder_new 2 1) (cvf ?p)"
    by (auto simp: dspan_def gspan_def cvf_def intro!: exI[of _ 0])
  then show ?thesis using add_piece_correct[OF decoder_new_wf[of 2 1], of ?p]
    by (simp add: decoder_new_wf)
qed

text \<open>
  C1. Decoding is sound and complete.  Feed any sequence of valid pieces of one generation to a
  fresh decoder.  If their coding vectors generate the whole coefficient space, \<open>decode\<close> returns
  the concatenation of the source pieces; otherwise it returns \<open>InsufficientPieces\<close> with the
  rank reached.  It never returns wrong data and never \<open>DecodeFailed\<close>.
\<close>

theorem decode_correct:
  assumes "length S = k" "all_len n S" "list_all (valid_piece B c n S) ps"
  shows "fst (decode (feed (decoder_new k n) ps)) =
    (if pieces_span k ps then Inr (concat S)
     else Inl (InsufficientPieces (rank (feed (decoder_new k n) ps)) k))"
proof -
  let ?D = "feed (decoder_new k n) ps"
  have D: "decoder_after k n ps ?D" "consistent S ?D"
    using decoder_after_consistent[OF assms(1,2,3)] by simp_all
  then have kn: "dec_k ?D = k" "dec_piece_size ?D = n" "decoder_wf ?D" by (simp_all add: decoder_after_def)
  show ?thesis
  proof (cases "pieces_span k ps")
    case True
    then have "rank ?D = dec_k ?D" using decoder_after_span[OF D(1)] kn by simp
    from decode_full[OF kn(3) this D(2)] assms(1,2) kn True show ?thesis by simp
  next
    case False
    then have "rank ?D < dec_k ?D" using decoder_after_span[OF D(1)] rank_le[OF kn(3)] kn by auto
    then show ?thesis using decode_insufficient[of ?D] False kn by simp
  qed
qed

lemma pieces_span_one:
  assumes "coding_vector p = [a]" "a \<noteq> 0"
  shows "pieces_span 1 [p]"
proof -
  have "gspan 1 {..<length [p]} (\<lambda>i. cvf ([p] ! i)) v" for v
    using assms unfolding gspan_def
    by (intro exI[of _ "\<lambda>_. v 0 * inverse (to_gf a)"]) (simp add: cvf_def mult.assoc)
  then show ?thesis by (simp add: pieces_span_def)
qed

theorem decode_correct_witness:
  "fst (decode (feed (decoder_new 1 1) [coded_piece_new \<lparr>b3_hash = \<lambda>x. [], b3_xof = \<lambda>x i. 0\<rparr> (Cid [])
      [1] (vec_comb 1 [[7]] [1]) (compute_tag \<lparr>b3_hash = \<lambda>x. [], b3_xof = \<lambda>x i. 0\<rparr> (HomMacKey []) [1] (vec_comb 1 [[7]] [1]))])) =
   Inr [7]"
proof -
  let ?B = "\<lparr>b3_hash = \<lambda>x. [], b3_xof = \<lambda>x i. 0\<rparr> :: blake3"
  let ?p = "coded_piece_new ?B (Cid []) [1] (vec_comb 1 [[7]] [1]) (compute_tag ?B (HomMacKey []) [1] (vec_comb 1 [[7]] [1]))"
  have "list_all (valid_piece ?B (Cid []) 1 [[7]]) [?p]"
    by (simp add: valid_piece_def verify_mac_verify_tag) (simp add: verify_tag_def)
  moreover have "pieces_span 1 [?p]" by (rule pieces_span_one[of _ 1]) simp_all
  ultimately show ?thesis using decode_correct[of "[[7]]" 1 1 ?B "Cid []" "[?p]"] by simp
qed

end
