(* ===== verification/Rlnc_Recoder.thy ===== *)
theory Rlnc_Recoder
  imports Rlnc_Decoder
begin

text \<open>
  The recoder of \<open>craftec-rlnc/src/recoder.rs\<close>: a fresh random combination of coded pieces,
  with the tags combined homomorphically.  The main result is that recoding keeps validity: a
  recoded piece is again a valid piece of the generation, so decoding does not distinguish it
  from an encoded one.
\<close>

section \<open>Definitions\<close>

definition recode ::
  "blake3 \<Rightarrow> 'g rng_api \<Rightarrow> coded_piece list \<Rightarrow> 'g \<Rightarrow> (coded_piece, rlnc_error) result \<times> 'g" where
  "recode B R pieces g =
     (if length pieces < 2 then (Inl (InsufficientRecodeInputs (length pieces)), g)
      else let c = cid (pieces ! 0) in
        if list_ex (\<lambda>p. cid p \<noteq> c) (drop 1 pieces) then (Inl MismatchedCids, g)
        else let k = length (coding_vector (pieces ! 0));
                 data_len = length (data (pieces ! 0));
                 (scalars, g') = draw_vec R (length pieces) g;
                 new_cv = foldl (\<lambda>acc (piece, scalar). gf_vec_mul_add acc (coding_vector piece) scalar)
                            (replicate k 0) (zip pieces scalars);
                 new_data = foldl (\<lambda>acc (piece, scalar). gf_vec_mul_add acc (data piece) scalar)
                            (replicate data_len 0) (zip pieces scalars);
                 tags = map hommac_tag pieces;
                 hom_mac = combine_tags (HomMacKey (cid_bytes c)) tags scalars
             in (Inr (coded_piece_new B c new_cv new_data hom_mac), g'))"

section \<open>Recoding as a linear combination\<close>

lemma foldl_zip_map:
  "foldl (\<lambda>acc (piece, s). f acc (h piece) s) z (zip ps ss) = foldl (\<lambda>acc (v, c). f acc v c) z (zip (map h ps) ss)"
  by (induction ps arbitrary: ss z) (auto simp: zip_Cons1 split: list.splits)

lemma recode_eq:
  assumes "2 \<le> length ps" "\<forall>p \<in> set ps. cid p = c" "draw_vec R (length ps) g = (ss, g')"
  shows "recode B R ps g = (Inr (coded_piece_new B c
      (vec_comb (length (coding_vector (ps ! 0))) (map coding_vector ps) ss)
      (vec_comb (length (data (ps ! 0))) (map data ps) ss)
      (combine_tags (HomMacKey (cid_bytes c)) (map hommac_tag ps) ss)), g')"
proof -
  have "ps ! 0 \<in> set ps" using assms(1) by (intro nth_mem) auto
  then have c: "cid (ps ! 0) = c" using assms(2) by blast
  have "\<not> list_ex (\<lambda>p. cid p \<noteq> c) (drop 1 ps)"
    using assms(2) set_drop_subset[of 1 ps] by (auto simp: list_ex_iff)
  then show ?thesis using assms(1,3) c
    by (simp add: recode_def Let_def vec_comb_def 
        foldl_zip_map[where f = gf_vec_mul_add and h = coding_vector]
        foldl_zip_map[where f = gf_vec_mul_add and h = data])
qed

lemma map_valid_pieces:
  assumes "list_all (valid_piece B c n S) ps"
  shows "map data ps = map (vec_comb n S) (map coding_vector ps)"
    "map hommac_tag ps = map2 (compute_tag B (HomMacKey (cid_bytes c))) (map coding_vector ps) (map data ps)"
    "all_len (length S) (map coding_vector ps)" "all_len n (map data ps)"
  using assms
  by (induction ps) (auto simp: valid_piece_def verify_mac_verify_tag verify_tag_def)

lemma recode_valid:
  assumes "list_all (valid_piece B c n S) ps" "2 \<le> length ps" "all_len n S"
  shows "\<exists>p g'. recode B R ps g = (Inr p, g') \<and> valid_piece B c n S p"
proof -
  obtain ss g' where d: "draw_vec R (length ps) g = (ss, g')" by (cases "draw_vec R (length ps) g")
  have ss: "length ss = length ps" using draw_vec_facts(1)[of R "length ps" g] d by simp
  have mem: "ps ! 0 \<in> set ps" using assms(2) by (intro nth_mem) auto
  then have l: "length (coding_vector (ps ! 0)) = length S" "length (data (ps ! 0)) = n"
    using assms(1) by (auto simp: list_all_iff valid_piece_def)
  have c: "\<forall>p \<in> set ps. cid p = c" using assms(1) by (auto simp: list_all_iff valid_piece_def)
  note m = map_valid_pieces[OF assms(1)]
  let ?cv = "vec_comb (length S) (map coding_vector ps) ss" and ?d = "vec_comb n (map data ps) ss"
  have "?d = vec_comb n S ?cv"
    unfolding m(1) by (rule vec_comb_vec_comb) (use m(3) ss assms(3) in simp_all)
  moreover have "combine_tags (HomMacKey (cid_bytes c)) (map hommac_tag ps) ss = compute_tag B (HomMacKey (cid_bytes c)) ?cv ?d"
    unfolding m(2) by (rule combine_tags_compute_tag) (use m(3,4) ss in simp_all)
  ultimately have "valid_piece B c n S (coded_piece_new B c ?cv ?d
      (combine_tags (HomMacKey (cid_bytes c)) (map hommac_tag ps) ss))"
    by (simp add: valid_piece_def verify_mac_verify_tag) (simp add: verify_tag_def)
  then show ?thesis using recode_eq[OF assms(2) c d, of B] l by simp
qed

section \<open>Properties\<close>

text \<open>
  C4. Recoding any two or more valid pieces of a generation succeeds and gives a valid piece of
  the same generation: its data is the combination of the original sources with its coding
  vector, and its combined tag and its identifier verify, without access to the sources.
\<close>

theorem recode_correct:
  assumes "list_all (valid_piece B c n S) ps" "2 \<le> length ps" "all_len n S"
  shows "case fst (recode B R ps g) of Inl e \<Rightarrow> False | Inr p \<Rightarrow> valid_piece B c n S p"
  using recode_valid[OF assms, of R g] by auto

theorem recode_correct_witness:
  "let B = \<lparr>b3_hash = \<lambda>x. replicate 32 0, b3_xof = \<lambda>x i. of_nat i\<rparr>;
       R = \<lparr>rng_gen = \<lambda>g::nat. (of_nat g, Suc g), rng_range = \<lambda>lo hi g. (lo, g)\<rparr>;
       e = \<lparr>enc_k = 1, piece_size = 1, original_pieces = [[7]], enc_cid = Cid []\<rparr>;
       ps = fst (encode_n B R e 2 0)
   in case fst (recode B R ps 3) of Inl e \<Rightarrow> False | Inr p \<Rightarrow> valid_piece B (Cid []) 1 [[7]] p"
proof -
  let ?B = "\<lparr>b3_hash = \<lambda>x. replicate 32 0, b3_xof = \<lambda>x i. of_nat i\<rparr>"
  let ?R = "\<lparr>rng_gen = \<lambda>g::nat. (of_nat g, Suc g), rng_range = \<lambda>lo hi g. (lo, g)\<rparr>"
  let ?e = "\<lparr>enc_k = 1, piece_size = 1, original_pieces = [[7]], enc_cid = Cid []\<rparr>"
  have "encoder_wf ?e" by (simp add: encoder_wf_def)
  from encode_n_valid[OF this, of ?B ?R 2 0]
  have "list_all (valid_piece ?B (Cid []) 1 [[7]]) (fst (encode_n ?B ?R ?e 2 0))"
    "2 \<le> length (fst (encode_n ?B ?R ?e 2 0))" by simp_all
  from recode_correct[OF this, of ?R 3] show ?thesis unfolding Let_def by simp
qed

text \<open>
  The error branches of recoding: fewer than two inputs give \<open>InsufficientRecodeInputs\<close>,
  and two or more inputs with different content identifiers give \<open>MismatchedCids\<close>; with neither
  condition recoding returns a piece.  The generator is advanced only on success.
\<close>

theorem recode_errors:
  "(if length ps < 2 then recode B R ps g = (Inl (InsufficientRecodeInputs (length ps)), g)
    else if \<exists>p q. p \<in> set ps \<and> q \<in> set ps \<and> cid p \<noteq> cid q then recode B R ps g = (Inl MismatchedCids, g)
    else is_ok (fst (recode B R ps g)))"
proof (cases "length ps < 2")
  case True
  then show ?thesis by (simp add: recode_def)
next
  case False
  then obtain p0 rest where ps: "ps = p0 # rest" by (cases ps) auto
  show ?thesis
  proof (cases "\<exists>p q. p \<in> set ps \<and> q \<in> set ps \<and> cid p \<noteq> cid q")
    case True
    then obtain p q where "p \<in> set ps" "q \<in> set ps" "cid p \<noteq> cid q" by blast
    then have "list_ex (\<lambda>p. cid p \<noteq> cid p0) rest"
      unfolding ps list_ex_iff by (cases "cid p = cid p0") (auto intro: bexI[of _ q] bexI[of _ p])
    then have "recode B R ps g = (Inl MismatchedCids, g)" using False by (simp add: recode_def ps)
    with False True show ?thesis by (simp only: if_False if_True)
  next
    case same: False
    obtain ss g' where d: "draw_vec R (length ps) g = (ss, g')" by (cases "draw_vec R (length ps) g")
    have c: "\<forall>p \<in> set ps. cid p = cid p0" using same unfolding ps by auto
    have "is_ok (fst (recode B R ps g))" using False recode_eq[OF _ c d] by simp
    with False same show ?thesis by (simp only: if_False)
  qed
qed

end
