(* ===== verification/Rlnc_Engine.thy ===== *)
theory Rlnc_Engine
  imports Rlnc_Recoder F64
begin

text \<open>
  The concurrent engine of \<open>craftec-rlnc/src/engine.rs\<close> with the redundancy formula of
  \<open>encoder.rs\<close>: encoding to the target number of pieces, decoding from a mixed bag of pieces,
  recoding, the operation counters, and the semaphore that bounds the operations in flight.
\<close>

section \<open>The redundancy formula\<close>

definition redundancy :: "nat \<Rightarrow> f64" where
  "redundancy k = fadd (Fin 2) (fdiv (Fin 16) (u32_as_f64 k))"

definition target_n :: "nat \<Rightarrow> nat" where
  "target_n k = (let n = fmul (u32_as_f64 k) (redundancy k) in f64_as_u32 (fceil n))"

definition target_pieces :: "rlnc_encoder \<Rightarrow> nat" where
  "target_pieces e = target_n (enc_k e)"

section \<open>The engine\<close>

record rlnc_metrics =
  encodes :: u64
  decodes :: u64
  recodes :: u64
  encode_bytes :: u64

definition metrics_snapshot :: "rlnc_metrics \<Rightarrow> u64 \<times> u64 \<times> u64 \<times> u64" where
  "metrics_snapshot m = (encodes m, decodes m, recodes m, encode_bytes m)"

text \<open>The semaphore of \<open>tokio\<close> is its documented state: the free permits and the closed flag.\<close>

record rlnc_engine =
  permits :: nat
  sem_closed :: bool
  metrics :: rlnc_metrics

definition MAX_CONCURRENCY :: nat where
  "MAX_CONCURRENCY = 8"

definition engine_new :: rlnc_engine where
  "engine_new = \<lparr>permits = MAX_CONCURRENCY, sem_closed = False,
     metrics = \<lparr>encodes = 0, decodes = 0, recodes = 0, encode_bytes = 0\<rparr>\<rparr>"

text \<open>
  The bodies of the three operations, run while a permit is held.  \<open>fetch_add\<close> wraps around at
  64 bits.
\<close>

definition encode_body ::
  "blake3 \<Rightarrow> 'g rng_api \<Rightarrow> rlnc_metrics \<Rightarrow> bytes \<Rightarrow> nat \<Rightarrow> 'g \<Rightarrow>
   (coded_piece list, rlnc_error) result \<times> rlnc_metrics \<times> 'g" where
  "encode_body B R m d k g =
     (case encoder_new B d k of
        Inl e \<Rightarrow> (Inl e, m, g)
      | Inr enc \<Rightarrow>
          let n = target_pieces enc; (ps, g') = encode_n B R enc n g
          in (Inr ps, m\<lparr>encodes := encodes m + 1, encode_bytes := encode_bytes m + of_nat (length d)\<rparr>, g'))"

text \<open>The feeding loop: malformed pieces are skipped, other errors abort, full rank stops.\<close>

fun feed_until ::
  "('d \<Rightarrow> 'p \<Rightarrow> (bool, 'e) result \<times> 'd) \<Rightarrow> ('d \<Rightarrow> bool) \<Rightarrow> ('e \<Rightarrow> bool) \<Rightarrow> 'd \<Rightarrow> 'p list \<Rightarrow> ('d, 'e) result" where
  "feed_until add ready skip D [] = Inr D"
| "feed_until add ready skip D (p # ps) =
     (case add D p of
        (Inr _, D') \<Rightarrow> if ready D' then Inr D' else feed_until add ready skip D' ps
      | (Inl e, D') \<Rightarrow>
          if skip e then (if ready D' then Inr D' else feed_until add ready skip D' ps) else Inl e)"

fun skip_malformed :: "rlnc_error \<Rightarrow> bool" where
  "skip_malformed (CodingVectorLengthMismatch _ _) = True"
| "skip_malformed (InvalidPieceSize _ _) = True"
| "skip_malformed _ = False"

definition decode_body ::
  "rlnc_metrics \<Rightarrow> nat \<Rightarrow> nat \<Rightarrow> coded_piece list \<Rightarrow> (bytes, rlnc_error) result \<times> rlnc_metrics" where
  "decode_body m k ps pieces =
     (case feed_until add_piece is_decodable skip_malformed (decoder_new k ps) pieces of
        Inl e \<Rightarrow> (Inl e, m)
      | Inr D \<Rightarrow>
          (case fst (decode D) of
             Inl e \<Rightarrow> (Inl e, m)
           | Inr out \<Rightarrow> (Inr out, m\<lparr>decodes := decodes m + 1\<rparr>)))"

definition recode_body ::
  "blake3 \<Rightarrow> 'g rng_api \<Rightarrow> rlnc_metrics \<Rightarrow> coded_piece list \<Rightarrow> 'g \<Rightarrow>
   (coded_piece, rlnc_error) result \<times> rlnc_metrics \<times> 'g" where
  "recode_body B R m pieces g =
     (case recode B R pieces g of
        (Inl e, g') \<Rightarrow> (Inl e, m, g')
      | (Inr p, g') \<Rightarrow> (Inr p, m\<lparr>recodes := recodes m + 1\<rparr>, g'))"

section \<open>Progressive decoders\<close>

text \<open>
  What the feeding loop needs from a decoder: \<open>inv ps D\<close> relates the state to the well-formed
  pieces consumed, a well-formed piece extends the relation, a malformed one is refused with a
  skippable error and changes nothing, and a ready decoder already accounts for every further
  well-formed piece.
\<close>

locale progressive_decoder =
  fixes add :: "'d \<Rightarrow> 'p \<Rightarrow> (bool, 'e) result \<times> 'd"
    and ready :: "'d \<Rightarrow> bool" and skip :: "'e \<Rightarrow> bool"
    and fits :: "'p \<Rightarrow> bool" and inv :: "'p list \<Rightarrow> 'd \<Rightarrow> bool"
  assumes add_fits: "inv ps D \<Longrightarrow> fits p \<Longrightarrow> \<exists>b. fst (add D p) = Inr b \<and> inv (ps @ [p]) (snd (add D p))"
    and add_misfits: "inv ps D \<Longrightarrow> \<not> fits p \<Longrightarrow> \<exists>e. add D p = (Inl e, D) \<and> skip e"
    and ready_inv: "inv ps D \<Longrightarrow> ready D \<Longrightarrow> fits p \<Longrightarrow> inv (ps @ [p]) D"
begin

lemma ready_inv_list: "inv ps D \<Longrightarrow> ready D \<Longrightarrow> inv (ps @ filter fits qs) D"
proof (induction qs arbitrary: ps)
  case Nil
  then show ?case by simp
next
  case (Cons q qs)
  show ?case
  proof (cases "fits q")
    case True
    then show ?thesis using Cons.IH[OF ready_inv[OF Cons.prems True] Cons.prems(2)] by simp
  next
    case False
    then show ?thesis using Cons by simp
  qed
qed

lemma feed_until_inv:
  "inv ps D \<Longrightarrow> \<exists>D'. feed_until add ready skip D qs = Inr D' \<and> inv (ps @ filter fits qs) D'"
proof (induction qs arbitrary: ps D)
  case Nil
  then show ?case by simp
next
  case (Cons q qs)
  show ?case
  proof (cases "fits q")
    case True
    obtain b where b: "add D q = (Inr b, snd (add D q))" "inv (ps @ [q]) (snd (add D q))"
      using add_fits[OF Cons.prems True] by (metis prod.collapse)
    show ?thesis using Cons.IH[OF b(2)] ready_inv_list[OF b(2), of qs] b(1) True
      by (cases "ready (snd (add D q))") (auto split: prod.splits)
  next
    case False
    obtain e where e: "add D q = (Inl e, D)" "skip e" using add_misfits[OF Cons.prems False] by blast
    show ?thesis using Cons.IH[OF Cons.prems] ready_inv_list[OF Cons.prems, of qs] e False
      by (cases "ready D") simp_all
  qed
qed

end

definition fits_dims :: "nat \<Rightarrow> nat \<Rightarrow> coded_piece \<Rightarrow> bool" where
  "fits_dims k n p \<longleftrightarrow> length (coding_vector p) = k \<and> length (data p) = n"

text \<open>The invariant of the loop: the decoder invariant, and agreement with \<open>S\<close> if all pieces agree.\<close>

definition loop_inv :: "nat \<Rightarrow> nat \<Rightarrow> bytes list \<Rightarrow> coded_piece list \<Rightarrow> rlnc_decoder \<Rightarrow> bool" where
  "loop_inv k n S ps D \<longleftrightarrow> decoder_after k n ps D \<and>
     ((\<forall>p \<in> set ps. agrees k n S (\<lambda>j. to_gf ((coding_vector p @ data p) ! j))) \<longrightarrow> consistent S D)"

lemma loop_inv_new: "loop_inv k n S [] (decoder_new k n)"
  by (simp add: loop_inv_def decoder_after_new consistent_def)

lemma ready_decoder_after:
  assumes "decoder_after k n ps D" "is_decodable D"
  shows "decoder_after k n (ps @ [p]) D"
proof -
  have D: "decoder_wf D" "dec_k D = k" using assms(1) by (simp_all add: decoder_after_def)
  have "\<forall>v. dspan D v" using full_rank_span[OF D(1)] assms(2) by (simp add: is_decodable_def)
  then show ?thesis using assms(1) gspan_snoc[of k ps _ p]
    unfolding decoder_after_def rows_in_def by blast
qed

interpretation pd: progressive_decoder add_piece is_decodable skip_malformed "fits_dims k n" "loop_inv k n S"
  for k n S
proof
  fix ps D p
  assume i: "loop_inv k n S ps D"
  then have D: "decoder_after k n ps D" "decoder_wf D" "dec_k D = k" "dec_piece_size D = n"
    by (simp_all add: loop_inv_def decoder_after_def)
  show "\<exists>b. fst (add_piece D p) = Inr b \<and> loop_inv k n S (ps @ [p]) (snd (add_piece D p))" if "fits_dims k n p"
  proof -
    have fit: "piece_fits D p" using that D by (simp add: fits_dims_def piece_fits_def)
    have "consistent S (snd (add_piece D p))"
      if "\<forall>q \<in> set (ps @ [p]). agrees k n S (\<lambda>j. to_gf ((coding_vector q @ data q) ! j))"
      using add_piece_consistent[OF D(2) fit] that i D(3,4) by (simp add: loop_inv_def)
    then show ?thesis using add_piece_result(1)[OF D(2) fit] decoder_after_add[OF D(1) fit]
      by (simp add: loop_inv_def)
  qed
  show "\<exists>e. add_piece D p = (Inl e, D) \<and> skip_malformed e" if "\<not> fits_dims k n p"
    using that D(3,4) by (auto simp: fits_dims_def add_piece_def)
  show "loop_inv k n S (ps @ [p]) D" if "is_decodable D" "fits_dims k n p"
    using i ready_decoder_after[OF D(1) that(1)] by (simp add: loop_inv_def)
qed

lemma decode_body_cases:
  assumes "length S = k" "all_len n S"
    and "\<forall>p \<in> set ps. fits_dims k n p \<longrightarrow> agrees k n S (\<lambda>j. to_gf ((coding_vector p @ data p) ! j))"
  shows "if pieces_span k (filter (fits_dims k n) ps)
    then decode_body m k n ps = (Inr (concat S), m\<lparr>decodes := decodes m + 1\<rparr>)
    else \<exists>r < k. decode_body m k n ps = (Inl (InsufficientPieces r k), m)"
proof -
  obtain D where D: "feed_until add_piece is_decodable skip_malformed (decoder_new k n) ps = Inr D"
    "loop_inv k n S (filter (fits_dims k n) ps) D"
    using pd.feed_until_inv[OF loop_inv_new[of k n S], of ps] by auto
  then have a: "decoder_after k n (filter (fits_dims k n) ps) D" "consistent S D"
    using assms(3) by (simp_all add: loop_inv_def)
  then have kn: "decoder_wf D" "dec_k D = k" "dec_piece_size D = n" by (simp_all add: decoder_after_def)
  note sp = decoder_after_span[OF a(1)]
  show ?thesis
  proof (cases "pieces_span k (filter (fits_dims k n) ps)")
    case True
    then have r: "rank D = dec_k D" using sp kn by simp
    have "length S = dec_k D" "all_len (dec_piece_size D) S" using assms kn by simp_all
    from decode_full[OF kn(1) r a(2) this] True D(1) show ?thesis by (simp add: decode_body_def)
  next
    case False
    then have r: "rank D < dec_k D" using sp rank_le[OF kn(1)] kn by auto
    from decode_insufficient[OF r] r False D(1) kn show ?thesis by (auto simp: decode_body_def)
  qed
qed

section \<open>The target number of pieces\<close>

lemma target_n_rat:
  "0 < k \<Longrightarrow> target_n k =
     min (nat \<lceil>rnd (of_nat k * rnd (2 + rnd (16 / of_nat k)))\<rceil>) (2 ^ 32 - 1)"
  by (simp add: target_n_def redundancy_def u32_as_f64_def)

lemma target_n_error:
  assumes "0 < k" "k < 2 ^ 32"
  shows "\<bar>rnd (of_nat k * rnd (2 + rnd (16 / of_nat k))) - (2 * of_nat k + 16 :: rat)\<bar> < 1"
proof -
  define K where "K = (of_nat k :: rat)"
  define e where "e = (1 / 2 ^ 53 :: rat)"
  have K: "1 \<le> K" "K < 2 ^ 32" using assms by (simp_all add: K_def Suc_le_eq of_nat_less_iff[of k "2 ^ 32", where 'a = rat, simplified])
  define a where "a = rnd (16 / K)"
  define b where "b = rnd (2 + a)"
  define c where "c = rnd (K * b)"
  have a: "\<bar>a - 16 / K\<bar> \<le> 16 / K * e" "0 < a"
    using rnd_error[of "16 / K"] rnd_pos[of "16 / K"] K by (simp_all add: a_def e_def)
  have b: "\<bar>b - (2 + a)\<bar> \<le> (2 + a) * e" "0 < b"
    using rnd_error[of "2 + a"] rnd_pos[of "2 + a"] a by (simp_all add: b_def e_def)
  have c: "\<bar>c - K * b\<bar> \<le> K * b * e"
    using rnd_error[of "K * b"] b K by (simp add: c_def e_def)
  have "K * a \<le> 17" and Ka: "\<bar>K * a - 16\<bar> \<le> 16 * e"
  proof -
    have "K * a - 16 = K * (a - 16 / K)" using K by (simp add: right_diff_distrib)
    then have "\<bar>K * a - 16\<bar> = K * \<bar>a - 16 / K\<bar>" using K by (simp add: abs_mult)
    also have "\<dots> \<le> K * (16 / K * e)" using a K by (intro mult_left_mono) auto
    also have "\<dots> = 16 * e" using K by simp
    finally show "\<bar>K * a - 16\<bar> \<le> 16 * e" .
    moreover have "16 * e \<le> 1" by (simp add: e_def)
    ultimately show "K * a \<le> 17" by linarith
  qed
  have Kb: "\<bar>K * b - (2 * K + K * a)\<bar> \<le> (2 * K + K * a) * e"
  proof -
    have "K * b - (2 * K + K * a) = K * (b - (2 + a))" by (simp add: algebra_simps)
    then have "\<bar>K * b - (2 * K + K * a)\<bar> = K * \<bar>b - (2 + a)\<bar>" using K by (simp add: abs_mult)
    also have "\<dots> \<le> K * ((2 + a) * e)" using b K by (intro mult_left_mono) auto
    finally show ?thesis by (simp add: algebra_simps)
  qed
  have "(2 * K + K * a) * e \<le> (2 * K + 17) * e" using \<open>K * a \<le> 17\<close> by (simp add: e_def)
  moreover have "(2 * K + 17) * e < 1 / 4" using K by (simp add: e_def)
  moreover have "16 * e < 1 / 4" by (simp add: e_def)
  ultimately have kb: "\<bar>K * b - (2 * K + 16)\<bar> < 1 / 2" using Ka Kb by linarith
  then have "K * b \<le> 2 * K + 17" by linarith
  then have "K * b * e \<le> (2 * K + 17) * e" by (simp add: e_def)
  then have "\<bar>c - (2 * K + 16)\<bar> < 1" using kb c \<open>(2 * K + 17) * e < 1 / 4\<close> by linarith
  then show ?thesis by (simp add: c_def b_def a_def K_def)
qed

lemma target_n_cases:
  assumes k: "0 < k \<and> 2 * k + 17 < 2 ^ 32"
  shows "target_n k \<in> {2 * k + 16, 2 * k + 17}"
proof -
  let ?x = "rnd (of_nat k * rnd (2 + rnd (16 / of_nat k))) :: rat"
  have "of_nat (2 * k + 15) < ?x" "?x < of_nat (2 * k + 17)"
    using target_n_error[of k] k by (auto simp: abs_less_iff)
  then have "int (2 * k + 15) < \<lceil>?x\<rceil>" "\<lceil>?x\<rceil> \<le> int (2 * k + 17)"
    by (simp_all only: less_ceiling_iff ceiling_le_iff of_int_of_nat_eq less_imp_le)
  then show ?thesis using k by (auto simp: target_n_rat min_def)
qed

lemma target_n_32: "target_n 32 = 80"
proof -
  have "rnd (16 / 32) = 1 / 2" "rnd (2 + 1 / 2) = 5 / 2"
    using rnd_eqI[of "- 53" "16 / 32" 4503599627370496] rnd_eqI[of "- 51" "2 + 1 / 2" 5629499534213120]
    by (simp_all add: pow2_def)
  then have "rnd (32 * rnd (2 + rnd (16 / 32))) = 80" using rnd_of_nat[of 80] by (simp only:) simp
  then show ?thesis using target_n_rat[of 32] by (simp only: of_nat_numeral) simp
qed

text \<open>
  For every generation size for which the count fits 32 bits the target number of pieces is
  \<open>2 k + 16\<close> or, when the double-precision product is rounded up across the integer, \<open>2 k + 17\<close>.
  The exact value of \<open>ceil(k * (2 + 16 / k))\<close> is \<open>2 k + 16\<close>; for \<open>k = 32\<close> the code gives 80 and for
  \<open>k = 22\<close> it gives 61 instead of 60.
\<close>

theorem target_n_bounds:
  "(0 < k \<and> 2 * k + 17 < 2 ^ 32 \<longrightarrow> target_n k \<in> {2 * k + 16, 2 * k + 17}) \<and>
   target_n 32 = 80 \<and> target_n 22 = 61 \<and> target_n 0 = 0"
proof (intro conjI impI)
  assume "0 < k \<and> 2 * k + 17 < 2 ^ 32"
  then show "target_n k \<in> {2 * k + 16, 2 * k + 17}" by (rule target_n_cases)
next
  show "target_n 32 = 80" by (rule target_n_32)
next
  have "rnd (16 / 22) = 6550690367084358 / 2 ^ 53"
    using rnd_eqI[of "- 53" "16 / 22" 6550690367084358] by (simp add: pow2_def)
  moreover have "rnd (2 + 6550690367084358 / 2 ^ 53) = 6141272219141586 / 2 ^ 51"
    using rnd_tieI[of "- 51" "2 + 6550690367084358 / 2 ^ 53" 6141272219141585] by (simp add: pow2_def)
  moreover have "rnd (22 * (6141272219141586 / 2 ^ 51)) = 8444249301319681 / 2 ^ 47"
    using rnd_eqI[of "- 47" "22 * (6141272219141586 / 2 ^ 51)" 8444249301319681] by (simp add: pow2_def)
  moreover have "\<lceil>8444249301319681 / 2 ^ 47 :: rat\<rceil> = 61" by (simp add: ceiling_eq_iff)
  ultimately have "\<lceil>rnd (22 * rnd (2 + rnd (16 / 22)))\<rceil> = 61" by (simp only:)
  then show "target_n 22 = 61" using target_n_rat[of 22] by (simp only: of_nat_numeral) simp
next
  show "target_n 0 = 0"
    by (simp add: target_n_def redundancy_def u32_as_f64_def)
qed

theorem target_n_bounds_witness: "0 < (40 :: nat) \<and> target_n 40 \<in> {96, 97}"
  using conjunct1 [OF target_n_bounds, of 40] by simp

section \<open>Round trip\<close>



section \<open>Concurrent operation\<close>

text \<open>
  The engine as a transition system.  An operation is submitted, waits for a permit, runs its
  body while it holds the permit, and gives the permit back when it returns, also on an error:
  the permit is a guard value dropped at the end of the function.  The interleaving of the
  operations is arbitrary.  Nothing in the crate closes the semaphore.
\<close>

datatype engine_op = OpEncode bytes nat | OpDecode nat nat "coded_piece list" | OpRecode "coded_piece list"

definition run_body ::
  "blake3 \<Rightarrow> 'g rng_api \<Rightarrow> rlnc_metrics \<Rightarrow> engine_op \<Rightarrow> 'g \<Rightarrow> bool \<times> rlnc_metrics \<times> 'g" where
  "run_body B R m op g =
     (case op of
        OpEncode d k \<Rightarrow> (case encode_body B R m d k g of (r, m', g') \<Rightarrow> (is_ok r, m', g'))
      | OpDecode k n ps \<Rightarrow> (case decode_body m k n ps of (r, m') \<Rightarrow> (is_ok r, m', g))
      | OpRecode ps \<Rightarrow> (case recode_body B R m ps g of (r, m', g') \<Rightarrow> (is_ok r, m', g')))"

record 'g engine_state =
  es_engine :: rlnc_engine
  es_waiting :: "engine_op list"
  es_running :: "engine_op list"
  es_done :: "(engine_op \<times> bool) list"
  es_rng :: 'g

inductive engine_step :: "blake3 \<Rightarrow> 'g rng_api \<Rightarrow> 'g engine_state \<Rightarrow> 'g engine_state \<Rightarrow> bool"
  for B :: blake3 and R :: "'g rng_api" where
  submit: "engine_step B R s (s\<lparr>es_waiting := es_waiting s @ [op]\<rparr>)"
| acquire: "es_waiting s = xs @ op # ys \<Longrightarrow> 0 < permits (es_engine s) \<Longrightarrow> \<not> sem_closed (es_engine s) \<Longrightarrow>
    engine_step B R s (s\<lparr>es_waiting := xs @ ys, es_running := op # es_running s,
      es_engine := (es_engine s)\<lparr>permits := permits (es_engine s) - 1\<rparr>\<rparr>)"
| rejected: "es_waiting s = xs @ op # ys \<Longrightarrow> sem_closed (es_engine s) \<Longrightarrow>
    engine_step B R s (s\<lparr>es_waiting := xs @ ys, es_done := (op, False) # es_done s\<rparr>)"
| finish: "es_running s = xs @ op # ys \<Longrightarrow> run_body B R (metrics (es_engine s)) op (es_rng s) = (ok, m, g) \<Longrightarrow>
    engine_step B R s (s\<lparr>es_running := xs @ ys, es_done := (op, ok) # es_done s, es_rng := g,
      es_engine := (es_engine s)\<lparr>permits := permits (es_engine s) + 1, metrics := m\<rparr>\<rparr>)"

definition engine_init :: "'g \<Rightarrow> 'g engine_state" where
  "engine_init g = \<lparr>es_engine = engine_new, es_waiting = [], es_running = [], es_done = [], es_rng = g\<rparr>"

inductive_cases engine_stepE: "engine_step B R s t"

inductive engine_reachable :: "blake3 \<Rightarrow> 'g rng_api \<Rightarrow> 'g \<Rightarrow> 'g engine_state \<Rightarrow> bool"
  for B R g where
  init: "engine_reachable B R g (engine_init g)"
| step: "engine_reachable B R g s \<Longrightarrow> engine_step B R s t \<Longrightarrow> engine_reachable B R g t"

text \<open>What the counters should hold after the finished operations.\<close>

fun count_op :: "engine_op \<times> bool \<Rightarrow> rlnc_metrics \<Rightarrow> rlnc_metrics" where
  "count_op (op, False) m = m"
| "count_op (OpEncode d k, True) m = m\<lparr>encodes := encodes m + 1, encode_bytes := encode_bytes m + of_nat (length d)\<rparr>"
| "count_op (OpDecode k n ps, True) m = m\<lparr>decodes := decodes m + 1\<rparr>"
| "count_op (OpRecode ps, True) m = m\<lparr>recodes := recodes m + 1\<rparr>"

lemma run_body_metrics: "run_body B R m op g = (ok, m', g') \<Longrightarrow> m' = count_op (op, ok) m"
  by (cases op)
     (auto simp: run_body_def encode_body_def decode_body_def recode_body_def Let_def
        split: sum.splits prod.splits)

lemma engine_invariant:
  "engine_reachable B R g s \<Longrightarrow>
   permits (es_engine s) + length (es_running s) = MAX_CONCURRENCY \<and> \<not> sem_closed (es_engine s) \<and>
   metrics (es_engine s) = foldr count_op (es_done s) (metrics engine_new)"
proof (induction rule: engine_reachable.induct)
  case init
  then show ?case by (simp add: engine_init_def engine_new_def)
next
  case (step s t)
  from step(2,3) show ?case
    by (auto elim!: engine_stepE dest: run_body_metrics)
qed

text \<open>
  In every reachable state of the engine, whatever the interleaving of encode, decode and
  recode calls, at most eight operations run and free permits plus running operations are
  always eight: no permit leaks on an error path.  The counters are exactly those of the
  finished operations that succeeded, and no operation ever fails with \<open>SemaphoreError\<close>.
\<close>

theorem engine_bounded_concurrency:
  assumes "engine_reachable B R g s"
  shows "length (es_running s) \<le> 8 \<and> permits (es_engine s) + length (es_running s) = 8 \<and>
    metrics (es_engine s) = foldr count_op (es_done s) (metrics engine_new) \<and> \<not> sem_closed (es_engine s)"
  using engine_invariant[OF assms] by (auto simp: MAX_CONCURRENCY_def)

theorem engine_bounded_concurrency_witness:
  "let B = \<lparr>b3_hash = \<lambda>x. replicate 32 0, b3_xof = \<lambda>x i. 0\<rparr>;
       R = \<lparr>rng_gen = \<lambda>g::nat. (1, g), rng_range = \<lambda>lo hi g. (lo, g)\<rparr>;
       s = (engine_init 0)\<lparr>es_waiting := [OpRecode []]\<rparr>
   in engine_reachable B R 0 s \<and> length (es_running s) \<le> 8"
proof -
  let ?B = "\<lparr>b3_hash = \<lambda>x. replicate 32 0, b3_xof = \<lambda>x i. 0\<rparr>"
  let ?R = "\<lparr>rng_gen = \<lambda>g::nat. (1, g), rng_range = \<lambda>lo hi g. (lo, g)\<rparr>"
  have "engine_step ?B ?R (engine_init 0) ((engine_init 0)\<lparr>es_waiting := [OpRecode []]\<rparr>)"
    using engine_step.submit[of ?B ?R "engine_init 0" "OpRecode []"] by (simp add: engine_init_def)
  then have "engine_reachable ?B ?R 0 ((engine_init 0)\<lparr>es_waiting := [OpRecode []]\<rparr>)"
    by (rule engine_reachable.step[OF engine_reachable.init])
  with engine_bounded_concurrency[OF this] show ?thesis unfolding Let_def by blast
qed

end
