(* ===== verification/Repair.thy ===== *)
theory Repair
  imports Coordinator Scanner Swim ObjStore Rlnc_Engine
begin

text \<open>
  The repair executor (craftec-health/src/repair.rs): the election of this node among the holders
  of at least two pieces, the loading of two stored pieces, recoding, the choice of a receiver and
  the sending of the new piece.  The decoder of stored pieces, the random choice and the outcome of
  the network are parameters; the membership table, the tracker, the store and the engine are those
  of the other theories.
\<close>

section \<open>The executor\<close>

datatype health_error =
    HealthInsufficientPieces cid nat nat
  | RepairFailed cid string
  | CoordinatorElectionFailed string
  | ScanFailed string
  | NetworkError string

record ('b, 'c, 'g) repair_api =
  ra_obj :: "('b, 'c) obj_api"
  ra_rng :: "'g rng_api"
  ra_decode :: "bytes \<Rightarrow> coded_piece option"
  ra_lookup :: "cid \<Rightarrow> cid list option"
  ra_choose :: "node_id list \<Rightarrow> node_id"
  ra_sends :: "node_id \<Rightarrow> wire_message \<Rightarrow> bool"

text \<open>The choice of a random element of a slice: \<open>None\<close> when it is empty, else one of its elements.\<close>

definition repair_api_ok :: "('b, 'c, 'g) repair_api \<Rightarrow> bool" where
  "repair_api_ok X \<longleftrightarrow> (\<forall>xs. xs \<noteq> [] \<longrightarrow> ra_choose X xs \<in> set xs)"

definition choose_random :: "('b, 'c, 'g) repair_api \<Rightarrow> node_id list \<Rightarrow> node_id option" where
  "choose_random X xs = (if xs = [] then None else Some (ra_choose X xs))"

record ('b, 'c, 'g) repair_executor =
  re_store :: "('b, 'c) store"
  re_metrics :: rlnc_metrics
  re_rng :: 'g
  re_node_id :: node_id
  re_next_request_id :: u64

definition repair_rankings :: "piece_tracker \<Rightarrow> swim \<Rightarrow> node_id \<Rightarrow> cid \<Rightarrow> node_ranking list" where
  "repair_rankings t sw me c =
     map (\<lambda>h. \<lparr>nr_node_id = ph_node h, nr_uptime_secs = 0, nr_reputation = Fin (1 / 2)\<rparr>)
       (filter (\<lambda>h. ph_node h \<in> set (alive_members sw) \<or> ph_node h = me)
         (filter (\<lambda>h. local_piece_count t c (ph_node h) \<ge> 2) (get_holders t c)))"

text \<open>\<open>saturating_sub\<close> of two 32-bit numbers.\<close>

definition deficit :: "repair_request \<Rightarrow> nat" where
  "deficit r = unat (request_target r) - unat (request_available r)"

fun load_loop ::
  "('b, 'c, 'g) repair_api \<Rightarrow> (cid \<Rightarrow> io_faults) \<Rightarrow> cid list \<Rightarrow> coded_piece list \<Rightarrow> ('b, 'c) store \<Rightarrow>
     coded_piece list \<times> ('b, 'c) store" where
  "load_loop X flt [] pieces s = (pieces, s)"
| "load_loop X flt (pc # pcs) pieces s =
     (if length pieces \<ge> 2 then (pieces, s)
      else case get (ra_obj X) (flt pc) s pc of
        (Inr (Some d), s') \<Rightarrow>
          (case ra_decode X d of
             Some p \<Rightarrow> load_loop X flt pcs (pieces @ [p]) s'
           | None \<Rightarrow> load_loop X flt pcs pieces s')
      | (_, s') \<Rightarrow> load_loop X flt pcs pieces s')"

definition load_local_pieces ::
  "('b, 'c, 'g) repair_api \<Rightarrow> (cid \<Rightarrow> io_faults) \<Rightarrow> cid \<Rightarrow> ('b, 'c) store \<Rightarrow>
     (coded_piece list, health_error) result \<times> ('b, 'c) store" where
  "load_local_pieces X flt c s =
     (case ra_lookup X c of
        None \<Rightarrow> (Inl (HealthInsufficientPieces c 2 0), s)
      | Some pcs \<Rightarrow>
          let (pieces, s') = load_loop X flt pcs [] s
          in if length pieces < 2 then (Inl (HealthInsufficientPieces c 2 (length pieces)), s') else (Inr pieces, s'))"

definition select_distribution_target ::
  "('b, 'c, 'g) repair_api \<Rightarrow> piece_tracker \<Rightarrow> swim \<Rightarrow> node_id \<Rightarrow> cid \<Rightarrow> (node_id, health_error) result" where
  "select_distribution_target X t sw me c =
     (let holder_counts = holders_with_count t c;
          holder_ids = map fst holder_counts;
          alive = alive_members sw;
          one_piece = map fst (filter (\<lambda>e. snd e = 1 \<and> fst e \<in> set alive \<and> fst e \<noteq> me) holder_counts);
          zero_piece = filter (\<lambda>n. n \<notin> set holder_ids \<and> n \<noteq> me) alive;
          fallback = filter (\<lambda>n. n \<noteq> me) alive
      in case choose_random X one_piece of
           Some n \<Rightarrow> Inr n
         | None \<Rightarrow>
             (case choose_random X zero_piece of
                Some n \<Rightarrow> Inr n
              | None \<Rightarrow>
                  (case choose_random X fallback of
                     Some n \<Rightarrow> Inr n
                   | None \<Rightarrow> Inl (RepairFailed c ''no candidate peers available for distribution''))))"

text \<open>
  The result, the message handed to the network if there was one, and the new state.
\<close>

definition execute_repair ::
  "('b, 'c, 'g) repair_api \<Rightarrow> (cid \<Rightarrow> io_faults) \<Rightarrow> piece_tracker \<Rightarrow> swim \<Rightarrow> repair_request \<Rightarrow> ('b, 'c, 'g) repair_executor \<Rightarrow>
     (unit, health_error) result \<times> (node_id \<times> wire_message) option \<times> ('b, 'c, 'g) repair_executor" where
  "execute_repair X flt t sw req re =
     (let c = request_cid req; me = re_node_id re; def = deficit req
      in if def = 0 then (Inr (), None, re)
         else let rankings = repair_rankings t sw me c
           in if rankings = [] then (Inr (), None, re)
              else let ranked = rank_providers rankings;
                       elected = take (min (length ranked) def) ranked
                in if me \<notin> set elected then (Inr (), None, re)
                   else case load_local_pieces X flt c (re_store re) of
                     (Inl e, s') \<Rightarrow> (Inl e, None, re\<lparr>re_store := s'\<rparr>)
                   | (Inr pieces, s') \<Rightarrow>
                       (case recode_body (oa_b3 (ra_obj X)) (ra_rng X) (re_metrics re) pieces (re_rng re) of
                          (r, m', g') \<Rightarrow>
                            let re' = re\<lparr>re_store := s', re_metrics := m', re_rng := g'\<rparr>
                            in case r of
                                 Inl e \<Rightarrow> (Inl (RepairFailed c ''RLNC recode failed''), None, re')
                               | Inr recoded \<Rightarrow>
                                   (case select_distribution_target X t sw me c of
                                      Inl e \<Rightarrow> (Inl e, None, re')
                                    | Inr target \<Rightarrow>
                                        let msg = PieceResponse [recoded] (re_next_request_id re');
                                            re'' = re'\<lparr>re_next_request_id := re_next_request_id re' + 1\<rparr>
                                        in if ra_sends X target msg then (Inr (), Some (target, msg), re'')
                                           else (Inl (RepairFailed c ''piece distribution failed''), Some (target, msg), re''))))"

section \<open>Election\<close>

text \<open>All candidates have the same uptime and reputation, so the ranking is the order of identifiers.\<close>

lemma ranking_ids: "rank_providers (repair_rankings t sw me c) = sort (map nr_node_id (repair_rankings t sw me c))"
proof -
  let ?ps = "repair_rankings t sw me c"
  have same: "nr_uptime_secs p = 0 \<and> nr_reputation p = Fin (1 / 2)" if "p \<in> set ?ps" for p
    using that by (auto simp: repair_rankings_def)
  have "sort_by ranking_cmp ?ps = sort_key rank_key ?ps"
    using same by (intro sort_by_key) auto
  moreover have "sorted (map nr_node_id (sort_key rank_key ?ps))"
  proof -
    have "sorted (map rank_key (sort_key rank_key ?ps))" by (rule sorted_sort_key)
    then have "sorted_wrt (\<lambda>p q. rank_key p \<le> rank_key q) (sort_key rank_key ?ps)" by (simp add: sorted_map)
    then have "sorted_wrt (\<lambda>p q. nr_node_id p \<le> nr_node_id q) (sort_key rank_key ?ps)"
      by (rule sorted_wrt_mono_rel[rotated]) (auto dest!: same simp: rank_key_def)
    then show ?thesis by (simp add: sorted_map)
  qed
  ultimately show ?thesis
    unfolding rank_providers_def by (intro properties_for_sort[symmetric]) simp_all
qed

definition repair_candidates :: "piece_tracker \<Rightarrow> node_id set \<Rightarrow> cid \<Rightarrow> node_id list" where
  "repair_candidates t L c = sort (filter (\<lambda>n. n \<in> L \<and> local_piece_count t c n \<ge> 2) (holder_nodes t c))"

lemma ranking_candidates:
  assumes "set (alive_members sw) = L - {me}" "me \<in> L"
  shows "rank_providers (repair_rankings t sw me c) = repair_candidates t L c"
proof -
  have "map nr_node_id (repair_rankings t sw me c) = filter (\<lambda>n. n \<in> L \<and> local_piece_count t c n \<ge> 2) (holder_nodes t c)"
    using assms by (auto simp: repair_rankings_def holder_nodes_def get_holders_def filter_map comp_def intro!: filter_cong arg_cong[where f = "map ph_node"])
  then show ?thesis by (simp add: ranking_ids repair_candidates_def)
qed

lemma sent_elected:
  assumes "fst (snd (execute_repair X flt t sw req re)) \<noteq> None"
  shows "re_node_id re \<in> set (take (deficit req) (rank_providers (repair_rankings t sw (re_node_id re) (request_cid req))))"
  using assms by (auto simp: execute_repair_def Let_def min_def split: if_splits)

text \<open>
  Election without coordination.  If every node of a live set \<open>L\<close> sees the other nodes of \<open>L\<close> as
  alive and they agree on the tracked pieces, then whatever their stores and networks do, the
  nodes that answer a repair request by sending a piece are among the first of the live holders of
  at least two pieces in the order of identifiers, and at most as many as pieces are missing.
\<close>

theorem repair_election_bounded:
  assumes "\<forall>n \<in> L. set (alive_members (sw n)) = L - {n} \<and> re_node_id (re n) = n"
  shows "(let senders = {n \<in> L. fst (snd (execute_repair (X n) (flt n) t (sw n) req (re n))) \<noteq> None}
    in senders \<subseteq> set (take (deficit req) (repair_candidates t L (request_cid req))) \<and> card senders \<le> deficit req)"
proof -
  let ?C = "take (deficit req) (repair_candidates t L (request_cid req))"
  let ?S = "{n \<in> L. fst (snd (execute_repair (X n) (flt n) t (sw n) req (re n))) \<noteq> None}"
  have sub: "?S \<subseteq> set ?C"
  proof
    fix n assume "n \<in> ?S"
    then have n: "n \<in> L" "re_node_id (re n) = n" "set (alive_members (sw n)) = L - {n}"
      "fst (snd (execute_repair (X n) (flt n) t (sw n) req (re n))) \<noteq> None" using assms by auto
    show "n \<in> set ?C"
      using sent_elected[OF n(4)] ranking_candidates[OF n(3,1), of t "request_cid req"] n(2) by simp
  qed
  have "card ?S \<le> card (set ?C)" by (rule card_mono[OF _ sub]) simp
  also have "\<dots> \<le> length ?C" by (rule card_length)
  also have "\<dots> \<le> deficit req" by simp
  finally show ?thesis using sub by (simp add: Let_def)
qed

section \<open>Loading and sending\<close>

definition stored_pieces ::
  "('b, 'c) obj_api \<Rightarrow> (bytes \<Rightarrow> coded_piece option) \<Rightarrow> ('b, 'c) store \<Rightarrow> cid list \<Rightarrow> coded_piece list" where
  "stored_pieces A dec s pcs = List.map_filter (\<lambda>pc. case obj_lookup A s pc of None \<Rightarrow> None | Some d \<Rightarrow> dec d) pcs"

lemma stored_pieces_Cons:
  "stored_pieces A dec s (pc # pcs) =
     (case obj_lookup A s pc of None \<Rightarrow> []
      | Some d \<Rightarrow> (case dec d of None \<Rightarrow> [] | Some p \<Rightarrow> [p])) @ stored_pieces A dec s pcs"
  by (auto simp: stored_pieces_def map_filter_def split: option.splits)

lemma load_loop_clean:
  assumes "store_clean (ra_obj X) s" "\<forall>pc. flt_read (flt pc) = None" "list_all cid_wf pcs"
  shows "fst (load_loop X flt pcs pieces s) = pieces @ take (2 - length pieces) (stored_pieces (ra_obj X) (ra_decode X) s pcs)"
  using assms
proof (induction pcs arbitrary: pieces s)
  case Nil
  then show ?case by (simp add: stored_pieces_def map_filter_def)
next
  case (Cons pc pcs)
  let ?A = "ra_obj X" and ?s = "snd (get (ra_obj X) (flt pc) s pc)"
  have g: "fst (get ?A (flt pc) s pc) = Inr (obj_lookup ?A s pc)"
    using get_clean(2)[OF Cons.prems(1), of "flt pc" pc] Cons.prems(2,3) by simp
  have k: "store_clean ?A ?s" "obj_lookup ?A ?s = obj_lookup ?A s"
    using get_keeps_clean[OF Cons.prems(1), of "flt pc" pc] Cons.prems(2) by simp_all
  have same: "stored_pieces (ra_obj X) (ra_decode X) ?s pcs = stored_pieces (ra_obj X) (ra_decode X) s pcs" by (simp add: stored_pieces_def k(2))
  have IH: "fst (load_loop X flt pcs ps ?s) = ps @ take (2 - length ps) (stored_pieces (ra_obj X) (ra_decode X) s pcs)" for ps
    using Cons.IH[OF k(1) Cons.prems(2)] Cons.prems(3) same by simp
  obtain s' where gs: "get ?A (flt pc) s pc = (Inr (obj_lookup ?A s pc), s')"
    using g by (cases "get ?A (flt pc) s pc") simp
  then have IH': "fst (load_loop X flt pcs ps s') = ps @ take (2 - length ps) (stored_pieces (ra_obj X) (ra_decode X) s pcs)" for ps
    using IH by simp
  show ?case
  proof (cases "2 \<le> length pieces")
    case False
    then show ?thesis
      by (auto simp: gs IH' stored_pieces_Cons take_Cons' split: option.splits)
  qed simp
qed

lemma choose_random_Some: "repair_api_ok X \<Longrightarrow> choose_random X xs = Some n \<Longrightarrow> n \<in> set xs"
  by (auto simp: choose_random_def repair_api_ok_def split: if_splits)

lemma choose_random_None: "choose_random X xs = None \<longleftrightarrow> xs = []"
  by (simp add: choose_random_def)

lemma distribution_target:
  assumes "repair_api_ok X"
  shows "(\<exists>e. select_distribution_target X t sw me c = Inl e) \<longleftrightarrow> (\<forall>n \<in> set (alive_members sw). n = me)"
    and "select_distribution_target X t sw me c = Inr n \<Longrightarrow> n \<in> set (alive_members sw) \<and> n \<noteq> me \<and>
      ((\<exists>m. (m, 1) \<in> set (holders_with_count t c) \<and> m \<in> set (alive_members sw) \<and> m \<noteq> me) \<longrightarrow> (n, 1) \<in> set (holders_with_count t c))"
proof -
  show "(\<exists>e. select_distribution_target X t sw me c = Inl e) \<longleftrightarrow> (\<forall>n \<in> set (alive_members sw). n = me)"
    by (auto simp: select_distribution_target_def Let_def choose_random_def filter_empty_conv split: if_splits)
  assume n: "select_distribution_target X t sw me c = Inr n"
  then show "n \<in> set (alive_members sw) \<and> n \<noteq> me \<and>
      ((\<exists>m. (m, 1) \<in> set (holders_with_count t c) \<and> m \<in> set (alive_members sw) \<and> m \<noteq> me) \<longrightarrow> (n, 1) \<in> set (holders_with_count t c))"
    by (auto simp: select_distribution_target_def Let_def choose_random_None filter_empty_conv
        split: option.splits dest!: choose_random_Some[OF assms])
qed

lemma load_local_clean:
  assumes "store_clean (ra_obj X) s" "\<forall>pc. flt_read (flt pc) = None" "ra_lookup X c = Some pcs" "list_all cid_wf pcs"
  shows "fst (load_local_pieces X flt c s) =
    (if length (stored_pieces (ra_obj X) (ra_decode X) s pcs) < 2 then Inl (HealthInsufficientPieces c 2 (length (stored_pieces (ra_obj X) (ra_decode X) s pcs)))
     else Inr (take 2 (stored_pieces (ra_obj X) (ra_decode X) s pcs)))"
  using load_loop_clean[OF assms(1,2,4), of "[]"]
  by (auto simp: load_local_pieces_def assms(3) Let_def case_prod_unfold min_def)

lemma recode_body_valid:
  assumes "list_all (valid_piece B c n S) ps" "2 \<le> length ps" "all_len n S"
  shows "\<exists>p m' g'. recode_body B R m ps g = (Inr p, m', g') \<and> valid_piece B c n S p"
  using recode_valid[OF assms, of R g] by (auto simp: recode_body_def)

text \<open>
  C35. Repair.  On an undamaged store whose recorded pieces of the identifier are valid, a node sends a
  piece exactly when it is elected, at least two pieces can be loaded, and there is another live
  node.  What it sends is one valid coded piece of the same content, fresh under the next request
  number, to a live node other than itself, and to one that holds a single piece if there is one.
\<close>

theorem repair_correct:
  assumes "repair_api_ok X" "store_clean (ra_obj X) (re_store re)" "\<forall>pc. flt_read (flt pc) = None"
    and "ra_lookup X (request_cid req) = Some pcs" "list_all cid_wf pcs"
    and "list_all (valid_piece (oa_b3 (ra_obj X)) (request_cid req) n S) (stored_pieces (ra_obj X) (ra_decode X) (re_store re) pcs)" "all_len n S"
  shows "(fst (snd (execute_repair X flt t sw req re)) \<noteq> None \<longleftrightarrow>
      re_node_id re \<in> set (take (deficit req) (rank_providers (repair_rankings t sw (re_node_id re) (request_cid req)))) \<and>
      2 \<le> length (stored_pieces (ra_obj X) (ra_decode X) (re_store re) pcs) \<and> (\<exists>m \<in> set (alive_members sw). m \<noteq> re_node_id re)) \<and>
    (\<forall>target msg. fst (snd (execute_repair X flt t sw req re)) = Some (target, msg) \<longrightarrow>
      (\<exists>p. msg = PieceResponse [p] (re_next_request_id re) \<and> valid_piece (oa_b3 (ra_obj X)) (request_cid req) n S p) \<and>
      target \<in> set (alive_members sw) \<and> target \<noteq> re_node_id re \<and>
      ((\<exists>m. (m, 1) \<in> set (holders_with_count t (request_cid req)) \<and> m \<in> set (alive_members sw) \<and> m \<noteq> re_node_id re) \<longrightarrow>
        (target, 1) \<in> set (holders_with_count t (request_cid req))))"
proof -
  let ?c = "request_cid req" and ?me = "re_node_id re" and ?B = "oa_b3 (ra_obj X)"
  let ?ps = "stored_pieces (ra_obj X) (ra_decode X) (re_store re) pcs" and ?sent = "fst (snd (execute_repair X flt t sw req re))"
  let ?el = "?me \<in> set (take (deficit req) (rank_providers (repair_rankings t sw ?me ?c)))"
  note load = load_local_clean[OF assms(2-5)]
  consider "\<not> ?el" | "?el" "length ?ps < 2" | "?el" "2 \<le> length ?ps" by linarith
  then show ?thesis
  proof cases
    case 1
    then have "?sent = None" by (auto simp: execute_repair_def Let_def min_def)
    then show ?thesis using 1 by simp
  next
    case 2
    obtain s' e where "load_local_pieces X flt ?c (re_store re) = (Inl e, s')"
      using load 2(2) by (cases "load_local_pieces X flt ?c (re_store re)") auto
    then have "?sent = None" by (simp add: execute_repair_def Let_def)
    then show ?thesis using 2 by simp
  next
    case 3
    obtain s' where s': "load_local_pieces X flt ?c (re_store re) = (Inr (take 2 ?ps), s')"
      using load 3(2) by (cases "load_local_pieces X flt ?c (re_store re)") auto
    have "list_all (valid_piece ?B ?c n S) (take 2 ?ps)" "2 \<le> length (take 2 ?ps)"
      using assms(6) 3(2) by (auto simp: list_all_iff dest: in_set_takeD)
    from recode_body_valid[OF this assms(7), of "ra_rng X" "re_metrics re" "re_rng re"] obtain p m' g'
      where p: "recode_body ?B (ra_rng X) (re_metrics re) (take 2 ?ps) (re_rng re) = (Inr p, m', g')" "valid_piece ?B ?c n S p"
      by blast
    have d: "deficit req \<noteq> 0" "repair_rankings t sw ?me ?c \<noteq> []"
      using 3(1) by (metis empty_iff set_empty take_0, metis empty_iff list.map_disc_iff ranking_ids set_empty set_sort take_Nil)
    have el: "?me \<in> set (take (min (length (rank_providers (repair_rankings t sw ?me ?c))) (deficit req))
        (rank_providers (repair_rankings t sw ?me ?c)))"
      using 3(1) by (auto simp: min_def dest: in_set_takeD)
    show ?thesis
    proof (cases "select_distribution_target X t sw ?me ?c")
      case (Inl e)
      then have "?sent = None" using d el by (simp add: execute_repair_def Let_def s' p(1))
      moreover have "\<forall>m \<in> set (alive_members sw). m = ?me" using distribution_target(1)[OF assms(1)] Inl by blast
      ultimately show ?thesis by simp
    next
      case (Inr target)
      have "?sent = Some (target, PieceResponse [p] (re_next_request_id re))"
        using d el by (simp add: execute_repair_def Let_def s' p(1) Inr)
      then show ?thesis using distribution_target(2)[OF assms(1) Inr] p(2) 3 by auto
    qed
  qed
qed

section \<open>A concrete repair\<close>

definition demo_rng :: "nat rng_api" where
  "demo_rng = \<lparr>rng_gen = \<lambda>g. (of_nat g, Suc g), rng_range = \<lambda>lo hi g. (lo, g)\<rparr>"

definition demo_enc :: rlnc_encoder where
  "demo_enc = \<lparr>enc_k = 1, piece_size = 1, original_pieces = [[7]], enc_cid = Cid [5]\<rparr>"

definition demo_repair_api :: "(bytes list, cid \<Rightarrow> bytes option, nat) repair_api" where
  "demo_repair_api = \<lparr>ra_obj = demo_api, ra_rng = demo_rng,
     ra_decode = \<lambda>d. Some (fst (encode_piece (oa_b3 demo_api) demo_rng demo_enc 0)),
     ra_lookup = \<lambda>c. Some [cid_from_data (oa_b3 demo_api) [1], cid_from_data (oa_b3 demo_api) [2]],
     ra_choose = hd, ra_sends = \<lambda>_ _. True\<rparr>"

definition demo_repair_store :: "(bytes list, cid \<Rightarrow> bytes option) store" where
  "demo_repair_store = snd (put demo_api no_faults (snd (put demo_api no_faults (store_new demo_api [] 4) [1])) [2])"

definition demo_executor :: "node_id \<Rightarrow> (bytes list, cid \<Rightarrow> bytes option, nat) repair_executor" where
  "demo_executor n = \<lparr>re_store = demo_repair_store, re_metrics = metrics engine_new, re_rng = 0, re_node_id = n, re_next_request_id = 0\<rparr>"

definition demo_tracker :: piece_tracker where
  "demo_tracker = report 0 2 (Cid [5]) (NodeId [2]) (report 0 2 (Cid [5]) (NodeId [1]) tracker_new)"

definition demo_view :: "node_id \<Rightarrow> swim" where
  "demo_view n = mark_alive (if n = NodeId [1] then NodeId [2] else NodeId [1]) 0 (swim_new n)"

lemma demo_repair_store_ok:
  "store_clean demo_api demo_repair_store"
  "2 = length (stored_pieces (ra_obj demo_repair_api) (ra_decode demo_repair_api) demo_repair_store [cid_from_data (oa_b3 demo_api) [1], cid_from_data (oa_b3 demo_api) [2]])"
proof -
  let ?s0 = "store_new demo_api [] 4" and ?c = "cid_from_data (oa_b3 demo_api)"
  let ?s1 = "snd (put demo_api no_faults ?s0 [1])"
  have s0: "store_clean demo_api ?s0" by (rule demo_new_clean)
  note s1 = put_clean(1)[OF s0, of no_faults "[1]"]
  show s2: "store_clean demo_api demo_repair_store" unfolding demo_repair_store_def by (rule put_clean(1)[OF s1])
  have ok: "fst (put demo_api no_faults s d) = Inr (?c d)" for s d
    by (rule put_succeeds) (simp_all add: no_faults_def)
  have "obj_lookup demo_api ?s1 (?c [1]) \<noteq> None" using put_clean(2)[OF s0 ok] by blast
  then have l1: "obj_lookup demo_api demo_repair_store (?c [1]) \<noteq> None"
    unfolding demo_repair_store_def by (rule cas.put_op_keeps[OF s1])
  have l2: "obj_lookup demo_api demo_repair_store (?c [2]) \<noteq> None"
    unfolding demo_repair_store_def using put_clean(2)[OF s1 ok] by blast
  show "2 = length (stored_pieces (ra_obj demo_repair_api) (ra_decode demo_repair_api) demo_repair_store [?c [1], ?c [2]])"
    using l1 l2 by (auto simp: stored_pieces_def map_filter_def demo_repair_api_def)
qed

lemma demo_api_choose: "repair_api_ok demo_repair_api"
  by (simp add: repair_api_ok_def demo_repair_api_def)

lemma demo_views:
  "alive_members (demo_view n) = [if n = NodeId [1] then NodeId [2] else NodeId [1]]"
  if "n \<in> {NodeId [1], NodeId [2]}"
  using that by (auto simp: demo_view_def alive_members_def mark_alive_def swim_new_def upsert_def send_event_def Let_def)

theorem repair_correct_witness:
  "fst (snd (execute_repair demo_repair_api (\<lambda>_. no_faults) demo_tracker (demo_view (NodeId [1])) (Critical (Cid [5]) 4 5)
      (demo_executor (NodeId [1])))) \<noteq> None"
proof -
  let ?c = "cid_from_data (oa_b3 demo_api)" and ?re = "demo_executor (NodeId [1])" and ?req = "Critical (Cid [5]) 4 5"
  have "encoder_wf demo_enc" by (simp add: encoder_wf_def demo_enc_def)
  from encode_piece_valid[OF this, of "oa_b3 demo_api" demo_rng 0]
  have "valid_piece (oa_b3 demo_api) (Cid [5]) 1 [[7]] (fst (encode_piece (oa_b3 demo_api) demo_rng demo_enc 0))"
    by (simp add: demo_enc_def)
  then have v: "list_all (valid_piece (oa_b3 (ra_obj demo_repair_api)) (request_cid ?req) 1 [[7]])
      (stored_pieces (ra_obj demo_repair_api) (ra_decode demo_repair_api) (re_store ?re) [?c [1], ?c [2]])"
    by (auto simp: list_all_iff stored_pieces_def map_filter_def demo_repair_api_def split: option.splits)
  have wf: "list_all cid_wf [?c [1], ?c [2]]"
    by (simp add: cid_from_data_def demo_api_def cid_wf_def CID_SIZE_def sum_hash_def)
  have r: "rank_providers (repair_rankings demo_tracker (demo_view (NodeId [1])) (NodeId [1]) (Cid [5])) = [NodeId [1], NodeId [2]]"
    using demo_views[of "NodeId [1]"]
    by (simp add: rank_providers_def sort_by_def repair_rankings_def demo_tracker_def record_piece_def tracker_new_def
        get_holders_def table_get_def local_piece_count_def ranking_cmp_def compare_def)
  have "repair_api_ok demo_repair_api" "store_clean (ra_obj demo_repair_api) (re_store ?re)"
    "\<forall>pc::cid. flt_read no_faults = None" "ra_lookup demo_repair_api (request_cid ?req) = Some [?c [1], ?c [2]]"
    using demo_api_choose demo_repair_store_ok(1) by (simp_all add: demo_repair_api_def demo_executor_def no_faults_def)
  note * = conjunct1[OF repair_correct[OF this wf v, of demo_tracker "demo_view (NodeId [1])"]]
  have "deficit ?req = 1" by (simp add: deficit_def)
  then show ?thesis
    using demo_repair_store_ok(2) demo_views[of "NodeId [1]"] r
    by (subst *) (simp_all add: demo_executor_def all_len_def)
qed

theorem repair_election_bounded_witness:
  "card {n \<in> {NodeId [1], NodeId [2]}. fst (snd (execute_repair demo_repair_api (\<lambda>_. no_faults) demo_tracker (demo_view n)
      (Critical (Cid [5]) 4 5) (demo_executor n))) \<noteq> None} \<le> 1"
proof -
  let ?L = "{NodeId [1], NodeId [2]}"
  have "\<forall>n \<in> ?L. set (alive_members (demo_view n)) = ?L - {n} \<and> re_node_id (demo_executor n) = n"
    using demo_views by (auto simp: demo_executor_def)
  from repair_election_bounded[OF this, of "\<lambda>_. demo_repair_api" "\<lambda>_ _. no_faults" demo_tracker "Critical (Cid [5]) 4 5"]
  show ?thesis by (simp add: Let_def deficit_def)
qed

end
