(* ===== verification/Net_Tables.thy ===== *)
theory Net_Tables
  imports Tables
begin

text \<open>
  The tables of the network layer: which nodes provide a content identifier
  (craftec-net/src/dht.rs), who waits for a piece (pending.rs), and the open connections
  (pool.rs).  A concurrent map is an association list in the order in which it iterates; each
  operation is one step.
\<close>

section \<open>Providers\<close>

record provider_record =
  pr_node :: node_id
  pr_announced_at :: instant

record dht =
  local_providers :: "provider_record table"

definition dht_new :: dht where
  "dht_new = \<lparr>local_providers = []\<rparr>"

definition announce_provider :: "instant \<Rightarrow> cid \<Rightarrow> node_id \<Rightarrow> dht \<Rightarrow> dht" where
  "announce_provider now c n d = d\<lparr>local_providers :=
     AList.update c (upsert_by pr_node (\<lambda>r. r\<lparr>pr_announced_at := now\<rparr>) \<lparr>pr_node = n, pr_announced_at = now\<rparr>
       (table_get (local_providers d) c)) (local_providers d)\<rparr>"

definition get_providers :: "dht \<Rightarrow> cid \<Rightarrow> node_id list" where
  "get_providers d c = map pr_node (table_get (local_providers d) c)"

definition remove_provider :: "cid \<Rightarrow> node_id \<Rightarrow> dht \<Rightarrow> dht" where
  "remove_provider c n d =
     (case map_of (local_providers d) c of None \<Rightarrow> d
      | Some rs \<Rightarrow>
          let rs' = filter (\<lambda>r. pr_node r \<noteq> n) rs
          in d\<lparr>local_providers := if rs' = [] then AList.delete c (local_providers d)
                                else AList.update c rs' (local_providers d)\<rparr>)"

definition dht_remove_node :: "node_id \<Rightarrow> dht \<Rightarrow> dht" where
  "dht_remove_node n d = d\<lparr>local_providers := retain_records (\<lambda>r. pr_node r \<noteq> n) (local_providers d)\<rparr>"

definition dht_fresh :: "instant \<Rightarrow> duration \<Rightarrow> instant \<Rightarrow> bool" where
  "dht_fresh now ttl t \<longleftrightarrow> duration_since now t < ttl"

definition dht_prune_stale :: "instant \<Rightarrow> duration \<Rightarrow> dht \<Rightarrow> nat \<times> dht" where
  "dht_prune_stale now ttl d =
     (let keep = (\<lambda>r. dht_fresh now ttl (pr_announced_at r))
      in (removed_records keep (local_providers d), d\<lparr>local_providers := retain_records keep (local_providers d)\<rparr>))"

definition dht_cid_count :: "dht \<Rightarrow> nat" where
  "dht_cid_count d = length (local_providers d)"

definition provider_count :: "dht \<Rightarrow> nat" where
  "provider_count d = table_size (local_providers d)"

section \<open>Pending fetches\<close>

text \<open>
  A oneshot channel is a number.  \<open>pf_delivered\<close> holds what was sent through the channels,
  \<open>pf_closed\<close> the channels whose receiver has been dropped.
\<close>

record pending_entry =
  pe_tx :: nat
  pe_registered_at :: instant

record pending_fetches =
  pf_waiters :: "pending_entry table"
  pf_next :: nat
  pf_delivered :: "nat \<Rightarrow> coded_piece option"
  pf_closed :: "nat list"

definition pending_new :: pending_fetches where
  "pending_new = \<lparr>pf_waiters = [], pf_next = 0, pf_delivered = (\<lambda>_. None), pf_closed = []\<rparr>"

definition pending_register :: "instant \<Rightarrow> cid \<Rightarrow> pending_fetches \<Rightarrow> nat \<times> pending_fetches" where
  "pending_register now c s =
     (let tx = pf_next s
      in (tx, s\<lparr>pf_next := tx + 1,
               pf_waiters := AList.update c (table_get (pf_waiters s) c @ [\<lparr>pe_tx = tx, pe_registered_at = now\<rparr>]) (pf_waiters s)\<rparr>))"

definition send_piece :: "coded_piece \<Rightarrow> pending_fetches \<Rightarrow> pending_entry \<Rightarrow> pending_fetches" where
  "send_piece p s e =
     (if pe_tx e \<in> set (pf_closed s) then s else s\<lparr>pf_delivered := (pf_delivered s)(pe_tx e := Some p)\<rparr>)"

definition resolve_piece :: "cid \<Rightarrow> coded_piece \<Rightarrow> pending_fetches \<Rightarrow> pending_fetches" where
  "resolve_piece c p s =
     (case map_of (pf_waiters s) c of None \<Rightarrow> s
      | Some es \<Rightarrow> foldl (send_piece p) (s\<lparr>pf_waiters := AList.delete c (pf_waiters s)\<rparr>) es)"

text \<open>The receiver of a channel is dropped by its owner, for example after a timeout.\<close>

definition drop_receiver :: "nat \<Rightarrow> pending_fetches \<Rightarrow> pending_fetches" where
  "drop_receiver tx s = s\<lparr>pf_closed := tx # pf_closed s\<rparr>"

definition pending_live :: "instant \<Rightarrow> duration \<Rightarrow> pending_fetches \<Rightarrow> pending_entry \<Rightarrow> bool" where
  "pending_live now max_age s e \<longleftrightarrow>
     \<not> duration_since now (pe_registered_at e) \<ge> max_age \<and> \<not> pe_tx e \<in> set (pf_closed s)"

definition pending_prune_stale :: "instant \<Rightarrow> duration \<Rightarrow> pending_fetches \<Rightarrow> nat \<times> pending_fetches" where
  "pending_prune_stale now max_age s =
     (removed_records (pending_live now max_age s) (pf_waiters s),
      s\<lparr>pf_waiters := retain_records (pending_live now max_age s) (pf_waiters s)\<rparr>)"

definition pending_count :: "pending_fetches \<Rightarrow> nat" where
  "pending_count s = length (pf_waiters s)"

definition total_pending :: "pending_fetches \<Rightarrow> nat" where
  "total_pending s = table_size (pf_waiters s)"

section \<open>Connection pool\<close>

record 'c pooled_connection =
  pc_connection :: 'c
  pc_established_at :: instant
  pc_last_used :: instant

record 'c connection_pool =
  pool_connections :: "(node_id \<times> 'c pooled_connection) list"
  pool_max :: nat

definition DEFAULT_MAX_CONNECTIONS :: nat where "DEFAULT_MAX_CONNECTIONS = 256"

definition pool_with_capacity :: "nat \<Rightarrow> 'c connection_pool" where
  "pool_with_capacity m = \<lparr>pool_connections = [], pool_max = m\<rparr>"

definition pool_new :: "'c connection_pool" where
  "pool_new = pool_with_capacity DEFAULT_MAX_CONNECTIONS"

definition pool_get :: "instant \<Rightarrow> node_id \<Rightarrow> 'c connection_pool \<Rightarrow> 'c option \<times> 'c connection_pool" where
  "pool_get now n p =
     (case map_of (pool_connections p) n of None \<Rightarrow> (None, p)
      | Some e \<Rightarrow> (Some (pc_connection e),
          p\<lparr>pool_connections := AList.update n (e\<lparr>pc_last_used := now\<rparr>) (pool_connections p)\<rparr>))"

definition pool_remove :: "node_id \<Rightarrow> 'c connection_pool \<Rightarrow> 'c connection_pool" where
  "pool_remove n p = p\<lparr>pool_connections := AList.delete n (pool_connections p)\<rparr>"

definition oldest_key :: "'c connection_pool \<Rightarrow> node_id option" where
  "oldest_key p = (if pool_connections p = [] then None
     else Some (fst (arg_min_list (\<lambda>e. pc_last_used (snd e)) (pool_connections p))))"

definition evict_lru :: "'c connection_pool \<Rightarrow> 'c connection_pool" where
  "evict_lru p = (case oldest_key p of None \<Rightarrow> p | Some n \<Rightarrow> pool_remove n p)"

definition pool_insert :: "instant \<Rightarrow> node_id \<Rightarrow> 'c \<Rightarrow> 'c connection_pool \<Rightarrow> 'c connection_pool" where
  "pool_insert now n conn p =
     (let p' = (if length (pool_connections p) \<ge> pool_max p then evict_lru p else p)
      in p'\<lparr>pool_connections := AList.update n
           \<lparr>pc_connection = conn, pc_established_at = now, pc_last_used = now\<rparr> (pool_connections p')\<rparr>)"

definition connected_peers :: "'c connection_pool \<Rightarrow> node_id list" where
  "connected_peers p = map fst (pool_connections p)"

definition prune_idle :: "instant \<Rightarrow> duration \<Rightarrow> 'c connection_pool \<Rightarrow> node_id list \<times> 'c connection_pool" where
  "prune_idle now timeout p =
     (let cutoff = now - int timeout; idle = (\<lambda>e. pc_last_used (snd e) < cutoff)
      in (map fst (filter idle (pool_connections p)), p\<lparr>pool_connections := filter (\<lambda>e. \<not> idle e) (pool_connections p)\<rparr>))"

section \<open>The provider table as an index of announcements\<close>

definition dht_inv :: "dht \<Rightarrow> bool" where
  "dht_inv d \<longleftrightarrow> table_ok pr_node (local_providers d)"

definition dht_seen :: "dht \<Rightarrow> cid \<Rightarrow> node_id \<Rightarrow> instant option" where
  "dht_seen d c n = map_option pr_announced_at (find_by pr_node n (table_get (local_providers d) c))"

abbreviation dht_run :: "unit index_op list \<Rightarrow> dht" where
  "dht_run ops \<equiv> foldr (index_step (\<lambda>t _. announce_provider t) dht_remove_node (\<lambda>now ttl d. snd (dht_prune_stale now ttl d))) ops dht_new"

lemma dht_inv_get: "dht_inv d \<Longrightarrow> distinct (map pr_node (table_get (local_providers d) c))"
  unfolding dht_inv_def by (rule table_ok_get)

lemma dht_inv_keys: "dht_inv d \<Longrightarrow> distinct (map fst (local_providers d))"
  by (simp add: dht_inv_def table_ok_def)

interpretation provider_index: timed_index dht_inv dht_seen dht_new "\<lambda>t _. announce_provider t" dht_remove_node
  "\<lambda>now ttl d. snd (dht_prune_stale now ttl d)" dht_fresh
proof (unfold_locales, goal_cases)
  case (3 s t x c n)
  then show ?case
    by (auto simp: dht_inv_def announce_provider_def intro!: table_ok_update distinct_upsert table_ok_get)
next
  case (4 s t x c n c' n')
  then show ?case by (auto simp: dht_seen_def announce_provider_def table_get_update find_by_upsert split: option.splits)
next
  case (6 s n c' n')
  then show ?case
    by (auto simp: dht_seen_def dht_remove_node_def table_get_retain[OF dht_inv_keys] find_by_filter[OF dht_inv_get]
        split: option.splits dest: find_by_Some)
next
  case (8 s now ttl c n)
  then show ?case
    by (auto simp: dht_seen_def dht_prune_stale_def Let_def table_get_retain[OF dht_inv_keys] find_by_filter[OF dht_inv_get]
        split: option.splits)
qed (auto simp: dht_inv_def dht_seen_def dht_new_def dht_remove_node_def dht_prune_stale_def Let_def intro: table_ok_retain)

lemma get_providers_seen: "n \<in> set (get_providers d c) \<longleftrightarrow> dht_seen d c n \<noteq> None"
  by (auto simp: get_providers_def dht_seen_def find_by_None image_iff)

lemma remove_provider_get:
  "dht_inv d \<Longrightarrow> get_providers (remove_provider c n d) c' = (if c' = c then filter (\<lambda>m. m \<noteq> n) (get_providers d c) else get_providers d c')"
  by (auto simp: get_providers_def remove_provider_def table_get_update Let_def table_get_def delete_conv' update_conv'
      filter_map comp_def split: option.splits)

lemma dht_cids: "dht_inv d \<Longrightarrow> dht_cid_count d = card {c. get_providers d c \<noteq> []}"
proof -
  assume inv: "dht_inv d"
  have "{c. get_providers d c \<noteq> []} = fst ` set (local_providers d)"
    using inv table_ok_keys[of pr_node "local_providers d"] by (auto simp: get_providers_def dht_inv_def)
  then show ?thesis
    using dht_inv_keys[OF inv] distinct_card by (fastforce simp: dht_cid_count_def)
qed

text \<open>
  The provider table.  After any history of announcements, departures and expiries, a node is
  listed for an identifier, once, exactly when it announced it after its last departure and the
  announcement has not expired since; the counters of the table are exact, and a prune reports the
  number of records it dropped.  Removing one provider affects one node of one identifier.
\<close>

theorem provider_table_correct:
  "distinct (get_providers (dht_run ops) c) \<and>
   (n \<in> set (get_providers (dht_run ops) c) \<longleftrightarrow> last_announced dht_fresh ops c n \<noteq> None) \<and>
   dht_cid_count (dht_run ops) = card {c. get_providers (dht_run ops) c \<noteq> []} \<and>
   (let r = dht_prune_stale now ttl (dht_run ops) in provider_count (snd r) + fst r = provider_count (dht_run ops)) \<and>
   get_providers (remove_provider c n (dht_run ops)) c' =
     filter (\<lambda>m. (c', m) \<noteq> (c, n)) (get_providers (dht_run ops) c')"
proof -
  note inv = provider_index.run_inv[of ops]
  have "distinct (get_providers (dht_run ops) c)"
    using dht_inv_get[OF inv] by (simp add: get_providers_def)
  moreover have "n \<in> set (get_providers (dht_run ops) c) \<longleftrightarrow> last_announced dht_fresh ops c n \<noteq> None"
    by (simp only: get_providers_seen provider_index.run_seen)
  moreover note dht_cids[OF inv]
  moreover have "let r = dht_prune_stale now ttl d in provider_count (snd r) + fst r = provider_count d" for d
    by (simp add: dht_prune_stale_def provider_count_def Let_def removed_retain)
  moreover have "get_providers (remove_provider c n (dht_run ops)) c' =
      filter (\<lambda>m. (c', m) \<noteq> (c, n)) (get_providers (dht_run ops) c')"
    by (simp add: remove_provider_get[OF inv])
  ultimately show ?thesis by blast
qed

section \<open>Delivery of pieces\<close>

inductive pending_reachable :: "pending_fetches \<Rightarrow> bool" where
  new: "pending_reachable pending_new"
| register: "pending_reachable s \<Longrightarrow> pending_reachable (snd (pending_register now c s))"
| resolve: "pending_reachable s \<Longrightarrow> pending_reachable (resolve_piece c p s)"
| dropped: "pending_reachable s \<Longrightarrow> pending_reachable (drop_receiver tx s)"
| prune: "pending_reachable s \<Longrightarrow> pending_reachable (snd (pending_prune_stale now max_age s))"

definition waits :: "pending_fetches \<Rightarrow> cid \<Rightarrow> nat \<Rightarrow> bool" where
  "waits s c tx \<longleftrightarrow> tx \<in> pe_tx ` set (table_get (pf_waiters s) c)"

definition pending_inv :: "pending_fetches \<Rightarrow> bool" where
  "pending_inv s \<longleftrightarrow> table_ok pe_tx (pf_waiters s) \<and>
     (\<forall>c tx. waits s c tx \<longrightarrow> tx < pf_next s \<and> pf_delivered s tx = None \<and> (\<forall>c'. waits s c' tx \<longrightarrow> c' = c)) \<and>
     (\<forall>tx. pf_delivered s tx \<noteq> None \<longrightarrow> tx < pf_next s)"

lemma send_pieces:
  "foldl (send_piece p) s es =
     s\<lparr>pf_delivered := \<lambda>tx. if tx \<in> pe_tx ` set es \<and> tx \<notin> set (pf_closed s) then Some p else pf_delivered s tx\<rparr>"
proof (induction es arbitrary: s)
  case (Cons e es)
  show ?case unfolding foldl_Cons Cons.IH by (auto simp: send_piece_def fun_eq_iff)
qed simp

lemma resolve_delivers:
  "pf_delivered (resolve_piece c p s) tx = (if waits s c tx \<and> tx \<notin> set (pf_closed s) then Some p else pf_delivered s tx)"
  by (auto simp: resolve_piece_def send_pieces waits_def table_get_def split: option.splits)

lemma resolve_fields:
  "pf_next (resolve_piece c p s) = pf_next s" "pf_closed (resolve_piece c p s) = pf_closed s"
  "pf_waiters (resolve_piece c p s) = AList.delete c (pf_waiters s)"
  by (auto simp: resolve_piece_def send_pieces delete_id map_of_eq_None_iff split: option.splits)

lemma waits_resolve: "waits (resolve_piece c p s) c' tx \<longleftrightarrow> c' \<noteq> c \<and> waits s c' tx"
  by (auto simp: waits_def resolve_fields table_get_def delete_conv' split: if_splits)

lemma waits_register: "waits (snd (pending_register now c s)) c' tx \<longleftrightarrow> waits s c' tx \<or> c' = c \<and> tx = pf_next s"
  by (auto simp: waits_def pending_register_def Let_def table_get_update)

lemma waits_prune:
  "table_ok pe_tx (pf_waiters s) \<Longrightarrow> waits (snd (pending_prune_stale now max_age s)) c tx \<longleftrightarrow>
     (\<exists>e \<in> set (table_get (pf_waiters s) c). pe_tx e = tx \<and> pending_live now max_age s e)"
  by (auto simp: waits_def pending_prune_stale_def table_get_retain table_ok_def)

lemma in_set_delete: "e \<in> set (AList.delete c m) \<Longrightarrow> e \<in> set m"
  by (simp add: AList.delete_eq)

lemma table_ok_delete: "table_ok key m \<Longrightarrow> table_ok key (AList.delete c m)"
  unfolding table_ok_def by (auto simp: distinct_delete dest: in_set_delete)

lemma pending_reachable_inv: "pending_reachable s \<Longrightarrow> pending_inv s"
proof (induction rule: pending_reachable.induct)
  case new
  then show ?case by (simp add: pending_inv_def pending_new_def waits_def)
next
  case (register s now c)
  have ok: "table_ok pe_tx (pf_waiters s)" and lt: "\<And>c tx. waits s c tx \<Longrightarrow> tx < pf_next s"
    using register.IH by (auto simp: pending_inv_def)
  have "pf_next s \<notin> pe_tx ` set (table_get (pf_waiters s) c)" using lt[of c "pf_next s"] by (auto simp: waits_def)
  then have "distinct (map pe_tx (table_get (pf_waiters s) c @ [\<lparr>pe_tx = pf_next s, pe_registered_at = now\<rparr>]))"
    using table_ok_get[OF ok, of c] by simp
  then have "table_ok pe_tx (pf_waiters (snd (pending_register now c s)))"
    using table_ok_update[OF ok] by (simp add: pending_register_def Let_def)
  moreover have "pf_next (snd (pending_register now c s)) = Suc (pf_next s)"
    "pf_delivered (snd (pending_register now c s)) = pf_delivered s"
    by (simp_all add: pending_register_def Let_def)
  ultimately show ?case
    using register.IH lt unfolding pending_inv_def waits_register by (metis less_SucI less_irrefl lessI option.exhaust)
next
  case (resolve s c p)
  then show ?case
    unfolding pending_inv_def waits_resolve resolve_delivers resolve_fields by (auto intro: table_ok_delete)
next
  case (dropped s tx)
  then show ?case by (simp add: pending_inv_def drop_receiver_def waits_def)
next
  case (prune s now max_age)
  have ok: "table_ok pe_tx (pf_waiters s)" using prune.IH by (simp add: pending_inv_def)
  have "waits s c tx" if "waits (snd (pending_prune_stale now max_age s)) c tx" for c tx
    using that unfolding waits_prune[OF ok] by (auto simp: waits_def)
  moreover have "table_ok pe_tx (pf_waiters (snd (pending_prune_stale now max_age s)))"
    "pf_next (snd (pending_prune_stale now max_age s)) = pf_next s"
    "pf_delivered (snd (pending_prune_stale now max_age s)) = pf_delivered s"
    by (simp_all add: pending_prune_stale_def table_ok_retain[OF ok])
  ultimately show ?case using prune.IH unfolding pending_inv_def by metis
qed

text \<open>
  Pending fetches.  In every history of registrations, deliveries, dropped receivers and prunes,
  resolving an identifier hands the piece to exactly the waiters registered for it that still
  listen, leaves every other channel alone and ends the wait of all of them, so that each waiter
  receives at most one piece.  A prune drops exactly the waiters that are too old or gone, and
  reports how many.
\<close>

theorem pending_delivery:
  assumes "pending_reachable s"
  shows "(waits s c tx \<longrightarrow> pf_delivered s tx = None \<and> (\<forall>c'. waits s c' tx \<longrightarrow> c' = c)) \<and>
    pf_delivered (resolve_piece c p s) tx =
      (if waits s c tx \<and> tx \<notin> set (pf_closed s) then Some p else pf_delivered s tx) \<and>
    (waits (resolve_piece c p s) c' tx \<longleftrightarrow> c' \<noteq> c \<and> waits s c' tx) \<and>
    (let r = pending_prune_stale now max_age s
     in (waits (snd r) c tx \<longleftrightarrow> (\<exists>e \<in> set (table_get (pf_waiters s) c). pe_tx e = tx \<and>
           duration_since now (pe_registered_at e) < max_age \<and> tx \<notin> set (pf_closed s))) \<and>
        total_pending (snd r) + fst r = total_pending s \<and> pf_delivered (snd r) = pf_delivered s)"
proof -
  have inv: "pending_inv s" by (rule pending_reachable_inv[OF assms])
  then have ok: "table_ok pe_tx (pf_waiters s)" by (simp add: pending_inv_def)
  have "waits s c tx \<longrightarrow> pf_delivered s tx = None \<and> (\<forall>c'. waits s c' tx \<longrightarrow> c' = c)"
    using inv unfolding pending_inv_def by blast
  moreover have "waits (snd (pending_prune_stale now max_age s)) c tx \<longleftrightarrow> (\<exists>e \<in> set (table_get (pf_waiters s) c). pe_tx e = tx \<and>
           duration_since now (pe_registered_at e) < max_age \<and> tx \<notin> set (pf_closed s))"
    unfolding waits_prune[OF ok] by (auto simp: pending_live_def)
  moreover have "total_pending (snd (pending_prune_stale now max_age s)) + fst (pending_prune_stale now max_age s) = total_pending s"
    by (simp add: pending_prune_stale_def total_pending_def removed_retain)
  ultimately show ?thesis
    by (simp add: Let_def resolve_delivers waits_resolve pending_prune_stale_def)
qed

definition demo_pending :: pending_fetches where
  "demo_pending = drop_receiver 1 (snd (pending_register 20 (Cid [7]) (snd (pending_register 10 (Cid [7]) pending_new))))"

theorem pending_delivery_witness:
  "\<forall>p. pf_delivered (resolve_piece (Cid [7]) p demo_pending) 0 = Some p \<and>
   pf_delivered (resolve_piece (Cid [7]) p demo_pending) 1 = None"
proof
  fix p
  have r: "pending_reachable demo_pending"
    unfolding demo_pending_def by (intro pending_reachable.intros)
  note d = pending_delivery[OF r, of "Cid [7]" _ p, THEN conjunct2, THEN conjunct1]
  show "pf_delivered (resolve_piece (Cid [7]) p demo_pending) 0 = Some p \<and>
      pf_delivered (resolve_piece (Cid [7]) p demo_pending) 1 = None" unfolding d
    by (simp add: demo_pending_def drop_receiver_def pending_register_def pending_new_def waits_def table_get_def)
qed

section \<open>Bounds of the connection pool\<close>

inductive pool_reachable :: "nat \<Rightarrow> 'c connection_pool \<Rightarrow> bool" for m where
  new: "pool_reachable m (pool_with_capacity m)"
| get: "pool_reachable m p \<Longrightarrow> pool_reachable m (snd (pool_get now n p))"
| insert: "pool_reachable m p \<Longrightarrow> pool_reachable m (pool_insert now n c p)"
| remove: "pool_reachable m p \<Longrightarrow> pool_reachable m (pool_remove n p)"
| prune: "pool_reachable m p \<Longrightarrow> pool_reachable m (snd (prune_idle now timeout p))"

definition pool_inv :: "nat \<Rightarrow> 'c connection_pool \<Rightarrow> bool" where
  "pool_inv m p \<longleftrightarrow> pool_max p = m \<and> distinct (map fst (pool_connections p)) \<and> length (pool_connections p) \<le> max 1 m"

lemma length_delete_mem:
  "distinct (map fst m) \<Longrightarrow> n \<in> fst ` set m \<Longrightarrow> Suc (length (AList.delete n m)) = length m"
  by (induction m) (auto simp: image_iff)

lemma length_alist_update: "length (AList.update n v m) = (if n \<in> fst ` set m then length m else Suc (length m))"
  by (induction m) auto

lemma keys_alist_update: "fst ` set (AList.update n v m) = insert n (fst ` set m)"
  by (induction m) auto

lemma oldest_key_min:
  assumes "oldest_key p = Some v"
  shows "\<exists>e. (v, e) \<in> set (pool_connections p) \<and> (\<forall>x \<in> set (pool_connections p). pc_last_used e \<le> pc_last_used (snd x))"
proof -
  let ?f = "\<lambda>e. pc_last_used (snd e)"
  have ne: "pool_connections p \<noteq> []" and v: "v = fst (arg_min_list ?f (pool_connections p))"
    using assms by (auto simp: oldest_key_def split: if_splits)
  have "arg_min_list ?f (pool_connections p) \<in> set (pool_connections p)" using ne by (rule arg_min_list_in)
  moreover have "?f (arg_min_list ?f (pool_connections p)) = Min (?f ` set (pool_connections p))"
    using ne by (rule f_arg_min_list_f)
  ultimately show ?thesis
    unfolding v by (intro exI[of _ "snd (arg_min_list ?f (pool_connections p))"]) auto
qed

lemma evict_lru_keys: "connected_peers (evict_lru p) =
    (case oldest_key p of None \<Rightarrow> connected_peers p | Some v \<Rightarrow> removeAll v (connected_peers p))"
  by (simp add: evict_lru_def pool_remove_def connected_peers_def delete_keys split: option.splits)

lemma pool_insert_keys:
  "set (connected_peers (pool_insert now n c p)) =
     insert n (set (connected_peers (if length (pool_connections p) \<ge> pool_max p then evict_lru p else p)))"
  by (simp add: pool_insert_def connected_peers_def Let_def keys_alist_update)

lemma evict_lru_inv:
  assumes "pool_inv m p"
  shows "pool_max (evict_lru p) = m" "distinct (map fst (pool_connections (evict_lru p)))"
    "length (pool_connections (evict_lru p)) = length (pool_connections p) - 1"
proof -
  have d: "distinct (map fst (pool_connections p))" using assms by (simp add: pool_inv_def)
  have "length (pool_connections (evict_lru p)) = length (pool_connections p) - 1"
  proof (cases "oldest_key p")
    case None
    then show ?thesis by (simp add: oldest_key_def evict_lru_def split: if_splits)
  next
    case (Some n)
    have "n \<in> fst ` set (pool_connections p)" using oldest_key_min[OF Some] by force
    from length_delete_mem[OF d this] show ?thesis by (simp add: evict_lru_def pool_remove_def Some)
  qed
  then show "pool_max (evict_lru p) = m" "distinct (map fst (pool_connections (evict_lru p)))"
    "length (pool_connections (evict_lru p)) = length (pool_connections p) - 1"
    using assms by (auto simp: evict_lru_def pool_remove_def pool_inv_def distinct_delete split: option.splits)
qed

lemma pool_insert_inv: "pool_inv m p \<Longrightarrow> pool_inv m (pool_insert now n c p)"
  using evict_lru_inv[of m p]
  by (auto simp: pool_inv_def pool_insert_def Let_def distinct_update length_alist_update)

lemma pool_reachable_inv: "pool_reachable m p \<Longrightarrow> pool_inv m p"
proof (induction rule: pool_reachable.induct)
  case (get p now n)
  then show ?case
    by (auto simp: pool_get_def pool_inv_def distinct_update length_alist_update map_of_eq_None_iff split: option.splits
        dest: map_of_SomeD intro: rev_image_eqI)
next
  case (remove p n)
  then show ?case
    using length_delete_le[of n "pool_connections p"] by (auto simp: pool_inv_def pool_remove_def distinct_delete)
next
  case (prune p now timeout)
  have "length (filter P xs) \<le> k" if "length xs \<le> k" for P xs k
    using length_filter_le[of P xs] that by linarith
  then show ?case using prune by (auto simp: pool_inv_def prune_idle_def Let_def distinct_map_filter)
qed (simp_all add: pool_insert_inv, simp add: pool_inv_def pool_with_capacity_def)

lemma prune_idle_exact:
  assumes "distinct (map fst (pool_connections p))"
  shows "let (idle, p') = prune_idle now timeout p
     in set (pool_connections p') = {x \<in> set (pool_connections p). now - pc_last_used (snd x) \<le> int timeout} \<and>
        set idle = set (connected_peers p) - set (connected_peers p')"
proof -
  let ?P = "\<lambda>x. pc_last_used (snd x) < now - int timeout"
  have "fst ` set (filter ?P (pool_connections p)) =
      fst ` set (pool_connections p) - fst ` set (filter (\<lambda>x. \<not> ?P x) (pool_connections p))"
    using assms by (auto simp: distinct_map inj_on_def)
  then show ?thesis by (auto simp: prune_idle_def Let_def connected_peers_def simp del: set_filter) auto
qed

text \<open>
  The connection pool.  In every history the pool holds at most its capacity (one connection when
  the capacity is zero) and one connection per peer, and a connection just inserted is found.
  Below capacity an insertion drops nothing.  At capacity it drops the least recently used
  connection, also when the inserted peer already had one, so that replacing a connection of a full
  pool costs another peer its connection.  An idle prune drops exactly the connections unused for
  longer than the timeout.
\<close>

theorem pool_bounded_lru:
  assumes "pool_reachable m p"
  shows "length (connected_peers p) \<le> max 1 m \<and> distinct (connected_peers p) \<and>
    fst (pool_get now' n (pool_insert now n c p)) = Some c \<and>
    (length (connected_peers p) < m \<longrightarrow> set (connected_peers (pool_insert now n c p)) = insert n (set (connected_peers p))) \<and>
    (length (connected_peers p) \<ge> m \<longrightarrow> connected_peers p \<noteq> [] \<longrightarrow>
      (\<exists>v e. (v, e) \<in> set (pool_connections p) \<and> (\<forall>x \<in> set (pool_connections p). pc_last_used e \<le> pc_last_used (snd x)) \<and>
         set (connected_peers (pool_insert now n c p)) = insert n (set (connected_peers p) - {v}))) \<and>
    (let (idle, p') = prune_idle now timeout p
     in set (pool_connections p') = {x \<in> set (pool_connections p). now - pc_last_used (snd x) \<le> int timeout} \<and>
        set idle = set (connected_peers p) - set (connected_peers p'))"
proof -
  have inv: "pool_inv m p" by (rule pool_reachable_inv[OF assms])
  have len: "length (connected_peers p) = length (pool_connections p)" and mx: "pool_max p = m"
    using inv by (simp_all add: connected_peers_def pool_inv_def)
  have d: "distinct (map fst (pool_connections p))" using inv by (simp add: pool_inv_def)
  have "fst (pool_get now' n (pool_insert now n c p)) = Some c"
    by (simp add: pool_get_def pool_insert_def Let_def update_conv')
  moreover have "set (connected_peers (pool_insert now n c p)) = insert n (set (connected_peers p))"
    if "length (connected_peers p) < m"
    using that by (simp add: pool_insert_keys len mx)
  moreover have "\<exists>v e. (v, e) \<in> set (pool_connections p) \<and> (\<forall>x \<in> set (pool_connections p). pc_last_used e \<le> pc_last_used (snd x)) \<and>
         set (connected_peers (pool_insert now n c p)) = insert n (set (connected_peers p) - {v})"
    if ge: "length (connected_peers p) \<ge> m" and ne: "connected_peers p \<noteq> []"
  proof -
    obtain v where v: "oldest_key p = Some v" using ne by (auto simp: oldest_key_def connected_peers_def)
    have "set (connected_peers (pool_insert now n c p)) = insert n (set (connected_peers p) - {v})"
      using ge by (simp add: pool_insert_keys len mx evict_lru_keys v)
    then show ?thesis using oldest_key_min[OF v] by blast
  qed
  moreover have "let (idle, p') = prune_idle now timeout p
     in set (pool_connections p') = {x \<in> set (pool_connections p). now - pc_last_used (snd x) \<le> int timeout} \<and>
        set idle = set (connected_peers p) - set (connected_peers p')"
    by (rule prune_idle_exact[OF d])
  moreover have "length (connected_peers p) \<le> max 1 m" "distinct (connected_peers p)"
    using inv by (simp_all add: pool_inv_def connected_peers_def)
  ultimately show ?thesis by blast
qed

definition demo_pool :: "nat connection_pool" where
  "demo_pool = pool_insert 2 (NodeId [2]) 22 (pool_insert 1 (NodeId [1]) 11 (pool_with_capacity 2))"

theorem pool_bounded_lru_witness:
  "connected_peers demo_pool = [NodeId [1], NodeId [2]] \<and>
   connected_peers (pool_insert 3 (NodeId [2]) 23 demo_pool) = [NodeId [2]] \<and>
   fst (pool_get 4 (NodeId [2]) (pool_insert 3 (NodeId [2]) 23 demo_pool)) = Some 23"
proof -
  have r: "pool_reachable 2 demo_pool" unfolding demo_pool_def by (intro pool_reachable.intros)
  have "fst (pool_get 4 (NodeId [2]) (pool_insert 3 (NodeId [2]) 23 demo_pool)) = Some 23"
    using pool_bounded_lru[OF r, of 4 "NodeId [2]" 3 23 0] by (elim conjE)
  then show ?thesis
    by (simp add: demo_pool_def pool_insert_def pool_with_capacity_def connected_peers_def evict_lru_def oldest_key_def
        pool_remove_def Let_def)
qed

end
