(* ===== verification/Node.thy ===== *)
theory Node
  imports Complex_Main Sql Repair Net_Tables
begin

text \<open>
  The node (craftec-node/src): the index of coded pieces (piece_store.rs), the handler of peer
  messages (handler.rs), the handler of RPC requests (rpc.rs), and the event dispatch loop with the
  encoding tasks it spawns (node.rs).  All components share one object store, the one inside the
  file system of the database.  The serializer, the random choices and the outcomes of input and
  output are parameters.
\<close>

section \<open>The index of coded pieces\<close>

record coded_piece_index =
  cp_index :: "(cid \<times> cid list) list"
  cp_piece_cids :: "cid list"

definition coded_index_new :: coded_piece_index where
  "coded_index_new = \<lparr>cp_index = [], cp_piece_cids = []\<rparr>"

definition coded_index_insert :: "cid \<Rightarrow> cid list \<Rightarrow> coded_piece_index \<Rightarrow> coded_piece_index" where
  "coded_index_insert c pcs ix = ix\<lparr>cp_index := AList.update c pcs (cp_index ix)\<rparr>"

definition mark_piece_cid :: "cid \<Rightarrow> coded_piece_index \<Rightarrow> coded_piece_index" where
  "mark_piece_cid c ix = ix\<lparr>cp_piece_cids := List.insert c (cp_piece_cids ix)\<rparr>"

definition is_piece_cid :: "coded_piece_index \<Rightarrow> cid \<Rightarrow> bool" where
  "is_piece_cid ix c \<longleftrightarrow> c \<in> set (cp_piece_cids ix)"

definition coded_index_get :: "coded_piece_index \<Rightarrow> cid \<Rightarrow> cid list option" where
  "coded_index_get ix c = map_of (cp_index ix) c"

section \<open>The node\<close>

record ('b, 'c, 'g) node_api =
  na_obj :: "('b, 'c) obj_api"
  na_ed :: ed25519
  na_engine :: sql_engine
  na_rng :: "'g rng_api"
  na_encode_piece :: "coded_piece \<Rightarrow> bytes option"
  na_decode_piece :: "bytes \<Rightarrow> coded_piece option"
  na_decode_write :: "bytes \<Rightarrow> signed_write option"
  na_pick :: "nat \<Rightarrow> node_id list \<Rightarrow> node_id list"

record ('b, 'c, 'p, 'g) node =
  nd_id :: node_id
  nd_db :: "('b, 'c, 'p) database"
  nd_tracker :: piece_tracker
  nd_dht :: dht
  nd_pending :: pending_fetches
  nd_index :: coded_piece_index
  nd_swim :: swim
  nd_metrics :: rlnc_metrics
  nd_rng :: 'g

definition nd_store :: "('b, 'c, 'p, 'g) node \<Rightarrow> ('b, 'c) store" where
  "nd_store nd = vf_store (db_vfs (nd_db nd))"

definition set_store :: "('b, 'c) store \<Rightarrow> ('b, 'c, 'p, 'g) node \<Rightarrow> ('b, 'c, 'p, 'g) node" where
  "set_store s nd = nd\<lparr>nd_db := (nd_db nd)\<lparr>db_vfs := (db_vfs (nd_db nd))\<lparr>vf_store := s\<rparr>\<rparr>\<rparr>"

text \<open>The outcomes of the input and output of one message or request.\<close>

record node_io =
  ni_get :: "cid \<Rightarrow> io_faults"
  ni_put :: io_faults
  ni_sql :: sql_io
  ni_now :: instant
  ni_uptime :: u64

section \<open>Messages from peers\<close>

fun read_pieces ::
  "('b, 'c, 'g) node_api \<Rightarrow> (cid \<Rightarrow> io_faults) \<Rightarrow> cid list \<Rightarrow> ('b, 'c) store \<Rightarrow> coded_piece list \<times> ('b, 'c) store" where
  "read_pieces X flt [] s = ([], s)"
| "read_pieces X flt (pc # pcs) s =
     (case get (na_obj X) (flt pc) s pc of
        (Inr (Some d), s') \<Rightarrow>
          (case na_decode_piece X d of
             Some p \<Rightarrow> (let (ps, s'') = read_pieces X flt pcs s' in (p # ps, s''))
           | None \<Rightarrow> read_pieces X flt pcs s')
      | (_, s') \<Rightarrow> read_pieces X flt pcs s')"

definition identity_piece :: "blake3 \<Rightarrow> cid \<Rightarrow> bytes \<Rightarrow> coded_piece" where
  "identity_piece B c d = coded_piece_new B c [1] d (compute_tag B (HomMacKey (cid_bytes c)) [1] d)"

definition handle_piece_request ::
  "('b, 'c, 'g) node_api \<Rightarrow> node_io \<Rightarrow> cid \<Rightarrow> u64 \<Rightarrow> ('b, 'c, 'p, 'g) node \<Rightarrow> wire_message option \<times> ('b, 'c, 'p, 'g) node" where
  "handle_piece_request X io c request_id nd =
     (let (pieces, s) = (case coded_index_get (nd_index nd) c of
                           Some pcs \<Rightarrow> read_pieces X (ni_get io) pcs (nd_store nd)
                         | None \<Rightarrow> ([], nd_store nd))
      in if pieces \<noteq> [] then (Some (PieceResponse pieces request_id), set_store s nd)
         else case get (na_obj X) (ni_get io c) s c of
                (Inr (Some d), s') \<Rightarrow>
                  (Some (PieceResponse [identity_piece (oa_b3 (na_obj X)) c d] request_id), set_store s' nd)
              | (Inr None, s') \<Rightarrow> (Some (PieceResponse [] request_id), set_store s' nd)
              | (Inl e, s') \<Rightarrow> (None, set_store s' nd))"

definition handle_wire_write ::
  "('b, 'c, 'g) node_api \<Rightarrow> node_io \<Rightarrow> bytes \<Rightarrow> signature \<Rightarrow> node_id \<Rightarrow> ('b, 'c, 'p, 'g) node \<Rightarrow> ('b, 'c, 'p, 'g) node" where
  "handle_wire_write X io payload sig writer nd =
     (case na_decode_write X payload of
        None \<Rightarrow> nd
      | Some w \<Rightarrow>
          let w' = w\<lparr>sw_writer := writer, sw_signature := sig\<rparr>
          in nd\<lparr>nd_db := snd (handle_signed_write (na_ed X) (na_engine X) (na_obj X) (ni_sql io) w' (nd_db nd))\<rparr>)"

fun node_handle_message ::
  "('b, 'c, 'g) node_api \<Rightarrow> node_io \<Rightarrow> node_id \<Rightarrow> wire_message \<Rightarrow> ('b, 'c, 'p, 'g) node \<Rightarrow> wire_message option \<times> ('b, 'c, 'p, 'g) node" where
  "node_handle_message X io sender (Ping nonce) nd = (Some (Pong nonce), nd)"
| "node_handle_message X io sender (Pong nonce) nd = (None, nd)"
| "node_handle_message X io sender (PieceRequest c idx request_id) nd = handle_piece_request X io c request_id nd"
| "node_handle_message X io sender (PieceResponse pieces request_id) nd =
     (None, nd\<lparr>nd_pending := foldl (\<lambda>s p. resolve_piece (cid p) p s) (nd_pending nd) pieces\<rparr>)"
| "node_handle_message X io sender (ProviderAnnounce c n) nd =
     (None, nd\<lparr>nd_dht := announce_provider (ni_now io) c n (nd_dht nd)\<rparr>)"
| "node_handle_message X io sender (HealthReport c available target) nd =
     (None, nd\<lparr>nd_tracker := record_piece c \<lparr>ph_node = sender, ph_count = available, ph_last_seen = ni_now io\<rparr> (nd_tracker nd)\<rparr>)"
| "node_handle_message X io sender (SignedWrite payload sig writer ts) nd = (None, handle_wire_write X io payload sig writer nd)"
| "node_handle_message X io sender other nd = (None, nd)"

section \<open>RPC requests\<close>

fun rpc_value_of :: "column_value \<Rightarrow> rpc_value" where
  "rpc_value_of CvNull = RvNull"
| "rpc_value_of (CvInteger v) = RvInteger v"
| "rpc_value_of (CvReal v) = RvReal v"
| "rpc_value_of (CvText v) = RvText v"
| "rpc_value_of (CvBlob v) = RvBlob v"

fun handle_request ::
  "('b, 'c, 'g) node_api \<Rightarrow> node_io \<Rightarrow> node_id \<Rightarrow> rpc_request \<Rightarrow> ('b, 'c, 'p, 'g) node \<Rightarrow> rpc_response \<times> ('b, 'c, 'p, 'g) node" where
  "handle_request X io sender ReqStatus nd =
     (RespStatus (nd_id nd) (of_nat (alive_count (nd_swim nd))) (of_nat (object_count (nd_store nd))) (db_root_cid (nd_db nd)) (ni_uptime io), nd)"
| "handle_request X io sender (ReqStorePut d) nd =
     (case put (na_obj X) (ni_put io) (nd_store nd) d of
        (Inr c, s) \<Rightarrow> (RespStorePut c, set_store s nd)
      | (Inl e, s) \<Rightarrow> (RespError 500 ''store put failed'', set_store s nd))"
| "handle_request X io sender (ReqStoreGet c) nd =
     (case get (na_obj X) (ni_get io c) (nd_store nd) c of
        (Inr r, s) \<Rightarrow> (RespStoreGet r, set_store s nd)
      | (Inl e, s) \<Rightarrow> (RespError 500 ''store get failed'', set_store s nd))"
| "handle_request X io sender ReqStoreList nd = (RespStoreList (list_cids (na_obj X) (nd_store nd)), nd)"
| "handle_request X io sender (ReqSqlQuery sql) nd =
     (case database_query (na_engine X) sql (nd_db nd) of
        (Inr rows, db) \<Rightarrow> (RespSqlQuery (map (map rpc_value_of) rows), nd\<lparr>nd_db := db\<rparr>)
      | (Inl e, db) \<Rightarrow> (RespError 400 ''query failed'', nd\<lparr>nd_db := db\<rparr>))"
| "handle_request X io sender (ReqSqlExecute sql writer sig) nd =
     (if writer \<noteq> nd_id nd then (RespError 403 ''not the database owner'', nd)
      else if \<not> identity_verify (na_ed X) (str_bytes sql) sig writer then (RespError 403 ''invalid signature'', nd)
      else case database_execute (na_engine X) (na_obj X) (ni_sql io) sql writer (nd_db nd) of
             (Inr _, db) \<Rightarrow> (RespSqlExecute (db_root_cid db), nd\<lparr>nd_db := db\<rparr>)
           | (Inl e, db) \<Rightarrow> (RespError 400 ''execute failed'', nd\<lparr>nd_db := db\<rparr>))"
| "handle_request X io sender ReqPeers nd =
     (RespPeers (alive_members (nd_swim nd)) (of_nat (length (alive_members (nd_swim nd)))), nd)"
| "handle_request X io sender (ReqPieceInfo c) nd =
     (RespPieceInfo c (available_count (nd_tracker nd) c) (get_k (nd_tracker nd) c) (holder_nodes (nd_tracker nd) c), nd)"

section \<open>Announcing\<close>

text \<open>
  The logarithm is the real one; the double differs from it by a rounding error, which matters only
  for a number of peers whose logarithm is that close to an integer.
\<close>

definition announce_count :: "nat \<Rightarrow> nat" where
  "announce_count n = max (nat \<lceil>ln (real n)\<rceil>) 1"

definition announce_cid_to_peers :: "('b, 'c, 'g) node_api \<Rightarrow> cid \<Rightarrow> ('b, 'c, 'p, 'g) node \<Rightarrow> (node_id \<times> wire_message) list" where
  "announce_cid_to_peers X c nd =
     (let alive = alive_members (nd_swim nd)
      in if alive = [] then []
         else map (\<lambda>t. (t, ProviderAnnounce c (nd_id nd))) (na_pick X (min (announce_count (length alive)) (length alive)) alive))"

section \<open>Events and encoding tasks\<close>

text \<open>
  An encoding task waits to start, or stores the remaining pieces one by one while it collects the
  identifiers of those stored, or is done.
\<close>

datatype encode_task = TaskStart cid | TaskStore cid "coded_piece list" "cid list" | TaskDone

record ('b, 'c, 'p, 'g) node_sys =
  ns_node :: "('b, 'c, 'p, 'g) node"
  ns_read :: nat
  ns_tasks :: "encode_task list"
  ns_sent :: "(node_id \<times> wire_message) list"

definition event_log :: "('b, 'c, 'p, 'g) node \<Rightarrow> cid list" where
  "event_log nd = (case st_event_tx (nd_store nd) of None \<Rightarrow> [] | Some es \<Rightarrow> es)"

definition dispatch_cid_written :: "('b, 'c, 'g) node_api \<Rightarrow> cid \<Rightarrow> ('b, 'c, 'p, 'g) node_sys \<Rightarrow> ('b, 'c, 'p, 'g) node_sys" where
  "dispatch_cid_written X c y =
     (let y' = y\<lparr>ns_sent := ns_sent y @ announce_cid_to_peers X c (ns_node y)\<rparr>
      in if is_piece_cid (nd_index (ns_node y)) c then y' else y'\<lparr>ns_tasks := ns_tasks y' @ [TaskStart c]\<rparr>)"

definition dispatch_peer_disconnected :: "node_id \<Rightarrow> ('b, 'c, 'p, 'g) node \<Rightarrow> ('b, 'c, 'p, 'g) node" where
  "dispatch_peer_disconnected n nd =
     nd\<lparr>nd_tracker := tracker_remove_node n (nd_tracker nd), nd_dht := dht_remove_node n (nd_dht nd)\<rparr>"

definition task_start ::
  "('b, 'c, 'g) node_api \<Rightarrow> io_faults \<Rightarrow> cid \<Rightarrow> ('b, 'c, 'p, 'g) node \<Rightarrow> encode_task \<times> ('b, 'c, 'p, 'g) node" where
  "task_start X flt c nd =
     (case get (na_obj X) flt (nd_store nd) c of
        (Inr (Some d), s) \<Rightarrow>
          (case encode_body (oa_b3 (na_obj X)) (na_rng X) (nd_metrics nd) d 32 (nd_rng nd) of
             (Inr pieces, m, g) \<Rightarrow>
               (TaskStore c pieces [], (set_store s nd)\<lparr>nd_metrics := m, nd_rng := g, nd_tracker := record_k c 32 (nd_tracker nd)\<rparr>)
           | (Inl e, m, g) \<Rightarrow> (TaskDone, (set_store s nd)\<lparr>nd_metrics := m, nd_rng := g\<rparr>))
      | (_, s) \<Rightarrow> (TaskDone, set_store s nd))"

definition task_store ::
  "('b, 'c, 'g) node_api \<Rightarrow> io_faults \<Rightarrow> coded_piece \<Rightarrow> cid list \<Rightarrow> ('b, 'c, 'p, 'g) node \<Rightarrow> cid list \<times> ('b, 'c, 'p, 'g) node" where
  "task_store X flt p pcids nd =
     (case na_encode_piece X p of
        None \<Rightarrow> (pcids, nd)
      | Some bytes \<Rightarrow>
          let pcid = cid_from_data (oa_b3 (na_obj X)) bytes;
              nd1 = nd\<lparr>nd_index := mark_piece_cid pcid (nd_index nd)\<rparr>
          in case put (na_obj X) flt (nd_store nd1) bytes of
               (Inr c, s) \<Rightarrow> (pcids @ [c], set_store s nd1)
             | (Inl e, s) \<Rightarrow> (pcids, set_store s nd1))"

definition task_finish :: "instant \<Rightarrow> cid \<Rightarrow> cid list \<Rightarrow> ('b, 'c, 'p, 'g) node \<Rightarrow> ('b, 'c, 'p, 'g) node" where
  "task_finish now c pcids nd =
     nd\<lparr>nd_index := coded_index_insert c pcids (nd_index nd),
        nd_tracker := record_piece c \<lparr>ph_node = nd_id nd, ph_count = of_nat (length pcids), ph_last_seen = now\<rparr> (nd_tracker nd)\<rparr>"

text \<open>
  The dispatch loop reads the next event, or loses some when it lags behind the channel; the tasks
  advance between its steps.
\<close>

inductive node_step :: "('b, 'c, 'g) node_api \<Rightarrow> ('b, 'c, 'p, 'g) node_sys \<Rightarrow> ('b, 'c, 'p, 'g) node_sys \<Rightarrow> bool" for X where
  dispatch: "ns_read y < length (event_log (ns_node y)) \<Longrightarrow>
    node_step X y ((dispatch_cid_written X (event_log (ns_node y) ! ns_read y) y)\<lparr>ns_read := ns_read y + 1\<rparr>)"
| lagged: "ns_read y < k \<Longrightarrow> k \<le> length (event_log (ns_node y)) \<Longrightarrow> node_step X y (y\<lparr>ns_read := k\<rparr>)"
| start: "i < length (ns_tasks y) \<Longrightarrow> ns_tasks y ! i = TaskStart c \<Longrightarrow> task_start X flt c (ns_node y) = (t, nd) \<Longrightarrow>
    node_step X y (y\<lparr>ns_node := nd, ns_tasks := (ns_tasks y)[i := t]\<rparr>)"
| store: "i < length (ns_tasks y) \<Longrightarrow> ns_tasks y ! i = TaskStore c (p # ps) pcids \<Longrightarrow>
    task_store X flt p pcids (ns_node y) = (pcids', nd) \<Longrightarrow>
    node_step X y (y\<lparr>ns_node := nd, ns_tasks := (ns_tasks y)[i := TaskStore c ps pcids']\<rparr>)"
| finish: "i < length (ns_tasks y) \<Longrightarrow> ns_tasks y ! i = TaskStore c [] pcids \<Longrightarrow>
    node_step X y (y\<lparr>ns_node := task_finish now c pcids (ns_node y), ns_tasks := (ns_tasks y)[i := TaskDone]\<rparr>)"

inductive_cases node_stepE: "node_step X y y'"

text \<open>An encoding task that runs undisturbed, with the pieces it made.\<close>

fun task_store_all ::
  "('b, 'c, 'g) node_api \<Rightarrow> io_faults \<Rightarrow> coded_piece list \<Rightarrow> cid list \<Rightarrow> ('b, 'c, 'p, 'g) node \<Rightarrow> cid list \<times> ('b, 'c, 'p, 'g) node" where
  "task_store_all X flt [] pcids nd = (pcids, nd)"
| "task_store_all X flt (p # ps) pcids nd = (let (pcids', nd') = task_store X flt p pcids nd in task_store_all X flt ps pcids' nd')"

definition run_encode_task ::
  "('b, 'c, 'g) node_api \<Rightarrow> io_faults \<Rightarrow> instant \<Rightarrow> cid \<Rightarrow> ('b, 'c, 'p, 'g) node \<Rightarrow> coded_piece list \<times> ('b, 'c, 'p, 'g) node" where
  "run_encode_task X flt now c nd =
     (case task_start X flt c nd of
        (TaskStore _ pieces pcids, nd1) \<Rightarrow>
          (let (pcids', nd2) = task_store_all X flt pieces pcids nd1 in (pieces, task_finish now c pcids' nd2))
      | (_, nd1) \<Rightarrow> ([], nd1))"

section \<open>The event cascade terminates\<close>

fun task_weight :: "encode_task \<Rightarrow> nat" where
  "task_weight (TaskStart c) = 162"
| "task_weight (TaskStore c ps pcids) = 2 * length ps + 1"
| "task_weight TaskDone = 0"

definition event_weight :: "coded_piece_index \<Rightarrow> cid \<Rightarrow> nat" where
  "event_weight ix c = (if is_piece_cid ix c then 1 else 163)"

definition unread_events :: "('b, 'c, 'p, 'g) node_sys \<Rightarrow> cid list" where
  "unread_events y = drop (ns_read y) (event_log (ns_node y))"

definition ns_weight :: "('b, 'c, 'p, 'g) node_sys \<Rightarrow> nat" where
  "ns_weight y = sum_list (map (event_weight (nd_index (ns_node y))) (unread_events y)) + sum_list (map task_weight (ns_tasks y))"

lemma get_event_tx: "st_event_tx (snd (get A flt s c)) = st_event_tx s"
  by (simp add: get_def Let_def split: prod.splits option.splits if_splits io_error.splits)

lemma put_event_tx:
  "st_event_tx (snd (put A flt s d)) = st_event_tx s \<or>
   st_event_tx (snd (put A flt s d)) = map_option (\<lambda>es. es @ [cid_from_data (oa_b3 A) d]) (st_event_tx s)"
  by (simp add: put_def Let_def split: option.splits)

lemma set_store_simps [simp]:
  "nd_store (set_store s nd) = s" "nd_index (set_store s nd) = nd_index nd" "nd_tracker (set_store s nd) = nd_tracker nd"
  "nd_id (set_store s nd) = nd_id nd" "nd_dht (set_store s nd) = nd_dht nd" "nd_pending (set_store s nd) = nd_pending nd"
  by (simp_all add: nd_store_def set_store_def)

lemma nd_store_update [simp]:
  "nd_store (nd\<lparr>nd_index := ix\<rparr>) = nd_store nd" "nd_store (nd\<lparr>nd_tracker := t\<rparr>) = nd_store nd"
  "nd_store (nd\<lparr>nd_metrics := m\<rparr>) = nd_store nd" "nd_store (nd\<lparr>nd_rng := g\<rparr>) = nd_store nd"
  by (simp_all add: nd_store_def)

lemma encode_body_length:
  assumes "encode_body B R m d 32 g = (Inr pieces, m', g')"
  shows "length pieces = 80"
proof -
  obtain e where e: "encoder_new B d 32 = Inr e"
    using assms by (auto simp: encode_body_def split: sum.splits)
  have "enc_k e = 32" "encoder_wf e" using encoder_new_cases[OF e] by simp_all
  then have "length pieces = target_n 32"
    using assms e encode_n_valid[of e B R "target_n 32" g] by (auto simp: encode_body_def Let_def target_pieces_def split: prod.splits)
  then show ?thesis by (simp add: target_n_32)
qed

lemma task_start_facts:
  assumes "task_start X flt c nd = (t, nd')"
  shows "event_log nd' = event_log nd" "nd_index nd' = nd_index nd" "task_weight t < 162"
  using assms get_event_tx[of "na_obj X" flt "nd_store nd" c]
  by (auto simp: task_start_def event_log_def split: prod.splits sum.splits option.splits dest!: encode_body_length)

lemma task_store_facts:
  assumes "task_store X flt p pcids nd = (pcids', nd')"
  shows "event_log nd' = event_log nd \<and> (\<forall>c. is_piece_cid (nd_index nd) c \<longrightarrow> is_piece_cid (nd_index nd') c) \<or>
    (\<exists>c. event_log nd' = event_log nd @ [c] \<and> is_piece_cid (nd_index nd') c \<and>
       (\<forall>c. is_piece_cid (nd_index nd) c \<longrightarrow> is_piece_cid (nd_index nd') c))"
proof (cases "na_encode_piece X p")
  case None
  then show ?thesis using assms by (simp add: task_store_def)
next
  case (Some b)
  let ?c = "cid_from_data (oa_b3 (na_obj X)) b"
  have nd': "nd_index nd' = mark_piece_cid ?c (nd_index nd)" "nd_store nd' = snd (put (na_obj X) flt (nd_store nd) b)"
    using assms Some by (auto simp: task_store_def Let_def split: prod.splits sum.splits)
  have "event_log nd' = event_log nd \<or> event_log nd' = event_log nd @ [?c]"
    using put_event_tx[of "na_obj X" flt "nd_store nd" b] by (auto simp: event_log_def nd'(2) split: option.splits)
  then show ?thesis by (auto simp: nd'(1) is_piece_cid_def mark_piece_cid_def)
qed

lemma weight_mono:
  assumes "\<forall>c. is_piece_cid ix c \<longrightarrow> is_piece_cid ix' c"
  shows "sum_list (map (event_weight ix') cs) \<le> sum_list (map (event_weight ix) cs)"
  using assms by (intro sum_list_mono) (auto simp: event_weight_def)

lemma weight_drop: "sum_list (map f (drop n xs)) \<le> (sum_list (map f xs) :: nat)"
  by (induction xs arbitrary: n) (auto simp: drop_Cons trans_le_add2 split: nat.splits)

lemma sum_list_update_nat: "i < length xs \<Longrightarrow> sum_list (xs[i := y]) + xs ! i = sum_list xs + (y :: nat)"
  by (induction xs arbitrary: i) (auto simp: nth_Cons split: nat.splits)

lemma task_sum:
  "i < length ts \<Longrightarrow> sum_list (map task_weight (ts[i := t])) + task_weight (ts ! i) = sum_list (map task_weight ts) + task_weight t"
  using sum_list_update_nat[of i "map task_weight ts" "task_weight t"] by (simp add: map_update)

lemma node_step_weight: "node_step X y y' \<Longrightarrow> ns_weight y' < ns_weight y"
proof (induction rule: node_step.induct)
  case (dispatch y)
  let ?c = "event_log (ns_node y) ! ns_read y"
  have u: "unread_events y = ?c # drop (Suc (ns_read y)) (event_log (ns_node y))"
    using dispatch by (simp add: unread_events_def Cons_nth_drop_Suc)
  show ?case
    unfolding ns_weight_def u by (simp add: dispatch_cid_written_def unread_events_def event_weight_def Let_def)
next
  case (lagged y k)
  let ?es = "event_log (ns_node y)" and ?w = "\<lambda>xs. sum_list (map (event_weight (nd_index (ns_node y))) xs)"
  have "drop (ns_read y) ?es = ?es ! ns_read y # drop (Suc (ns_read y)) ?es" using lagged by (simp add: Cons_nth_drop_Suc)
  moreover have "?w (drop k ?es) \<le> ?w (drop (Suc (ns_read y)) ?es)"
    using weight_drop[of _ "k - Suc (ns_read y)" "drop (Suc (ns_read y)) ?es"] lagged by simp
  moreover have "0 < event_weight (nd_index (ns_node y)) (?es ! ns_read y)" by (simp add: event_weight_def)
  ultimately show ?case by (simp add: ns_weight_def unread_events_def)
next
  case (start i y c flt t nd)
  note f = task_start_facts[OF start(3)]
  show ?case using task_sum[OF start(1), of t] start(2) f by (simp add: ns_weight_def unread_events_def)
next
  case (store i y c p ps pcids flt pcids' nd)
  note t = task_sum[OF store(1), of "TaskStore c ps pcids'"]
  have "sum_list (map (event_weight (nd_index nd)) (drop (ns_read y) (event_log nd))) \<le>
      sum_list (map (event_weight (nd_index (ns_node y))) (drop (ns_read y) (event_log (ns_node y)))) + 1"
    using task_store_facts[OF store(3)]
  proof (elim disjE exE conjE)
    fix e assume "event_log nd = event_log (ns_node y) @ [e]" "is_piece_cid (nd_index nd) e"
      and "\<forall>c. is_piece_cid (nd_index (ns_node y)) c \<longrightarrow> is_piece_cid (nd_index nd) c"
    then show ?thesis
      using weight_mono[of "nd_index (ns_node y)" "nd_index nd" "drop (ns_read y) (event_log (ns_node y))"]
      by (cases "ns_read y \<le> length (event_log (ns_node y))") (auto simp: event_weight_def)
  qed (use weight_mono in \<open>fastforce simp: le_Suc_eq\<close>)
  then show ?case using t store(2) by (simp add: ns_weight_def unread_events_def)
next
  case (finish i y c pcids now)
  have "event_log (task_finish now c pcids (ns_node y)) = event_log (ns_node y)"
    "event_weight (nd_index (task_finish now c pcids (ns_node y))) = event_weight (nd_index (ns_node y))"
    by (auto simp: task_finish_def event_log_def nd_store_def event_weight_def is_piece_cid_def coded_index_insert_def)
  then show ?case using task_sum[OF finish(1), of TaskDone] finish(2) by (simp add: ns_weight_def unread_events_def)
qed

lemma node_steps_weight: "(node_step X ^^ n) y y' \<Longrightarrow> n + ns_weight y' \<le> ns_weight y"
proof (induction n arbitrary: y')
  case (Suc n)
  then obtain z where "(node_step X ^^ n) y z" "node_step X z y'" by auto
  then show ?case using Suc.IH[of z] node_step_weight[of X z y'] by simp
qed simp

lemma node_step_possible:
  assumes "unread_events y \<noteq> [] \<or> t \<in> set (ns_tasks y) \<and> t \<noteq> TaskDone"
  shows "\<exists>y'. node_step X y y'"
proof (cases "unread_events y = []")
  case False
  then show ?thesis using node_step.dispatch[of y X] by (force simp: unread_events_def)
next
  case True
  then obtain i where i: "i < length (ns_tasks y)" "ns_tasks y ! i = t" and t: "t \<noteq> TaskDone"
    using assms by (auto simp: in_set_conv_nth)
  show ?thesis
  proof (cases t)
    case (TaskStart c)
    obtain t' nd where "task_start X no_faults c (ns_node y) = (t', nd)" by (cases "task_start X no_faults c (ns_node y)")
    then show ?thesis using node_step.start[OF i(1)] i(2) TaskStart by blast
  next
    case (TaskStore c ps pcids)
    show ?thesis
    proof (cases ps)
      case Nil
      then show ?thesis using node_step.finish[OF i(1)] i(2) TaskStore by blast
    next
      case (Cons p ps')
      obtain pcids' nd where "task_store X no_faults p pcids (ns_node y) = (pcids', nd)"
        by (cases "task_store X no_faults p pcids (ns_node y)")
      then show ?thesis using node_step.store[OF i(1)] i(2) TaskStore Cons by blast
    qed
  qed (use t in simp)
qed

lemma node_step_rest: "node_step X y y' \<Longrightarrow> unread_events y \<noteq> [] \<or> (\<exists>t \<in> set (ns_tasks y). t \<noteq> TaskDone)"
  by (induction rule: node_step.induct) (force simp: unread_events_def in_set_conv_nth Bex_def)+

text \<open>
  C16. The encoding cascade terminates.  Storing the pieces of an encoding writes further objects,
  each of which is announced as written; but a piece is marked before it is stored, so that its
  event starts no further encoding.  With any faults and in any interleaving of the dispatch loop and
  the tasks, the node takes at most as many steps as the weight of its unread events (163 for one of
  new content, 1 for one of a piece) and of its tasks; and it comes to rest exactly when every event
  is read and every task is done.
\<close>

theorem encoding_terminates:
  "{n. \<exists>y'. (node_step X ^^ n) y y'} \<subseteq> {..ns_weight y} \<and>
   ((\<nexists>y'. node_step X y y') \<longleftrightarrow> unread_events y = [] \<and> set (ns_tasks y) \<subseteq> {TaskDone})"
proof (intro conjI)
  show "{n. \<exists>y'. (node_step X ^^ n) y y'} \<subseteq> {..ns_weight y}" using node_steps_weight[of _ X y] by fastforce
  show "(\<nexists>y'. node_step X y y') \<longleftrightarrow> unread_events y = [] \<and> set (ns_tasks y) \<subseteq> {TaskDone}"
    using node_step_possible[of y _ X] node_step_rest[of X y] by blast
qed

section \<open>Serving pieces\<close>

lemma read_pieces_clean:
  assumes "store_clean (na_obj X) s" "\<forall>x. flt_read (flt x) = None" "list_all cid_wf pcs"
  shows "fst (read_pieces X flt pcs s) = stored_pieces (na_obj X) (na_decode_piece X) s pcs \<and>
    store_clean (na_obj X) (snd (read_pieces X flt pcs s)) \<and> obj_lookup (na_obj X) (snd (read_pieces X flt pcs s)) = obj_lookup (na_obj X) s"
  using assms
proof (induction pcs arbitrary: s)
  case Nil
  then show ?case by (simp add: stored_pieces_def map_filter_def)
next
  case (Cons pc pcs)
  let ?A = "na_obj X"
  obtain r s' where g: "get ?A (flt pc) s pc = (r, s')" by (cases "get ?A (flt pc) s pc")
  then have r: "r = Inr (obj_lookup ?A s pc)"
    using get_clean(2)[OF Cons.prems(1), of "flt pc" pc] Cons.prems(2,3) by simp
  have k: "store_clean ?A s'" "obj_lookup ?A s' = obj_lookup ?A s"
    using get_keeps_clean[OF Cons.prems(1), of "flt pc" pc] Cons.prems(2) g by simp_all
  have same: "stored_pieces ?A dec s' pcs = stored_pieces ?A dec s pcs" for dec by (simp add: stored_pieces_def k(2))
  show ?case
    using Cons.IH[OF k(1) Cons.prems(2)] Cons.prems(3)
    by (auto simp: g r k(2) same stored_pieces_Cons Let_def case_prod_unfold split: option.splits)
qed

lemma handle_piece_request_clean:
  assumes "store_clean (na_obj X) (nd_store nd)" "\<forall>x. flt_read (ni_get io x) = None" "cid_wf c"
    and "list_all cid_wf (case coded_index_get (nd_index nd) c of None \<Rightarrow> [] | Some pcs \<Rightarrow> pcs)"
  defines "ps \<equiv> stored_pieces (na_obj X) (na_decode_piece X) (nd_store nd) (case coded_index_get (nd_index nd) c of None \<Rightarrow> [] | Some pcs \<Rightarrow> pcs)"
  shows "\<exists>s. handle_piece_request X io c rid nd =
      (Some (PieceResponse (if ps \<noteq> [] then ps
         else case obj_lookup (na_obj X) (nd_store nd) c of None \<Rightarrow> [] | Some d \<Rightarrow> [identity_piece (oa_b3 (na_obj X)) c d]) rid), set_store s nd) \<and>
    store_clean (na_obj X) s \<and> obj_lookup (na_obj X) s = obj_lookup (na_obj X) (nd_store nd)"
proof -
  let ?A = "na_obj X" and ?pcs = "case coded_index_get (nd_index nd) c of None \<Rightarrow> [] | Some pcs \<Rightarrow> pcs"
  obtain s where s: "(case coded_index_get (nd_index nd) c of Some pcs \<Rightarrow> read_pieces X (ni_get io) pcs (nd_store nd) | None \<Rightarrow> ([], nd_store nd)) = (ps, s)"
      "store_clean ?A s" "obj_lookup ?A s = obj_lookup ?A (nd_store nd)"
    using read_pieces_clean[OF assms(1,2,4)]
    by (cases "read_pieces X (ni_get io) ?pcs (nd_store nd)") (auto simp: ps_def split: option.splits)
  obtain r s' where g: "get ?A (ni_get io c) s c = (r, s')" by (cases "get ?A (ni_get io c) s c")
  have "r = Inr (obj_lookup ?A (nd_store nd) c)" "store_clean ?A s'" "obj_lookup ?A s' = obj_lookup ?A (nd_store nd)"
    using get_clean(2)[OF s(2), of "ni_get io c" c] get_keeps_clean[OF s(2), of "ni_get io c" c] assms(2,3) g s(3) by simp_all
  then show ?thesis
    using s g unfolding handle_piece_request_def s(1) by (auto split: option.splits)
qed

lemma identity_piece_valid: "valid_piece B c (length d) [d] (identity_piece B c d)"
proof -
  have "vec_comb (length d) [d] [1] = d" by (rule vec_comb_eqI[symmetric]) (simp_all add: all_len_def to_gf_hom)
  then show ?thesis
    by (simp add: valid_piece_def identity_piece_def verify_mac_verify_tag) (simp add: verify_tag_def)
qed

lemma task_store_ok:
  assumes clean: "store_clean (na_obj X) (nd_store nd)" and flt: "flt_write flt = None" "flt_rename flt = None"
    and enc: "na_encode_piece X p = Some b" and inj: "inj_on (cid_from_data (oa_b3 (na_obj X))) S"
    and S: "ran (obj_lookup (na_obj X) (nd_store nd)) \<subseteq> S" "b \<in> S"
  shows "\<exists>nd'. task_store X flt p pcids nd = (pcids @ [cid_from_data (oa_b3 (na_obj X)) b], nd') \<and>
    store_clean (na_obj X) (nd_store nd') \<and>
    obj_lookup (na_obj X) (nd_store nd') = (obj_lookup (na_obj X) (nd_store nd))(cid_from_data (oa_b3 (na_obj X)) b \<mapsto> b) \<and>
    nd_id nd' = nd_id nd \<and> nd_tracker nd' = nd_tracker nd"
proof -
  let ?A = "na_obj X" and ?c = "cid_from_data (oa_b3 (na_obj X)) b"
  obtain s where p: "put ?A flt (nd_store nd) b = (Inr ?c, s)"
    using put_succeeds[OF flt, of ?A "nd_store nd" b] by (cases "put ?A flt (nd_store nd) b") simp
  note pc = put_clean[OF clean, where flt = flt and d = b, unfolded p fst_conv snd_conv]
  obtain d where d: "obj_lookup ?A s ?c = Some d" using pc(2)[of ?c] by auto
  have "d = b"
  proof (cases "obj_lookup ?A (nd_store nd) ?c")
    case (Some d')
    then have "d' \<in> S" "cid_from_data (oa_b3 ?A) d' = ?c" using S(1) store_cleanD(2)[OF clean Some] by (auto intro: ranI)
    then have "d' = b" using inj S(2) by (auto dest: inj_onD)
    then show ?thesis using pc(5) d Some by auto
  qed (use pc(5) d in auto)
  then have "obj_lookup ?A s = (obj_lookup ?A (nd_store nd))(?c \<mapsto> b)" using pc(3) d by (intro ext) auto
  then show ?thesis using pc(1) by (simp add: task_store_def enc p Let_def)
qed

lemma task_store_all_ok:
  assumes "store_clean (na_obj X) (nd_store nd)" and flt: "flt_write flt = None" "flt_rename flt = None"
    and ser: "list_all (\<lambda>p. \<exists>b \<in> S. na_encode_piece X p = Some b \<and> na_decode_piece X b = Some p) ps"
    and inj: "inj_on (cid_from_data (oa_b3 (na_obj X))) S" and "ran (obj_lookup (na_obj X) (nd_store nd)) \<subseteq> S"
  shows "\<exists>pcs nd'. task_store_all X flt ps pcids nd = (pcids @ pcs, nd') \<and> length pcs = length ps \<and>
    store_clean (na_obj X) (nd_store nd') \<and> obj_lookup (na_obj X) (nd_store nd) \<subseteq>\<^sub>m obj_lookup (na_obj X) (nd_store nd') \<and>
    list_all cid_wf pcs \<and> stored_pieces (na_obj X) (na_decode_piece X) (nd_store nd') pcs = ps \<and>
    nd_id nd' = nd_id nd \<and> nd_tracker nd' = nd_tracker nd"
  using assms(1,4,6)
proof (induction ps arbitrary: pcids nd)
  case Nil
  then show ?case by (simp add: stored_pieces_def map_filter_def)
next
  case (Cons p ps)
  let ?A = "na_obj X"
  obtain b where b: "b \<in> S" "na_encode_piece X p = Some b" "na_decode_piece X b = Some p" using Cons.prems(2) by auto
  let ?c = "cid_from_data (oa_b3 ?A) b"
  obtain nd1 where nd1: "task_store X flt p pcids nd = (pcids @ [?c], nd1)" "store_clean ?A (nd_store nd1)"
    "obj_lookup ?A (nd_store nd1) = (obj_lookup ?A (nd_store nd))(?c \<mapsto> b)" "nd_id nd1 = nd_id nd" "nd_tracker nd1 = nd_tracker nd"
    using task_store_ok[OF Cons.prems(1) flt b(2) inj Cons.prems(3) b(1), of pcids] by blast
  have "ran (obj_lookup ?A (nd_store nd1)) \<subseteq> S" using Cons.prems(3) b(1) by (auto simp: nd1(3) ran_def split: if_splits)
  then obtain pcs nd' where r: "task_store_all X flt ps (pcids @ [?c]) nd1 = ((pcids @ [?c]) @ pcs, nd')" "length pcs = length ps"
    "store_clean ?A (nd_store nd')" "obj_lookup ?A (nd_store nd1) \<subseteq>\<^sub>m obj_lookup ?A (nd_store nd')" "list_all cid_wf pcs"
    "stored_pieces ?A (na_decode_piece X) (nd_store nd') pcs = ps" "nd_id nd' = nd_id nd1" "nd_tracker nd' = nd_tracker nd1"
    using Cons.IH[OF nd1(2), of "pcids @ [?c]"] Cons.prems(2) by auto
  have l: "obj_lookup ?A (nd_store nd') ?c = Some b" using r(4) nd1(3) by (simp add: map_le_def dom_def)
  have "obj_lookup ?A (nd_store nd) x = Some d \<Longrightarrow> obj_lookup ?A (nd_store nd') x = Some d" for x d
  proof (cases "x = ?c")
    case True
    assume x: "obj_lookup ?A (nd_store nd) x = Some d"
    then have "d \<in> S" "cid_from_data (oa_b3 ?A) d = ?c" using Cons.prems(3) store_cleanD(2)[OF Cons.prems(1) x] True by (auto intro: ranI)
    then show ?thesis using inj b(1) l True by (auto dest: inj_onD)
  next
    case False
    assume "obj_lookup ?A (nd_store nd) x = Some d"
    then show ?thesis using False r(4) nd1(3) by (auto simp: map_le_def dom_def split: if_splits)
  qed
  then have "obj_lookup ?A (nd_store nd) \<subseteq>\<^sub>m obj_lookup ?A (nd_store nd')" by (auto simp: map_le_def)
  moreover have "cid_wf ?c" using l by (auto simp: obj_lookup_def split: if_splits)
  ultimately show ?case using r l b(3) nd1 by (intro exI[of _ "?c # pcs"] exI[of _ nd']) (simp add: stored_pieces_Cons)
qed

lemma task_start_ok:
  assumes "store_clean (na_obj X) (nd_store nd)" "obj_lookup (na_obj X) (nd_store nd) c = Some d" "flt_read flt = None"
  shows "\<exists>e ps nd1. encoder_new (oa_b3 (na_obj X)) d 32 = Inr e \<and> task_start X flt c nd = (TaskStore c ps [], nd1) \<and> length ps = 80 \<and>
    list_all (valid_piece (oa_b3 (na_obj X)) c (piece_size e) (original_pieces e)) ps \<and>
    store_clean (na_obj X) (nd_store nd1) \<and> obj_lookup (na_obj X) (nd_store nd1) = obj_lookup (na_obj X) (nd_store nd) \<and>
    nd_id nd1 = nd_id nd \<and> nd_tracker nd1 = record_k c 32 (nd_tracker nd) \<and>
    ps = fst (encode_n (oa_b3 (na_obj X)) (na_rng X) e (target_pieces e) (nd_rng nd))"
proof -
  let ?A = "na_obj X" and ?B = "oa_b3 (na_obj X)"
  have wf: "cid_wf c" using assms(2) by (simp add: obj_lookup_def split: if_splits)
  obtain s where g: "get ?A flt (nd_store nd) c = (Inr (Some d), s)"
    using get_clean(2)[OF assms(1), of flt c] wf assms(2,3) by (cases "get ?A flt (nd_store nd) c") simp
  have k: "store_clean ?A s" "obj_lookup ?A s = obj_lookup ?A (nd_store nd)"
    using get_keeps_clean[OF assms(1), of flt c] assms(3) g by simp_all
  obtain e where e: "encoder_new ?B d 32 = Inr e" by (simp add: encoder_new_def Let_def)
  note ee = encoder_new_cases[OF e]
  obtain ps g' where ps: "encode_n ?B (na_rng X) e (target_pieces e) (nd_rng nd) = (ps, g')"
    by (cases "encode_n ?B (na_rng X) e (target_pieces e) (nd_rng nd)")
  have "length ps = 80" "list_all (valid_piece ?B c (piece_size e) (original_pieces e)) ps"
    using encode_n_valid[OF ee(1), of ?B "na_rng X" "target_pieces e" "nd_rng nd"] ee(2,3) ps store_cleanD(2)[OF assms(1,2)]
    by (simp_all add: target_pieces_def target_n_32)
  then show ?thesis using g e ps k by (auto simp: task_start_def encode_body_def)
qed

lemma run_encode_task_steps:
  assumes "ns_node y = nd" "i < length (ns_tasks y)" "ns_tasks y ! i = TaskStore c ps pcids"
    and "task_store_all X flt ps pcids nd = (pcids', nd')"
  shows "(node_step X)\<^sup>*\<^sup>* y (y\<lparr>ns_node := task_finish now c pcids' nd', ns_tasks := (ns_tasks y)[i := TaskDone]\<rparr>)"
  using assms
proof (induction ps arbitrary: y nd pcids)
  case Nil
  then show ?case using node_step.finish[of i y c pcids X now] by (auto intro!: r_into_rtranclp)
next
  case (Cons p ps)
  obtain pcids1 nd1 where s: "task_store X flt p pcids nd = (pcids1, nd1)" by (cases "task_store X flt p pcids nd")
  let ?y = "y\<lparr>ns_node := nd1, ns_tasks := (ns_tasks y)[i := TaskStore c ps pcids1]\<rparr>"
  have "node_step X y ?y" using node_step.store[of i y c p ps pcids X flt pcids1 nd1] Cons.prems s by simp
  moreover have "(node_step X)\<^sup>*\<^sup>* ?y (y\<lparr>ns_node := task_finish now c pcids' nd', ns_tasks := (ns_tasks y)[i := TaskDone]\<rparr>)"
    using Cons.IH[of ?y nd1 pcids1] Cons.prems s by simp
  ultimately show ?case by (rule converse_rtranclp_into_rtranclp)
qed

lemma encoded_pieces_served:
  assumes "store_clean (na_obj X) (nd_store nd)" "obj_lookup (na_obj X) (nd_store nd) c = Some d"
    and "flt_read flt = None" "flt_write flt = None" "flt_rename flt = None" "\<forall>x. flt_read (ni_get io x) = None"
    and "run_encode_task X flt now c nd = (ps, nd')"
    and "list_all (\<lambda>p. \<exists>b. na_encode_piece X p = Some b \<and> na_decode_piece X b = Some p) ps"
    and "inj_on (cid_from_data (oa_b3 (na_obj X)))
      (ran (obj_lookup (na_obj X) (nd_store nd)) \<union> {b. \<exists>p \<in> set ps. na_encode_piece X p = Some b})"
  obtains e nd1 pcs nd2 where "encoder_new (oa_b3 (na_obj X)) d 32 = Inr e" "length ps = 80"
    "list_all (valid_piece (oa_b3 (na_obj X)) c (piece_size e) (original_pieces e)) ps"
    "fst (node_handle_message X io sender (PieceRequest c idx rid) nd') = Some (PieceResponse ps rid)"
    "task_start X flt c nd = (TaskStore c ps [], nd1)" "task_store_all X flt ps [] nd1 = (pcs, nd2)" "nd' = task_finish now c pcs nd2"
    "length pcs = 80" "nd_id nd2 = nd_id nd" "nd_tracker nd2 = record_k c 32 (nd_tracker nd)"
proof -
  let ?A = "na_obj X" and ?B = "oa_b3 (na_obj X)"
  let ?S = "ran (obj_lookup ?A (nd_store nd)) \<union> {b. \<exists>p \<in> set ps. na_encode_piece X p = Some b}"
  obtain e ps' nd1 where s: "encoder_new ?B d 32 = Inr e" "task_start X flt c nd = (TaskStore c ps' [], nd1)" "length ps' = 80"
      "list_all (valid_piece ?B c (piece_size e) (original_pieces e)) ps'" "store_clean ?A (nd_store nd1)"
      "obj_lookup ?A (nd_store nd1) = obj_lookup ?A (nd_store nd)" "nd_id nd1 = nd_id nd" "nd_tracker nd1 = record_k c 32 (nd_tracker nd)"
    using task_start_ok[OF assms(1-3)] by blast
  then have ps: "ps' = ps" using assms(7) by (auto simp: run_encode_task_def split: prod.splits)
  have ser: "list_all (\<lambda>p. \<exists>b \<in> ?S. na_encode_piece X p = Some b \<and> na_decode_piece X b = Some p) ps"
    using assms(8) by (fastforce simp: list_all_iff)
  have S: "ran (obj_lookup ?A (nd_store nd1)) \<subseteq> ?S" by (simp add: s(6))
  obtain pcs nd2 where t: "task_store_all X flt ps [] nd1 = (pcs, nd2)" "length pcs = length ps"
      "store_clean ?A (nd_store nd2)" "list_all cid_wf pcs"
      "stored_pieces ?A (na_decode_piece X) (nd_store nd2) pcs = ps" "nd_id nd2 = nd_id nd1" "nd_tracker nd2 = nd_tracker nd1"
    using task_store_all_ok[OF s(5) assms(4,5) ser assms(9) S, of "[]"] by auto
  have nd': "nd' = task_finish now c pcs nd2" using assms(7) s(2) t(1) ps by (simp add: run_encode_task_def)
  have i: "coded_index_get (nd_index nd') c = Some pcs" "nd_store nd' = nd_store nd2"
    by (simp_all add: nd' task_finish_def coded_index_get_def coded_index_insert_def update_conv')
  have wf: "cid_wf c" using assms(2) by (simp add: obj_lookup_def split: if_splits)
  have "\<exists>st. handle_piece_request X io c rid nd' = (Some (PieceResponse ps rid), st)"
    using handle_piece_request_clean[of X nd' io c rid] t(3-5) s(3) ps assms(6) wf by (auto simp: i)
  then have "fst (node_handle_message X io sender (PieceRequest c idx rid) nd') = Some (PieceResponse ps rid)" by auto
  then show thesis using that s t nd' ps by auto
qed


definition demo_const_rng :: "unit rng_api" where
  "demo_const_rng = \<lparr>rng_gen = \<lambda>g. (1, g), rng_range = \<lambda>lo hi g. (lo, g)\<rparr>"

definition demo_node_enc :: rlnc_encoder where
  "demo_node_enc = projr (encoder_new (oa_b3 demo_api) [7] 32)"

definition demo_node_api :: "(bytes list, cid \<Rightarrow> bytes option, unit) node_api" where
  "demo_node_api = \<lparr>na_obj = demo_api, na_ed = demo_ed, na_engine = demo_engine, na_rng = demo_const_rng,
     na_encode_piece = \<lambda>p. Some [9], na_decode_piece = \<lambda>b. Some (fst (encode_piece (oa_b3 demo_api) demo_const_rng demo_node_enc ())),
     na_decode_write = \<lambda>b. None, na_pick = take\<rparr>"

definition demo_node_store :: "(bytes list, cid \<Rightarrow> bytes option) store" where
  "demo_node_store = snd (put demo_api no_faults (store_new demo_api [] 4) [7])"

definition demo_node :: "(bytes list, cid \<Rightarrow> bytes option, cid \<times> u32 \<Rightarrow> bytes option, unit) node" where
  "demo_node = set_store demo_node_store \<lparr>nd_id = NodeId [1], nd_db = demo_db, nd_tracker = tracker_new, nd_dht = dht_new, nd_pending = pending_new,
     nd_index = coded_index_new, nd_swim = demo_swim, nd_metrics = metrics engine_new, nd_rng = ()\<rparr>"

definition demo_node_io :: node_io where
  "demo_node_io = \<lparr>ni_get = \<lambda>_. no_faults, ni_put = no_faults, ni_sql = demo_io, ni_now = 0, ni_uptime = 0\<rparr>"

lemma encode_n_unit: "set (fst (encode_n B R e n g)) \<subseteq> {fst (encode_piece B R e ())}"
  by (induction n arbitrary: g) (auto simp: Let_def case_prod_beta)

lemma demo_node_store_clean:
  "store_clean demo_api demo_node_store" "obj_lookup demo_api demo_node_store = [Cid (sum_hash [7]) \<mapsto> [7]]"
proof -
  note c = demo_new_clean
  have e: "obj_lookup demo_api (store_new demo_api [] 4) x = None" for x by (simp add: obj_lookup_def store_new_def fs_lookup_def)
  have ok: "fst (put demo_api no_faults (store_new demo_api [] 4) [7]) = Inr (Cid (sum_hash [7]))"
    using put_succeeds[of no_faults demo_api "store_new demo_api [] 4" "[7]"] by (simp add: no_faults_def)
  show "store_clean demo_api demo_node_store" unfolding demo_node_store_def by (rule put_clean(1)[OF c])
  show "obj_lookup demo_api demo_node_store = [Cid (sum_hash [7]) \<mapsto> [7]]"
    using put_clean(3)[OF c, where flt = no_faults and d = "[7]"] put_clean(4)[OF c, where flt = no_faults and d = "[7]"] e ok
    unfolding demo_node_store_def by (intro ext) (auto simp: is_ok_def)
qed

text \<open>The encoding of the object \<open>[7]\<close> on the concrete node, and that it meets the conditions above.\<close>

lemma demo_encode_task:
  defines "c \<equiv> Cid (sum_hash [7])"
  shows "store_clean (na_obj demo_node_api) (nd_store demo_node)" "obj_lookup (na_obj demo_node_api) (nd_store demo_node) c = Some [7]"
    and "run_encode_task demo_node_api no_faults 0 c demo_node = (ps, nd') \<Longrightarrow>
      list_all (\<lambda>p. \<exists>b. na_encode_piece demo_node_api p = Some b \<and> na_decode_piece demo_node_api b = Some p) ps"
    and "inj_on (cid_from_data (oa_b3 (na_obj demo_node_api)))
      (ran (obj_lookup (na_obj demo_node_api) (nd_store demo_node)) \<union> {b. \<exists>p \<in> set ps. na_encode_piece demo_node_api p = Some b})"
proof -
  have st: "nd_store demo_node = demo_node_store" "na_obj demo_node_api = demo_api" by (simp_all add: demo_node_def demo_node_api_def)
  show h: "store_clean (na_obj demo_node_api) (nd_store demo_node)" "obj_lookup (na_obj demo_node_api) (nd_store demo_node) c = Some [7]"
    using demo_node_store_clean by (simp_all add: st c_def)
  have f: "flt_read no_faults = None" by (simp add: no_faults_def)
  show "list_all (\<lambda>p. \<exists>b. na_encode_piece demo_node_api p = Some b \<and> na_decode_piece demo_node_api b = Some p) ps"
    if r: "run_encode_task demo_node_api no_faults 0 c demo_node = (ps, nd')"
  proof -
    obtain e ps' nd1 where s: "encoder_new (oa_b3 demo_api) [7] 32 = Inr e" "task_start demo_node_api no_faults c demo_node = (TaskStore c ps' [], nd1)"
        "ps' = fst (encode_n (oa_b3 demo_api) demo_const_rng e (target_pieces e) (nd_rng demo_node))"
      using task_start_ok[OF h f] by (auto simp: st demo_node_api_def)
    then have "ps' = ps" "e = demo_node_enc" using r by (auto simp: run_encode_task_def demo_node_enc_def split: prod.splits)
    then have "set ps \<subseteq> {fst (encode_piece (oa_b3 demo_api) demo_const_rng demo_node_enc ())}"
      using encode_n_unit[of "oa_b3 demo_api" demo_const_rng e "target_pieces e" "nd_rng demo_node"] s(3) by simp
    then show ?thesis by (auto simp: list_all_iff demo_node_api_def)
  qed
  show "inj_on (cid_from_data (oa_b3 (na_obj demo_node_api)))
      (ran (obj_lookup (na_obj demo_node_api) (nd_store demo_node)) \<union> {b. \<exists>p \<in> set ps. na_encode_piece demo_node_api p = Some b})"
    by (rule inj_on_subset[of _ "{[7], [9]}"])
       (auto simp: st demo_node_store_clean demo_node_api_def inj_on_def sum_hash_def)
qed

lemma demo_no_faults: "flt_read no_faults = None" "flt_write no_faults = None" "flt_rename no_faults = None" "\<forall>x. flt_read (ni_get demo_node_io x) = None"
  by (simp_all add: no_faults_def demo_node_io_def)


section \<open>The state of the node\<close>

text \<open>Everything that changes the node, in any order.\<close>

inductive node_change :: "('b, 'c, 'g) node_api \<Rightarrow> ('b, 'c, 'p, 'g) node \<Rightarrow> ('b, 'c, 'p, 'g) node \<Rightarrow> bool" for X where
  message: "node_change X nd (snd (node_handle_message X io sender msg nd))"
| request: "node_change X nd (snd (handle_request X io sender req nd))"
| disconnected: "node_change X nd (dispatch_peer_disconnected n nd)"
| encode_start: "node_change X nd (snd (task_start X flt c nd))"
| encode_store: "node_change X nd (snd (task_store X flt p pcids nd))"
| encode_finish: "node_change X nd (task_finish now c pcids nd)"

definition node_wf :: "('b, 'c, 'g) node_api \<Rightarrow> ('b, 'c, 'p, 'g) node \<Rightarrow> bool" where
  "node_wf X nd \<longleftrightarrow> store_inv (na_obj X) (nd_store nd) \<and> tracker_inv (nd_tracker nd) \<and> dht_inv (nd_dht nd)"

text \<open>What no change may alter or lose: the identity, the owner and the marks of pieces.\<close>

definition node_keeps :: "('b, 'c, 'p, 'g) node \<Rightarrow> ('b, 'c, 'p, 'g) node \<Rightarrow> bool" where
  "node_keeps nd nd' \<longleftrightarrow> nd_id nd' = nd_id nd \<and> db_owner (nd_db nd') = db_owner (nd_db nd) \<and> db_id (nd_db nd') = db_id (nd_db nd) \<and>
     set (cp_piece_cids (nd_index nd)) \<subseteq> set (cp_piece_cids (nd_index nd'))"

lemma set_store_keeps [simp]:
  "db_owner (nd_db (set_store s nd)) = db_owner (nd_db nd)" "db_id (nd_db (set_store s nd)) = db_id (nd_db nd)"
  "db_root_cid (nd_db (set_store s nd)) = db_root_cid (nd_db nd)" "db_file (nd_db (set_store s nd)) = db_file (nd_db nd)"
  "vf_index (db_vfs (nd_db (set_store s nd))) = vf_index (db_vfs (nd_db nd))" "vf_root (db_vfs (nd_db (set_store s nd))) = vf_root (db_vfs (nd_db nd))"
  by (simp_all add: set_store_def)

lemma store_pages_inv: "store_inv A s \<Longrightarrow> store_inv A (fst (snd (store_pages (put A) flts i ps s ix)))"
proof (induction ps arbitrary: i s ix)
  case (Cons p ps)
  obtain r s' where r: "put A (flts i) s (snd p) = (r, s')" by (cases "put A (flts i) s (snd p)")
  then have "store_inv A s'" using put_inv[OF Cons.prems, of "flts i" "snd p"] by simp
  then show ?case using Cons.IH r by (cases p; cases r) simp_all
qed simp

lemma commit_store_inv: "store_inv A (vf_store v) \<Longrightarrow> store_inv A (vf_store (snd (commit A flts ord v)))"
proof -
  assume inv: "store_inv A (vf_store v)"
  obtain e s ix where r: "store_pages (put A) flts 0 (ord (vf_dirty v)) (vf_store v) (vf_index v) = (e, s, ix)"
    by (cases "store_pages (put A) flts 0 (ord (vf_dirty v)) (vf_store v) (vf_index v)")
  have s: "store_inv A s" using store_pages_inv[OF inv, of flts 0 "ord (vf_dirty v)" "vf_index v"] r by simp
  obtain r' s' where p: "put A (flts (length (ord (vf_dirty v)))) s (page_index_serialize (pi_entries ix)) = (r', s')"
    by (cases "put A (flts (length (ord (vf_dirty v)))) s (page_index_serialize (pi_entries ix))")
  have "store_inv A s'" using put_inv[OF s, of "flts (length (ord (vf_dirty v)))" "page_index_serialize (pi_entries ix)"] p by simp
  then show ?thesis using inv s r p by (simp add: commit_def Let_def split: option.splits sum.splits)
qed

lemma write_chunks_store: "vf_store (snd (write_chunks n i chs v)) = vf_store v"
  by (induction n i chs v rule: write_chunks.induct) (simp_all add: write_page_def)

lemma execute_store_inv:
  assumes "store_inv A (vf_store (db_vfs db))"
  shows "store_inv A (vf_store (db_vfs (snd (database_execute E A io sql w db)))) \<and>
    db_owner (snd (database_execute E A io sql w db)) = db_owner db \<and> db_id (snd (database_execute E A io sql w db)) = db_id db"
proof -
  obtain ok "file" where e: "eng_execute E sql (db_file db) = (ok, file)" by (cases "eng_execute E sql (db_file db)")
  obtain r v where w: "write_chunks (vf_page_size (db_vfs db)) 0 (chunks (vf_page_size (db_vfs db)) file) (db_vfs db) = (r, v)"
    by (cases "write_chunks (vf_page_size (db_vfs db)) 0 (chunks (vf_page_size (db_vfs db)) file) (db_vfs db)")
  have v: "store_inv A (vf_store v)"
    using write_chunks_store[of "vf_page_size (db_vfs db)" 0 "chunks (vf_page_size (db_vfs db)) file" "db_vfs db"] w assms by simp
  obtain r' v' where c: "commit A (si_puts io) (si_order io) v = (r', v')" by (cases "commit A (si_puts io) (si_order io) v")
  have "store_inv A (vf_store v')" using commit_store_inv[OF v, of "si_puts io" "si_order io"] c by simp
  then show ?thesis
    using assms e w c v by (simp add: database_execute_def sync_pages_to_vfs_def split: sum.splits bool.splits)
qed

lemma read_pieces_inv: "store_inv (na_obj X) s \<Longrightarrow> store_inv (na_obj X) (snd (read_pieces X flt pcs s))"
proof (induction pcs arbitrary: s)
  case (Cons pc pcs)
  obtain r s' where g: "get (na_obj X) (flt pc) s pc = (r, s')" by (cases "get (na_obj X) (flt pc) s pc")
  then have "store_inv (na_obj X) s'" using get_inv[OF Cons.prems, of "flt pc" pc] by simp
  then show ?case using Cons.IH[of s'] by (auto simp: g Let_def case_prod_unfold split: sum.splits option.splits)
qed simp

lemma piece_request_inv:
  assumes "store_inv (na_obj X) (nd_store nd)"
  shows "\<exists>m s. handle_piece_request X io c rid nd = (m, set_store s nd) \<and> store_inv (na_obj X) s"
proof -
  obtain ps s where s: "(case coded_index_get (nd_index nd) c of Some pcs \<Rightarrow> read_pieces X (ni_get io) pcs (nd_store nd) | None \<Rightarrow> ([], nd_store nd)) = (ps, s)"
    by (metis surj_pair)
  then have inv: "store_inv (na_obj X) s"
    using read_pieces_inv[OF assms, of "ni_get io" "the (coded_index_get (nd_index nd) c)"] assms by (auto split: option.splits)
  obtain r s' where g: "get (na_obj X) (ni_get io c) s c = (r, s')" by (cases "get (na_obj X) (ni_get io c) s c")
  have "store_inv (na_obj X) s'" using get_inv[OF inv, of "ni_get io c" c] g by simp
  then show ?thesis using inv g unfolding handle_piece_request_def s by (auto split: sum.splits option.splits)
qed

lemma node_wf_set_store: "node_wf X nd \<Longrightarrow> store_inv (na_obj X) s \<Longrightarrow> node_wf X (set_store s nd) \<and> node_keeps nd (set_store s nd)"
  by (simp add: node_wf_def node_keeps_def)

lemma node_wf_execute:
  "node_wf X nd \<Longrightarrow> database_execute E (na_obj X) io sql w (nd_db nd) = (r, db) \<Longrightarrow>
   node_wf X (nd\<lparr>nd_db := db\<rparr>) \<and> node_keeps nd (nd\<lparr>nd_db := db\<rparr>)"
  using execute_store_inv[of "na_obj X" "nd_db nd" E io sql w] by (simp add: node_wf_def node_keeps_def nd_store_def)

lemma node_wf_signed_write:
  assumes "node_wf X nd" "handle_signed_write ed E (na_obj X) io w (nd_db nd) = (r, db)"
  shows "node_wf X (nd\<lparr>nd_db := db\<rparr>) \<and> node_keeps nd (nd\<lparr>nd_db := db\<rparr>)"
proof (cases "signed_write_check ed w (nd_db nd)")
  case (Inl e)
  then show ?thesis using assms by (auto simp: handle_signed_write_def node_keeps_def node_wf_def nd_store_def)
next
  case (Inr u)
  then show ?thesis
    using assms node_wf_execute[OF assms(1), of E io "sw_sql w" "sw_writer w"]
    by (auto simp: handle_signed_write_def signed_write_execute_def split: prod.splits sum.splits)
qed

lemma node_wf_refl: "node_wf X nd \<Longrightarrow> node_wf X nd \<and> node_keeps nd nd"
  by (simp add: node_keeps_def)

lemma message_wf: "node_wf X nd \<Longrightarrow> node_wf X (snd (node_handle_message X io sender msg nd)) \<and> node_keeps nd (snd (node_handle_message X io sender msg nd))"
proof (cases msg)
  case (PieceRequest c idx rid)
  assume wf: "node_wf X nd"
  then obtain m s where "handle_piece_request X io c rid nd = (m, set_store s nd)" "store_inv (na_obj X) s"
    using piece_request_inv[of X nd io c rid] by (auto simp: node_wf_def)
  then show ?thesis using node_wf_set_store[OF wf] PieceRequest by simp
next
  case (SignedWrite payload sig writer ts)
  assume wf: "node_wf X nd"
  show ?thesis
  proof (cases "na_decode_write X payload")
    case None
    then show ?thesis using wf by (simp add: SignedWrite handle_wire_write_def node_keeps_def)
  next
    case (Some w)
    then show ?thesis
      using node_wf_signed_write[OF wf, of "na_ed X" "na_engine X" "ni_sql io" "w\<lparr>sw_writer := writer, sw_signature := sig\<rparr>"]
      by (cases "handle_signed_write (na_ed X) (na_engine X) (na_obj X) (ni_sql io) (w\<lparr>sw_writer := writer, sw_signature := sig\<rparr>) (nd_db nd)")
         (simp add: SignedWrite handle_wire_write_def Let_def)
  qed
qed (auto simp: node_wf_def node_keeps_def nd_store_def intro: piece_reports.inv_add provider_index.inv_add)

lemma request_wf: "node_wf X nd \<Longrightarrow> node_wf X (snd (handle_request X io sender req nd)) \<and> node_keeps nd (snd (handle_request X io sender req nd))"
proof (cases req)
  case (ReqStorePut d)
  assume wf: "node_wf X nd"
  then show ?thesis
    using node_wf_set_store[OF wf] put_inv[of "na_obj X" "nd_store nd" "ni_put io" d]
    by (auto simp: ReqStorePut node_wf_def split: prod.splits sum.splits)
next
  case (ReqStoreGet c)
  assume wf: "node_wf X nd"
  then show ?thesis
    using node_wf_set_store[OF wf] get_inv[of "na_obj X" "nd_store nd" "ni_get io c" c]
    by (auto simp: ReqStoreGet node_wf_def split: prod.splits sum.splits)
next
  case (ReqSqlQuery sql)
  assume "node_wf X nd"
  then show ?thesis
    by (auto simp: ReqSqlQuery node_wf_def node_keeps_def nd_store_def database_query_def split: prod.splits sum.splits option.splits)
next
  case (ReqSqlExecute sql writer sig)
  assume wf: "node_wf X nd"
  then show ?thesis using node_wf_execute[OF wf, of "na_engine X" "ni_sql io" sql writer]
    by (cases "database_execute (na_engine X) (na_obj X) (ni_sql io) sql writer (nd_db nd)")
       (auto simp: ReqSqlExecute node_keeps_def split: sum.splits)
qed (simp_all add: node_keeps_def)

lemma task_wf:
  assumes wf: "node_wf X nd"
  shows "node_wf X (snd (task_start X flt c nd)) \<and> node_keeps nd (snd (task_start X flt c nd))"
    "node_wf X (snd (task_store X flt p pcids nd)) \<and> node_keeps nd (snd (task_store X flt p pcids nd))"
    "node_wf X (task_finish now c pcids nd) \<and> node_keeps nd (task_finish now c pcids nd)"
proof -
  have t: "tracker_inv (record_k c k (nd_tracker nd))" for k using wf by (simp add: node_wf_def tracker_inv_def record_k_def)
  have inv: "store_inv (na_obj X) (nd_store nd)" using wf by (simp add: node_wf_def)
  obtain r s where g: "get (na_obj X) flt (nd_store nd) c = (r, s)" by (cases "get (na_obj X) flt (nd_store nd) c")
  have s: "store_inv (na_obj X) s" using get_inv[OF inv, of flt c] g by simp
  show "node_wf X (snd (task_start X flt c nd)) \<and> node_keeps nd (snd (task_start X flt c nd))"
    using wf s t by (auto simp: task_start_def g node_wf_def node_keeps_def split: sum.splits option.splits prod.splits)
  show "node_wf X (snd (task_store X flt p pcids nd)) \<and> node_keeps nd (snd (task_store X flt p pcids nd))"
  proof (cases "na_encode_piece X p")
    case None
    then show ?thesis using wf by (simp add: task_store_def node_keeps_def)
  next
    case (Some b)
    obtain r' s' where p: "put (na_obj X) flt (nd_store nd) b = (r', s')" by (cases "put (na_obj X) flt (nd_store nd) b")
    have "store_inv (na_obj X) s'" using put_inv[OF inv, of flt b] p by simp
    then show ?thesis using wf Some p
      by (cases r') (auto simp: task_store_def Let_def node_wf_def node_keeps_def mark_piece_cid_def)
  qed
  show "node_wf X (task_finish now c pcids nd) \<and> node_keeps nd (task_finish now c pcids nd)"
    using wf piece_reports.inv_add
    by (auto simp: task_finish_def node_wf_def node_keeps_def nd_store_def coded_index_insert_def)
qed

lemma disconnected_wf: "node_wf X nd \<Longrightarrow> node_wf X (dispatch_peer_disconnected n nd) \<and> node_keeps nd (dispatch_peer_disconnected n nd)"
  using piece_reports.inv_leave provider_index.inv_leave
  by (auto simp: dispatch_peer_disconnected_def node_wf_def node_keeps_def nd_store_def)

lemma node_change_wf: "node_change X nd nd' \<Longrightarrow> node_wf X nd \<Longrightarrow> node_wf X nd' \<and> node_keeps nd nd'"
  by (induction rule: node_change.induct) (simp_all only: message_wf request_wf disconnected_wf task_wf)

lemma node_changes_wf: "(node_change X)\<^sup>*\<^sup>* nd nd' \<Longrightarrow> node_wf X nd \<Longrightarrow> node_wf X nd' \<and> node_keeps nd nd'"
proof (induction rule: rtranclp_induct)
  case base
  then show ?case by (rule node_wf_refl)
next
  case (step nd1 nd2)
  then have "node_wf X nd1 \<and> node_keeps nd nd1" "node_wf X nd2 \<and> node_keeps nd1 nd2" using node_change_wf by blast+
  then show ?case by (auto simp: node_keeps_def)
qed

text \<open>
  The state of the node.  Messages, requests, departures and encoding tasks, with any faults and
  in any order, keep the store readable and the tables of holders and providers well formed; never
  change the identity of the node or the owner of its database; and never lose the mark of a piece.
  So a request for an object is only ever answered with contents of that identifier, and a departed
  peer is in neither table, while the other peers stay.
\<close>

theorem node_invariant:
  assumes "node_wf X nd" "(node_change X)\<^sup>*\<^sup>* nd nd'"
  shows "node_wf X nd' \<and> node_keeps nd nd' \<and>
    (\<forall>io sender c d. fst (handle_request X io sender (ReqStoreGet c) nd') = RespStoreGet (Some d) \<longrightarrow> cid_from_data (oa_b3 (na_obj X)) d = c) \<and>
    set (holder_nodes (nd_tracker (dispatch_peer_disconnected n nd')) c) = set (holder_nodes (nd_tracker nd') c) - {n} \<and>
    set (get_providers (nd_dht (dispatch_peer_disconnected n nd')) c) = set (get_providers (nd_dht nd') c) - {n}"
proof -
  note wf = node_changes_wf[OF assms(2,1)]
  then have inv: "store_inv (na_obj X) (nd_store nd')" "tracker_inv (nd_tracker nd')" "dht_inv (nd_dht nd')" by (simp_all add: node_wf_def)
  have "cid_from_data (oa_b3 (na_obj X)) d = c"
    if "fst (handle_request X io sender (ReqStoreGet c) nd') = RespStoreGet (Some d)" for io sender c d
    using that get_integrity[OF inv(1), of "ni_get io c" c d] by (auto split: prod.splits sum.splits)
  moreover have "set (holder_nodes (tracker_remove_node n (nd_tracker nd')) c) = set (holder_nodes (nd_tracker nd') c) - {n}"
    by (auto simp: holder_nodes_def tracker_remove_node_def table_get_retain[OF tracker_inv_keys[OF inv(2)]])
  moreover have "set (get_providers (dht_remove_node n (nd_dht nd')) c) = set (get_providers (nd_dht nd') c) - {n}"
    by (auto simp: get_providers_def dht_remove_node_def table_get_retain[OF dht_inv_keys[OF inv(3)]])
  ultimately show ?thesis using wf by (auto simp: dispatch_peer_disconnected_def)
qed

theorem node_invariant_witness:
  "node_wf demo_node_api demo_node \<and>
   node_wf demo_node_api (snd (node_handle_message demo_node_api demo_node_io (NodeId [2]) (HealthReport (Cid [5]) 3 9) demo_node)) \<and>
   set (holder_nodes (nd_tracker (dispatch_peer_disconnected (NodeId [2])
     (snd (node_handle_message demo_node_api demo_node_io (NodeId [2]) (HealthReport (Cid [5]) 3 9) demo_node)))) (Cid [5])) = {}"
proof -
  let ?nd = "snd (node_handle_message demo_node_api demo_node_io (NodeId [2]) (HealthReport (Cid [5]) 3 9) demo_node)"
  have wf: "node_wf demo_node_api demo_node"
    using demo_node_store_clean(1) piece_reports.inv_start provider_index.inv_start
    by (simp add: node_wf_def store_clean_def demo_node_def demo_node_api_def)
  have "(node_change demo_node_api)\<^sup>*\<^sup>* demo_node ?nd" by (intro r_into_rtranclp node_change.message)
  note inv = node_invariant[OF wf this, of "NodeId [2]" "Cid [5]"]
  have "set (holder_nodes (nd_tracker ?nd) (Cid [5])) = {NodeId [2]}"
    by (simp add: demo_node_def tracker_new_def record_piece_def holder_nodes_def table_get_update)
       (simp add: table_get_def)
  then show ?thesis using inv wf by auto
qed

section \<open>Who may write\<close>

definition db_contents :: "('b, 'c, 'p) database \<Rightarrow> cid \<times> bytes \<times> page_index" where
  "db_contents db = (db_root_cid db, db_file db, vf_index (db_vfs db))"

lemma piece_request_contents: "\<exists>s. snd (handle_piece_request X io c rid nd) = set_store s nd"
  unfolding handle_piece_request_def Let_def by (auto split: prod.splits sum.splits option.splits if_splits)

lemma signed_write_contents:
  "db_contents (snd (handle_signed_write ed E A io w db)) \<noteq> db_contents db \<Longrightarrow> signed_write_check ed w db = Inr ()"
  by (cases "signed_write_check ed w db") (simp_all add: handle_signed_write_def)

text \<open>
  C17. Who may write the database.  A message from a peer changes the root, the file or the page
  index only if it carries a write in the name of the owner, signed by the owner together with its
  statement and expected root, which is absent or current.  A request changes the root or the page
  index only if it is a statement in the name of the node itself, with a signature of it.  But the
  file itself is also handed to every query, and a query needs no signature: what the engine makes of
  the file stays.
\<close>

theorem database_writes_authorized:
  "(db_contents (nd_db (snd (node_handle_message X io sender msg nd))) \<noteq> db_contents (nd_db nd) \<longrightarrow>
     (\<exists>payload sig ts w. msg = SignedWrite payload sig (db_owner (nd_db nd)) ts \<and> na_decode_write X payload = Some w \<and>
        identity_verify (na_ed X) (build_signed_payload (db_owner (nd_db nd)) (sw_sql w) (sw_expected_root w)) sig (db_owner (nd_db nd)) \<and>
        sw_expected_root w \<in> {None, Some (db_root_cid (nd_db nd))})) \<and>
   (let db = nd_db (snd (handle_request X io sender req nd))
    in (db_root_cid db, vf_index (db_vfs db)) \<noteq> (db_root_cid (nd_db nd), vf_index (db_vfs (nd_db nd))) \<longrightarrow>
       (\<exists>sql sig. req = ReqSqlExecute sql (nd_id nd) sig \<and> nd_id nd = db_owner (nd_db nd) \<and>
          identity_verify (na_ed X) (str_bytes sql) sig (nd_id nd))) \<and>
   (vf_root (db_vfs (nd_db nd)) \<noteq> None \<longrightarrow>
      db_file (nd_db (snd (handle_request X io sender (ReqSqlQuery sql) nd))) = snd (eng_query (na_engine X) sql (db_file (nd_db nd))))"
proof (intro conjI impI)
  assume ch: "db_contents (nd_db (snd (node_handle_message X io sender msg nd))) \<noteq> db_contents (nd_db nd)"
  show "\<exists>payload sig ts w. msg = SignedWrite payload sig (db_owner (nd_db nd)) ts \<and> na_decode_write X payload = Some w \<and>
      identity_verify (na_ed X) (build_signed_payload (db_owner (nd_db nd)) (sw_sql w) (sw_expected_root w)) sig (db_owner (nd_db nd)) \<and>
      sw_expected_root w \<in> {None, Some (db_root_cid (nd_db nd))}"
  proof (cases msg)
    case (PieceRequest c idx rid)
    then show ?thesis using ch piece_request_contents[of X io c rid nd] by (auto simp: db_contents_def)
  next
    case (SignedWrite payload sig writer ts)
    then show ?thesis using ch
      by (auto simp: handle_wire_write_def Let_def signed_write_check_iff split: option.splits dest!: signed_write_contents)
  qed (use ch in simp_all)
next
  show "let db = nd_db (snd (handle_request X io sender req nd))
    in (db_root_cid db, vf_index (db_vfs db)) \<noteq> (db_root_cid (nd_db nd), vf_index (db_vfs (nd_db nd))) \<longrightarrow>
       (\<exists>sql sig. req = ReqSqlExecute sql (nd_id nd) sig \<and> nd_id nd = db_owner (nd_db nd) \<and>
          identity_verify (na_ed X) (str_bytes sql) sig (nd_id nd))"
    by (cases req) (auto simp: Let_def database_query_def database_execute_def check_ownership_def
        split: prod.splits sum.splits option.splits if_splits)
next
  assume "vf_root (db_vfs (nd_db nd)) \<noteq> None"
  then show "db_file (nd_db (snd (handle_request X io sender (ReqSqlQuery sql) nd))) = snd (eng_query (na_engine X) sql (db_file (nd_db nd)))"
    by (auto simp: database_query_def vfs_snapshot_def split: prod.splits sum.splits option.splits)
qed

text \<open>An engine whose statements fail after appending a byte to the file, and a query that appends one too.\<close>

definition demo_write_api :: "(bytes list, cid \<Rightarrow> bytes option, unit) node_api" where
  "demo_write_api = demo_node_api\<lparr>na_decode_write := \<lambda>b. Some (demo_write ''a''),
     na_engine := \<lparr>eng_execute = \<lambda>sql f. (False, f @ [1]), eng_query = \<lambda>sql f. (Some [], f @ [1])\<rparr>\<rparr>"

definition demo_write_node :: "(bytes list, cid \<Rightarrow> bytes option, cid \<times> u32 \<Rightarrow> bytes option, unit) node" where
  "demo_write_node = demo_node\<lparr>nd_db := demo_db\<lparr>db_vfs := demo_vfs0\<lparr>vf_root := Some (Cid [3])\<rparr>\<rparr>\<rparr>"

theorem database_writes_authorized_witness:
  "db_contents (nd_db (snd (node_handle_message demo_write_api demo_node_io (NodeId [2]) (SignedWrite [] (Signature []) (NodeId [1]) 0) demo_write_node))) \<noteq>
     db_contents (nd_db demo_write_node) \<and>
   identity_verify demo_ed (build_signed_payload (NodeId [1]) ''a'' (Some (Cid [3]))) (Signature []) (NodeId [1]) \<and>
   db_file (nd_db demo_write_node) = [] \<and>
   db_file (nd_db (snd (handle_request demo_write_api demo_node_io (NodeId [2]) (ReqSqlQuery ''b'') demo_write_node))) = [1]"
proof -
  have v: "identity_verify demo_ed m s w" for m s w by (simp add: identity_verify_def demo_ed_def)
  have d: "db_contents (nd_db (snd (node_handle_message demo_write_api demo_node_io (NodeId [2]) (SignedWrite [] (Signature []) (NodeId [1]) 0) demo_write_node))) \<noteq>
     db_contents (nd_db demo_write_node)"
    by (simp add: handle_wire_write_def demo_write_api_def demo_node_api_def demo_write_node_def demo_db_def demo_write_def Let_def v
        handle_signed_write_def signed_write_check_def verify_signature_def check_ownership_def check_cas_def
        signed_write_execute_def database_execute_def db_contents_def)
  show ?thesis
    using database_writes_authorized[of demo_write_api demo_node_io "NodeId [2]" "SignedWrite [] (Signature []) (NodeId [1]) 0" demo_write_node ReqPeers "''b''"] d v
    by (simp add: demo_write_api_def demo_write_node_def demo_db_def)
qed

end
