(* ===== verification/Endpoint.thy ===== *)
theory Endpoint
  imports Hlc Node
begin

text \<open>
  The network endpoint (craftec-net/src/endpoint.rs): dialling and sending through the connection
  pool, the accept loop, the readers of the three kinds of connection, bootstrapping.  Connections
  are abstract values of the QUIC library; what its calls return (a new connection, the bytes of a
  stream, a failure or a time-out) and what the serializer and the parser of public keys return are
  parameters.  A panic of the source is \<open>None\<close>.
\<close>

section \<open>Errors and protocols\<close>

datatype net_error =
    ConnectionFailed node_id string
  | NetTimeout u64
  | PeerNotFound node_id
  | ProtocolError string
  | BootstrapFailed nat
  | NetSerializationError string
  | NetIo

definition ALPN_CRAFTEC :: bytes where "ALPN_CRAFTEC = str_bytes ''craftec/0.1''"
definition ALPN_SWIM :: bytes where "ALPN_SWIM = str_bytes ''craftec-swim/0.1''"
definition ALPN_RPC :: bytes where "ALPN_RPC = str_bytes ''/craftec/rpc/1''"

section \<open>SWIM messages\<close>

datatype swim_reply = NoReply | SendReply wire_message

text \<open>The replies of the messages a ping carries are discarded.\<close>

fun handle_swim_msg :: "nat \<Rightarrow> wire_message \<Rightarrow> swim \<Rightarrow> swim_reply \<times> swim" where
  "handle_swim_msg now (SwimPingAck from nonce inc) s = (NoReply, mark_alive from inc (snd (resolve_probe nonce inc s)))"
| "handle_swim_msg now (SwimPing from nonce piggyback) s =
     (let s' = foldl (\<lambda>s m. snd (handle_message now m s)) (mark_alive from 0 s) piggyback
      in (SendReply (SwimPingAck (sw_local s') nonce (sw_incarnation s')), s'))"
| "handle_swim_msg now (SwimAlive n inc) s = (NoReply, mark_alive n inc s)"
| "handle_swim_msg now (SwimSuspect n inc from) s = (NoReply, mark_suspect now n inc s)"
| "handle_swim_msg now (SwimDead n inc from) s = (NoReply, mark_dead n inc s)"
| "handle_swim_msg now (SwimJoin n port) s =
     (let s' = mark_alive n 0 s in (SendReply (SwimAlive (sw_local s') (sw_incarnation s')), s'))"
| "handle_swim_msg now _ s = (NoReply, s)"

section \<open>Streams of a connection\<close>

text \<open>
  What reading one stream to its end gives within the time limit, whether a stream for a reply can
  be opened, and the readings of the clocks.
\<close>

datatype stream_read = StreamBytes bytes | StreamError | StreamTimeout

record stream_event =
  se_read :: stream_read
  se_open_ok :: bool
  se_wall :: u64
  se_reply_wall :: u64
  se_now :: nat

text \<open>The state a reader shares with the rest of the node, and the frames it has written on its connection.\<close>

record 's conn_state =
  cs_swim :: swim
  cs_hlc :: u64
  cs_app :: 's
  cs_written :: "bytes list"

definition hlc_observe :: "u64 \<Rightarrow> u64 \<Rightarrow> u64 \<Rightarrow> (unit, hlc_error) result \<times> u64" where
  "hlc_observe ts wall clk =
     (case observe_check ts wall of Inl e \<Rightarrow> (Inl e, clk) | Inr _ \<Rightarrow> (Inr (), observe_ts clk ts wall))"

text \<open>Whether the reader goes on is returned with the state.\<close>

definition send_swim_reply :: "wire_message postcard \<Rightarrow> stream_event \<Rightarrow> wire_message \<Rightarrow> 's conn_state \<Rightarrow> bool \<times> 's conn_state" where
  "send_swim_reply P ev reply st =
     (case encode_framed P reply of
        Inl _ \<Rightarrow> (True, st)
      | Inr b \<Rightarrow> if se_open_ok ev then (True, st\<lparr>cs_written := cs_written st @ [b]\<rparr>) else (False, st))"

definition process_swim :: "wire_message postcard \<Rightarrow> stream_event \<Rightarrow> wire_message \<Rightarrow> 's conn_state \<Rightarrow> bool \<times> 's conn_state" where
  "process_swim P ev msg st =
     (case handle_swim_msg (se_now ev) msg (cs_swim st) of
        (NoReply, sw) \<Rightarrow> (True, st\<lparr>cs_swim := sw\<rparr>)
      | (SendReply r, sw) \<Rightarrow> send_swim_reply P ev r (st\<lparr>cs_swim := sw\<rparr>))"

text \<open>
  The iterations of the three readers.  The reader of an outbound connection ignores what the clock
  says of a time stamp and every message that is not SWIM; the others drop a message the clock
  rejects.
\<close>

definition outbound_stream :: "wire_message postcard \<Rightarrow> stream_event \<Rightarrow> 's conn_state \<Rightarrow> bool \<times> 's conn_state" where
  "outbound_stream P ev st =
     (case se_read ev of
        StreamError \<Rightarrow> (False, st)
      | StreamTimeout \<Rightarrow> (True, st)
      | StreamBytes b \<Rightarrow>
          (case decode_framed_with_hlc P b of
             Some (Inr (msg, ts)) \<Rightarrow>
               let st1 = (if ts > 0 then st\<lparr>cs_hlc := snd (hlc_observe ts (se_wall ev) (cs_hlc st))\<rparr> else st)
               in if is_swim msg then process_swim P ev msg st1 else (True, st1)
           | _ \<Rightarrow> (True, st)))"

definition reply_app :: "wire_message postcard \<Rightarrow> stream_event \<Rightarrow> wire_message \<Rightarrow> 's conn_state \<Rightarrow> 's conn_state" where
  "reply_app P ev reply st =
     (case encode_framed P reply of
        Inl _ \<Rightarrow> st
      | Inr b \<Rightarrow> if se_open_ok ev then st\<lparr>cs_written := cs_written st @ [b]\<rparr> else st)"

definition admit :: "stream_event \<Rightarrow> u64 \<Rightarrow> 's conn_state \<Rightarrow> bool \<times> 's conn_state" where
  "admit ev ts st =
     (if ts > 0
      then (case hlc_observe ts (se_wall ev) (cs_hlc st) of
              (Inl e, clk) \<Rightarrow> (False, st\<lparr>cs_hlc := clk\<rparr>)
            | (Inr _, clk) \<Rightarrow> (True, st\<lparr>cs_hlc := clk\<rparr>))
      else (True, st))"

definition craftec_stream ::
  "wire_message postcard \<Rightarrow> (node_id \<Rightarrow> wire_message \<Rightarrow> 's \<Rightarrow> wire_message option \<times> 's) \<Rightarrow> node_id \<Rightarrow> stream_event \<Rightarrow>
     's conn_state \<Rightarrow> bool \<times> 's conn_state" where
  "craftec_stream P handler remote ev st =
     (case se_read ev of
        StreamError \<Rightarrow> (False, st)
      | StreamTimeout \<Rightarrow> (True, st)
      | StreamBytes b \<Rightarrow>
          (case decode_framed_with_hlc P b of
             Some (Inr (msg, ts)) \<Rightarrow>
               (case admit ev ts st of
                  (False, st1) \<Rightarrow> (True, st1)
                | (True, st1) \<Rightarrow>
                    if is_swim msg then process_swim P ev msg st1
                    else (case handler remote msg (cs_app st1) of
                            (None, app) \<Rightarrow> (True, st1\<lparr>cs_app := app\<rparr>)
                          | (Some r, app) \<Rightarrow> (True, reply_app P ev r (st1\<lparr>cs_app := app\<rparr>))))
           | _ \<Rightarrow> (True, st)))"

definition swim_stream :: "wire_message postcard \<Rightarrow> stream_event \<Rightarrow> 's conn_state \<Rightarrow> bool \<times> 's conn_state" where
  "swim_stream P ev st =
     (case se_read ev of
        StreamError \<Rightarrow> (False, st)
      | StreamTimeout \<Rightarrow> (True, st)
      | StreamBytes b \<Rightarrow>
          (case decode_framed_with_hlc P b of
             Some (Inr (msg, ts)) \<Rightarrow>
               (case admit ev ts st of (False, st1) \<Rightarrow> (True, st1) | (True, st1) \<Rightarrow> process_swim P ev msg st1)
           | _ \<Rightarrow> (True, st)))"

text \<open>A reader runs until the connection is closed, here at the end of the list, or it gives up.\<close>

fun read_loop :: "(stream_event \<Rightarrow> 's conn_state \<Rightarrow> bool \<times> 's conn_state) \<Rightarrow> stream_event list \<Rightarrow> 's conn_state \<Rightarrow> 's conn_state" where
  "read_loop step [] st = st"
| "read_loop step (ev # evs) st = (case step ev st of (True, st') \<Rightarrow> read_loop step evs st' | (False, st') \<Rightarrow> st')"

definition read_outbound_conn :: "wire_message postcard \<Rightarrow> stream_event list \<Rightarrow> 's conn_state \<Rightarrow> 's conn_state" where
  "read_outbound_conn P = read_loop (outbound_stream P)"

definition handle_craftec_conn ::
  "wire_message postcard \<Rightarrow> (node_id \<Rightarrow> wire_message \<Rightarrow> 's \<Rightarrow> wire_message option \<times> 's) \<Rightarrow> node_id \<Rightarrow> stream_event list \<Rightarrow>
     's conn_state \<Rightarrow> 's conn_state" where
  "handle_craftec_conn P handler remote = read_loop (craftec_stream P handler remote)"

definition handle_swim_conn :: "wire_message postcard \<Rightarrow> stream_event list \<Rightarrow> 's conn_state \<Rightarrow> 's conn_state" where
  "handle_swim_conn P = read_loop (swim_stream P)"

section \<open>RPC connections\<close>

definition MAX_CONCURRENT_RPC_STREAMS :: nat where "MAX_CONCURRENT_RPC_STREAMS = 16"

definition rpc_serve ::
  "rpc_request postcard \<Rightarrow> rpc_response postcard \<Rightarrow> (node_id \<Rightarrow> rpc_request \<Rightarrow> 's \<Rightarrow> rpc_response \<times> 's) \<Rightarrow> node_id \<Rightarrow> stream_event \<Rightarrow>
     's conn_state \<Rightarrow> bytes option \<times> 's conn_state" where
  "rpc_serve Q R handler remote ev st =
     (case se_read ev of
        StreamBytes b \<Rightarrow>
          (case decode_rpc_request Q b of
             Some (Inr (req, ts)) \<Rightarrow>
               (let clk = (if ts > 0 then snd (hlc_observe ts (se_wall ev) (cs_hlc st)) else cs_hlc st);
                    (resp, app) = handler remote req (cs_app st);
                    clk' = now_ts clk (se_reply_wall ev);
                    st' = st\<lparr>cs_hlc := clk', cs_app := app\<rparr>
                in case encode_rpc_response R resp clk' of
                     Inl _ \<Rightarrow> (None, st')
                   | Inr out \<Rightarrow> (Some out, st'\<lparr>cs_written := cs_written st' @ [out]\<rparr>))
           | _ \<Rightarrow> (None, st))
      | _ \<Rightarrow> (None, st))"

text \<open>The streams of one RPC connection: each served by a task that holds a permit.\<close>

datatype rpc_task = RpcServing | RpcFinished "bytes option"

inductive rpc_step ::
  "rpc_request postcard \<Rightarrow> rpc_response postcard \<Rightarrow> (node_id \<Rightarrow> rpc_request \<Rightarrow> 's \<Rightarrow> rpc_response \<times> 's) \<Rightarrow> node_id \<Rightarrow>
     rpc_task list \<times> 's conn_state \<Rightarrow> rpc_task list \<times> 's conn_state \<Rightarrow> bool"
  for Q R handler remote where
  accept: "count_list ts RpcServing < MAX_CONCURRENT_RPC_STREAMS \<Longrightarrow> rpc_step Q R handler remote (ts, st) (ts @ [RpcServing], st)"
| refuse: "count_list ts RpcServing \<ge> MAX_CONCURRENT_RPC_STREAMS \<Longrightarrow> rpc_step Q R handler remote (ts, st) (ts, st)"
| serve: "i < length ts \<Longrightarrow> ts ! i = RpcServing \<Longrightarrow> rpc_serve Q R handler remote ev st = (r, st') \<Longrightarrow>
    rpc_step Q R handler remote (ts, st) (ts[i := RpcFinished r], st')"

inductive_cases rpc_acceptE: "rpc_step Q R handler remote (ts, st) (ts @ [RpcServing], st')"

section \<open>The endpoint\<close>

record 'k endpoint =
  ep_id :: node_id
  ep_pool :: "'k connection_pool"
  ep_swim :: swim
  ep_hlc :: u64

text \<open>
  The calls of the QUIC library for one operation: dialling an address, and opening, writing and
  finishing a stream of a connection; with the parser of public keys and of socket addresses.
\<close>

record ('k, 'a) net_api =
  ne_msg :: "wire_message postcard"
  ne_key_ok :: "bytes \<Rightarrow> bool"
  ne_parse_key :: "string \<Rightarrow> bytes option"
  ne_parse_addr :: "string \<Rightarrow> 'a option"
  ne_hex :: hex_api
  ne_dial :: "node_id \<Rightarrow> 'a option \<Rightarrow> 'k option"
  ne_open :: "'k \<Rightarrow> bool"
  ne_write :: "'k \<Rightarrow> bool"
  ne_finish :: "'k \<Rightarrow> bool"

record net_clock =
  nc_wall :: u64
  nc_instant :: instant

definition endpoint_new :: "node_id \<Rightarrow> nat \<Rightarrow> u64 \<Rightarrow> 'k endpoint" where
  "endpoint_new n max_connections wall =
     \<lparr>ep_id = n, ep_pool = pool_with_capacity max_connections, ep_swim = swim_new n, ep_hlc = hlc_new wall\<rparr>"

definition connect :: "('k, 'a) net_api \<Rightarrow> node_id \<Rightarrow> 'a option \<Rightarrow> ('k, net_error) result" where
  "connect N n addr = (case ne_dial N n addr of None \<Rightarrow> Inl (ConnectionFailed n ''dial'') | Some k \<Rightarrow> Inr k)"

text \<open>What an operation did on the network: it wrote a frame on a connection, or started a reader of it.\<close>

datatype 'k net_action = Wrote 'k bytes | Reader 'k node_id

definition send_on :: "('k, 'a) net_api \<Rightarrow> node_id \<Rightarrow> 'k \<Rightarrow> bytes \<Rightarrow> (unit, net_error) result \<times> 'k net_action list" where
  "send_on N peer k b =
     (if \<not> ne_open N k then (Inl (ConnectionFailed peer ''open_uni failed''), [])
      else if \<not> ne_write N k then (Inl (ConnectionFailed peer ''write_all failed''), [])
      else if \<not> ne_finish N k then (Inl (ConnectionFailed peer ''stream finish failed''), [Wrote k b])
      else (Inr (), [Wrote k b]))"

definition send_message ::
  "('k, 'a) net_api \<Rightarrow> net_clock \<Rightarrow> node_id \<Rightarrow> wire_message \<Rightarrow> 'k endpoint \<Rightarrow>
     ((unit, net_error) result \<times> 'k net_action list \<times> 'k endpoint) option" where
  "send_message N clk peer msg ep0 =
     (let ts = now_ts (ep_hlc ep0) (nc_wall clk); ep = ep0\<lparr>ep_hlc := ts\<rparr>
      in case encode_framed_with_hlc (ne_msg N) msg ts of
           Inl e \<Rightarrow> Some (Inl (NetSerializationError ''encode_framed failed''), [], ep)
         | Inr b \<Rightarrow>
             (case pool_get (nc_instant clk) peer (ep_pool ep) of
                (Some k, pool) \<Rightarrow> (let (r, acts) = send_on N peer k b in Some (r, acts, ep\<lparr>ep_pool := pool\<rparr>))
              | (None, pool) \<Rightarrow>
                  if \<not> ne_key_ok N (node_id_bytes peer) then None
                  else case connect N peer None of
                         Inl e \<Rightarrow> Some (Inl e, [], ep\<lparr>ep_pool := pool\<rparr>)
                       | Inr k \<Rightarrow>
                           (let (r, acts) = send_on N peer k b
                            in Some (r, Reader k peer # acts, ep\<lparr>ep_pool := pool_insert (nc_instant clk) peer k pool\<rparr>))))"

text \<open>The accept loop: the handler an accepted connection is given to, by its protocol.\<close>

datatype conn_handler = CraftecHandler | SwimHandler | RpcStreams | Dropped

definition accept_connection :: "bool \<Rightarrow> instant \<Rightarrow> bytes \<Rightarrow> node_id \<Rightarrow> 'k \<Rightarrow> 'k endpoint \<Rightarrow> conn_handler \<times> 'k endpoint" where
  "accept_connection has_rpc now alpn remote k ep =
     (if alpn = ALPN_CRAFTEC then (CraftecHandler, ep\<lparr>ep_pool := pool_insert now remote k (ep_pool ep)\<rparr>)
      else if alpn = ALPN_SWIM then (SwimHandler, ep)
      else if alpn = ALPN_RPC then (if has_rpc then (RpcStreams, ep) else (Dropped, ep))
      else (Dropped, ep))"

fun accept_loop :: "bool \<Rightarrow> (instant \<times> (bytes \<times> node_id \<times> 'k) option) list \<Rightarrow> 'k endpoint \<Rightarrow> (node_id \<times> 'k \<times> conn_handler) list \<times> 'k endpoint" where
  "accept_loop has_rpc [] ep = ([], ep)"
| "accept_loop has_rpc ((now, None) # cs) ep = accept_loop has_rpc cs ep"
| "accept_loop has_rpc ((now, Some (alpn, remote, k)) # cs) ep =
     (let (h, ep') = accept_connection has_rpc now alpn remote k ep; (hs, ep'') = accept_loop has_rpc cs ep'
      in ((remote, k, h) # hs, ep''))"

section \<open>Bootstrapping\<close>

fun split_once :: "char \<Rightarrow> string \<Rightarrow> (string \<times> string) option" where
  "split_once d [] = None"
| "split_once d (x # xs) = (if x = d then Some ([], xs) else map_option (\<lambda>(a, b). (x # a, b)) (split_once d xs))"

definition parse_peer :: "('k, 'a) net_api \<Rightarrow> string \<Rightarrow> (node_id \<times> 'a option) option" where
  "parse_peer N peer_str =
     (case split_once (CHR ''@'') peer_str of
        Some (id_hex, addr_str) \<Rightarrow>
          (case hex_decode (ne_hex N) id_hex of
             None \<Rightarrow> None
           | Some bs \<Rightarrow> if length bs = 32 \<and> ne_key_ok N bs then Some (NodeId bs, ne_parse_addr N addr_str) else None)
      | None \<Rightarrow> map_option (\<lambda>bs. (NodeId bs, None)) (ne_parse_key N peer_str))"

fun bootstrap_loop ::
  "('k, 'a) net_api \<Rightarrow> (nat \<Rightarrow> net_clock) \<Rightarrow> string list \<Rightarrow> nat \<Rightarrow> 'k net_action list \<Rightarrow> 'k endpoint \<Rightarrow> (nat \<times> 'k net_action list \<times> 'k endpoint) option" where
  "bootstrap_loop N clk [] joined acts ep = Some (joined, acts, ep)"
| "bootstrap_loop N clk (p # ps) joined acts ep =
     (case parse_peer N p of
        None \<Rightarrow> bootstrap_loop N (\<lambda>i. clk (Suc i)) ps joined acts ep
      | Some (n, addr) \<Rightarrow>
          (case connect N n addr of
             Inl e \<Rightarrow> bootstrap_loop N (\<lambda>i. clk (Suc i)) ps joined acts ep
           | Inr k \<Rightarrow>
               (case send_message N (clk 0) n (SwimJoin (ep_id ep) 0) (ep\<lparr>ep_pool := pool_insert (nc_instant (clk 0)) n k (ep_pool ep)\<rparr>) of
                  None \<Rightarrow> None
                | Some (r, acts', ep') \<Rightarrow>
                    bootstrap_loop N (\<lambda>i. clk (Suc i)) ps (case r of Inr _ \<Rightarrow> joined + 1 | Inl _ \<Rightarrow> joined)
                      (acts @ Reader k n # acts') ep')))"

definition bootstrap ::
  "('k, 'a) net_api \<Rightarrow> (nat \<Rightarrow> net_clock) \<Rightarrow> string list \<Rightarrow> 'k endpoint \<Rightarrow> ((unit, net_error) result \<times> 'k net_action list \<times> 'k endpoint) option" where
  "bootstrap N clk peers ep =
     (if peers = [] then Some (Inr (), [], ep)
      else case bootstrap_loop N clk peers 0 [] ep of
             None \<Rightarrow> None
           | Some (joined, acts, ep') \<Rightarrow>
               Some (if joined = 0 then Inl (BootstrapFailed (length peers)) else Inr (), acts, ep'))"

section \<open>Announcing\<close>

text \<open>The loop of the announcement over its targets: failures are ignored, a panic is not.\<close>

fun send_each :: "('k, 'a) net_api \<Rightarrow> (nat \<Rightarrow> net_clock) \<Rightarrow> (node_id \<times> wire_message) list \<Rightarrow> 'k endpoint \<Rightarrow> 'k endpoint option" where
  "send_each N clk [] ep = Some ep"
| "send_each N clk ((n, msg) # ms) ep =
     (case send_message N (clk 0) n msg ep of
        None \<Rightarrow> None
      | Some (r, acts, ep') \<Rightarrow> send_each N (\<lambda>i. clk (Suc i)) ms ep')"

section \<open>Two handlers of SWIM messages\<close>

lemma resolve_probe_fields:
  "sw_members (snd (resolve_probe nonce inc s)) = sw_members s" "sw_local (snd (resolve_probe nonce inc s)) = sw_local s"
  by (simp_all add: resolve_probe_def)

lemma mark_alive_resolve_probe:
  "mark_alive n i (snd (resolve_probe nonce inc s)) = snd (resolve_probe nonce inc (mark_alive n i s))"
  by (simp add: mark_alive_def resolve_probe_def upsert_def send_event_def Let_def)

lemma handle_messages_foldl: "snd (handle_messages now ms s) = foldl (\<lambda>s m. snd (handle_message now m s)) s ms"
  by (induction ms arbitrary: s) (simp_all add: case_prod_beta)

text \<open>
  The endpoint's own handler of SWIM messages agrees with the membership's.  It leaves the same
  table, except that a ping first marks its sender alive; and what it sends back, if anything, is one
  of the membership's replies and speaks of the node itself only, so that gossip is not amplified.
\<close>

theorem swim_handlers_agree:
  "snd (handle_swim_msg now msg s) = snd (handle_message now msg (case msg of SwimPing from _ _ \<Rightarrow> mark_alive from 0 s | _ \<Rightarrow> s)) \<and>
   (\<forall>r. fst (handle_swim_msg now msg s) = SendReply r \<longrightarrow>
      r \<in> set (fst (handle_message now msg (case msg of SwimPing from _ _ \<Rightarrow> mark_alive from 0 s | _ \<Rightarrow> s))) \<and>
      (\<exists>inc nonce. r \<in> {SwimAlive (sw_local s) inc, SwimPingAck (sw_local s) nonce inc}))"
proof (cases msg)
  case (SwimPing src nonce piggyback)
  let ?s = "mark_alive src 0 s"
  have "sw_local (snd (handle_messages now piggyback t)) = sw_local t" for t
    using handle_ext(2)[where now = now and ms = piggyback and s = t] by (simp add: swim_ext_def)
  moreover have "sw_local ?s = sw_local s" by (simp add: mark_alive_def upsert_def send_event_def Let_def)
  ultimately show ?thesis
    by (simp add: SwimPing handle_messages_foldl[symmetric] Let_def case_prod_beta)
next
  case (SwimPingAck src nonce inc)
  then show ?thesis by (simp add: mark_alive_resolve_probe)
next
  case (SwimJoin n port)
  have "sw_local (mark_alive n 0 s) = sw_local s" by (simp add: mark_alive_def upsert_def send_event_def Let_def)
  then show ?thesis by (simp add: SwimJoin Let_def)
qed simp_all

theorem swim_handlers_agree_witness:
  "fst (handle_swim_msg 0 (SwimJoin (NodeId [2]) 0) (swim_new (NodeId [1]))) = SendReply (SwimAlive (NodeId [1]) 0) \<and>
   SwimAlive (NodeId [1]) 0 \<in> set (fst (handle_message 0 (SwimJoin (NodeId [2]) 0) (swim_new (NodeId [1]))))"
proof -
  have r: "fst (handle_swim_msg 0 (SwimJoin (NodeId [2]) 0) (swim_new (NodeId [1]))) = SendReply (SwimAlive (NodeId [1]) 0)"
    by (simp add: Let_def mark_alive_def upsert_def send_event_def swim_new_def)
  then show ?thesis
    using swim_handlers_agree[of 0 "SwimJoin (NodeId [2]) 0" "swim_new (NodeId [1])"] by auto
qed

section \<open>Admission of frames\<close>

lemma admit_cases:
  "ts = 0 \<or> observe_check ts (se_wall ev) = Inr () \<Longrightarrow>
     admit ev ts st = (True, st\<lparr>cs_hlc := (if ts = 0 then cs_hlc st else observe_ts (cs_hlc st) ts (se_wall ev))\<rparr>)"
  "0 < ts \<Longrightarrow> observe_check ts (se_wall ev) = Inl e \<Longrightarrow> admit ev ts st = (False, st)"
  by (auto simp: admit_def hlc_observe_def word_gt_0)

lemma craftec_stream_admitted:
  assumes "se_read ev = StreamBytes b" "decode_framed_with_hlc P b = Some (Inr (msg, ts))"
    and "ts = 0 \<or> observe_check ts (se_wall ev) = Inr ()" "\<not> is_swim msg"
  shows "fst (craftec_stream P h remote ev st) \<and> cs_app (snd (craftec_stream P h remote ev st)) = snd (h remote msg (cs_app st)) \<and>
    cs_written (snd (craftec_stream P h remote ev st)) =
      cs_written st @ (case fst (h remote msg (cs_app st)) of None \<Rightarrow> []
        | Some r \<Rightarrow> (case encode_framed P r of Inl _ \<Rightarrow> [] | Inr f \<Rightarrow> if se_open_ok ev then [f] else []))"
  using assms(4) unfolding craftec_stream_def assms(1,2) admit_cases(1)[OF assms(3)] stream_read.case option.case sum.case prod.case
  by (auto simp: admit_cases(1)[OF assms(3)] reply_app_def split: prod.splits option.splits sum.splits)

text \<open>
  C29. Admission.  A frame with a time stamp that the clock rejects changes nothing on an inbound
  connection of peers or of SWIM.  But the reader of an outbound connection still processes a SWIM
  message in it, and an RPC request in it is still executed; and a frame with the time stamp zero is
  processed without any check.
\<close>

theorem frame_admission:
  assumes "se_read ev = StreamBytes b" "0 < ts" "observe_check ts (se_wall ev) = Inl e"
  shows "(decode_framed_with_hlc P b = Some (Inr (msg, ts)) \<longrightarrow>
      craftec_stream P h remote ev st = (True, st) \<and> swim_stream P ev st = (True, st) \<and>
      outbound_stream P ev st = (if is_swim msg then process_swim P ev msg st else (True, st))) \<and>
    (decode_rpc_request Q b = Some (Inr (req, ts)) \<longrightarrow>
      cs_app (snd (rpc_serve Q R hr remote ev st)) = snd (hr remote req (cs_app st))) \<and>
    (decode_framed_with_hlc P b = Some (Inr (msg, 0)) \<and> \<not> is_swim msg \<longrightarrow>
      cs_app (snd (craftec_stream P h remote ev st)) = snd (h remote msg (cs_app st)))"
proof (intro conjI impI)
  assume d: "decode_framed_with_hlc P b = Some (Inr (msg, ts))"
  note a = admit_cases(2)[OF assms(2,3), of st]
  show "craftec_stream P h remote ev st = (True, st)" by (simp add: craftec_stream_def assms(1) d a)
  show "swim_stream P ev st = (True, st)" by (simp add: swim_stream_def assms(1) d a)
  show "outbound_stream P ev st = (if is_swim msg then process_swim P ev msg st else (True, st))"
    using assms(2,3) by (simp add: outbound_stream_def assms(1) d hlc_observe_def Let_def)
next
  assume "decode_rpc_request Q b = Some (Inr (req, ts))"
  then show "cs_app (snd (rpc_serve Q R hr remote ev st)) = snd (hr remote req (cs_app st))"
    by (auto simp: rpc_serve_def assms(1) Let_def split: prod.splits sum.splits)
next
  assume "decode_framed_with_hlc P b = Some (Inr (msg, 0)) \<and> \<not> is_swim msg"
  then show "cs_app (snd (craftec_stream P h remote ev st)) = snd (h remote msg (cs_app st))"
    using craftec_stream_admitted[OF assms(1), of P msg 0 h remote st] by simp
qed

definition ping_card :: "wire_message postcard" where
  "ping_card = \<lparr>pc_encode = \<lambda>m. if m = Ping 7 then Some [1, 7] else None, pc_decode = \<lambda>b. if b = [1, 7] then Some (Ping 7) else None\<rparr>"

definition demo_event :: "bytes \<Rightarrow> stream_event" where
  "demo_event b = \<lparr>se_read = StreamBytes b, se_open_ok = True, se_wall = 0, se_reply_wall = 0, se_now = 0\<rparr>"

definition demo_conn :: "'s \<Rightarrow> 's conn_state" where
  "demo_conn app = \<lparr>cs_swim = swim_new (NodeId [1]), cs_hlc = 0, cs_app = app, cs_written = []\<rparr>"

lemma ping_card_ok: "postcard_ok ping_card"
  by (simp add: postcard_ok_def ping_card_def)

theorem frame_admission_witness:
  "decode_framed_with_hlc ping_card (frame 1 0x10000000000 [1, 7]) = Some (Inr (Ping 7, 0x10000000000)) \<and>
   craftec_stream ping_card (\<lambda>n m s. (None, s + 1)) (NodeId [2]) (demo_event (frame 1 0x10000000000 [1, 7])) (demo_conn (0 :: nat)) = (True, demo_conn 0)"
proof -
  have d: "decode_framed_with_hlc ping_card (frame 1 0x10000000000 [1, 7]) = Some (Inr (Ping 7, 0x10000000000))"
    using decode_framed_frame[OF ping_card_ok, of "Ping 7" "[1, 7]" 1 "0x10000000000" "[]"] by (simp add: ping_card_def)
  obtain e where "observe_check 0x10000000000 0 = Inl e"
    by (auto simp: observe_check_def unpack_def MAX_SKEW_MS_def Let_def)
  then have "0 < (0x10000000000 :: u64)" "observe_check 0x10000000000 (se_wall (demo_event (frame 1 0x10000000000 [1, 7]))) = Inl e"
    "se_read (demo_event (frame 1 0x10000000000 [1, 7])) = StreamBytes (frame 1 0x10000000000 [1, 7])"
    by (simp_all add: demo_event_def)
  note a = frame_admission[OF this(3,1,2), of ping_card "Ping 7", THEN conjunct1, rule_format, OF d]
  show ?thesis by (simp only: a d)
qed

section \<open>Sending and receiving\<close>

lemma pool_insert_get: "fst (pool_get now n (pool_insert now' n k p)) = Some k"
  by (simp add: pool_get_def pool_insert_def Let_def update_conv')

lemma send_on_Inr: "send_on N peer k b = (Inr (), acts) \<Longrightarrow> acts = [Wrote k b]"
  by (auto simp: send_on_def split: if_splits)

lemma send_message_sent:
  assumes "send_message N clk peer msg ep = Some (Inr (), acts, ep')"
  shows "\<exists>k b. encode_framed_with_hlc (ne_msg N) msg (ep_hlc ep') = Inr b \<and>
    acts = (if fst (pool_get (nc_instant clk) peer (ep_pool ep)) = None then [Reader k peer, Wrote k b] else [Wrote k b]) \<and>
    map_option pc_connection (map_of (pool_connections (ep_pool ep')) peer) = Some k \<and> ep_hlc ep' = now_ts (ep_hlc ep) (nc_wall clk)"
proof -
  let ?ts = "now_ts (ep_hlc ep) (nc_wall clk)"
  obtain b where b: "encode_framed_with_hlc (ne_msg N) msg ?ts = Inr b"
    using assms by (auto simp: send_message_def Let_def split: sum.splits)
  obtain c pool where g: "pool_get (nc_instant clk) peer (ep_pool ep) = (c, pool)" by (cases "pool_get (nc_instant clk) peer (ep_pool ep)")
  show ?thesis
  proof (cases c)
    case None
    then obtain k where "connect N peer None = Inr k" "acts = [Reader k peer, Wrote k b]"
        "ep' = ep\<lparr>ep_hlc := ?ts, ep_pool := pool_insert (nc_instant clk) peer k pool\<rparr>"
      using assms b g by (auto simp: send_message_def Let_def split: sum.splits prod.splits if_splits dest!: send_on_Inr)
    then show ?thesis using b g None by (simp add: pool_insert_def Let_def update_conv')
  next
    case (Some k)
    then have "acts = [Wrote k b]" "ep' = ep\<lparr>ep_hlc := ?ts, ep_pool := pool\<rparr>"
      using assms b g by (auto simp: send_message_def Let_def split: prod.splits dest!: send_on_Inr)
    then show ?thesis using b g Some by (auto simp: pool_get_def update_conv' split: option.splits)
  qed
qed

lemma framed_decodes:
  assumes "postcard_ok P" "encode_framed_with_hlc P msg ts = Inr b" "length b < 2 ^ 32"
  shows "decode_framed_with_hlc P b = Some (Inr (msg, ts))"
proof -
  obtain p where p: "pc_encode P msg = Some p" "b = frame (type_tag msg) ts p"
    using assms(2) by (auto simp: encode_framed_with_hlc_def split: option.splits)
  then have "length p < 2 ^ 32" using assms(3) by (simp add: frame_def)
  then show ?thesis using decode_framed_frame[OF assms(1) p(1), of "type_tag msg" ts "[]"] p(2) by simp
qed

text \<open>
  C28. Delivery.  A message that is sent is written as one frame on the one pooled connection of the
  peer, with a fresh time stamp; and a peer whose wall clock admits the stamp hands exactly that
  message, with the authenticated sender, to its handler and writes the handler's reply.
\<close>

theorem message_delivered:
  assumes "postcard_ok (ne_msg N)" "send_message N clk peer msg ep = Some (Inr (), acts, ep')" "\<not> is_swim msg"
  shows "\<exists>k b. filter (\<lambda>a. case a of Wrote _ _ \<Rightarrow> True | _ \<Rightarrow> False) acts = [Wrote k b] \<and>
    map_option pc_connection (map_of (pool_connections (ep_pool ep')) peer) = Some k \<and>
    ep_hlc ep' = now_ts (ep_hlc ep) (nc_wall clk) \<and>
    (length b < 2 ^ 32 \<and> se_read ev = StreamBytes b \<and> observe_check (ep_hlc ep') (se_wall ev) = Inr () \<longrightarrow>
       cs_app (snd (craftec_stream (ne_msg N) h (ep_id ep) ev st)) = snd (h (ep_id ep) msg (cs_app st)) \<and>
       cs_written (snd (craftec_stream (ne_msg N) h (ep_id ep) ev st)) = cs_written st @
         (case fst (h (ep_id ep) msg (cs_app st)) of None \<Rightarrow> []
          | Some r \<Rightarrow> (case encode_framed (ne_msg N) r of Inl _ \<Rightarrow> [] | Inr f \<Rightarrow> if se_open_ok ev then [f] else [])))"
proof -
  obtain k b where s: "encode_framed_with_hlc (ne_msg N) msg (ep_hlc ep') = Inr b"
      "acts = (if fst (pool_get (nc_instant clk) peer (ep_pool ep)) = None then [Reader k peer, Wrote k b] else [Wrote k b])"
      "map_option pc_connection (map_of (pool_connections (ep_pool ep')) peer) = Some k" "ep_hlc ep' = now_ts (ep_hlc ep) (nc_wall clk)"
    using send_message_sent[OF assms(2)] by blast
  have "filter (\<lambda>a. case a of Wrote _ _ \<Rightarrow> True | _ \<Rightarrow> False) acts = [Wrote k b]" using s(2) by simp
  then show ?thesis
    using s(3,4) craftec_stream_admitted[OF _ framed_decodes[OF assms(1) s(1)] _ assms(3)] by blast
qed

section \<open>Replies on outbound connections\<close>

lemma process_swim_app: "cs_app (snd (process_swim P ev msg st)) = cs_app st"
  by (auto simp: process_swim_def send_swim_reply_def split: prod.splits swim_reply.splits sum.splits)

lemma outbound_stream_app: "cs_app (snd (outbound_stream P ev st)) = cs_app st"
  by (auto simp: outbound_stream_def process_swim_app Let_def split: stream_read.splits option.splits sum.splits)

lemma read_outbound_app: "cs_app (read_outbound_conn P evs st) = cs_app st"
  unfolding read_outbound_conn_def
proof (induction evs arbitrary: st)
  case (Cons ev evs)
  then show ?case using outbound_stream_app[of P ev st] by (auto split: prod.splits bool.splits)
qed simp

text \<open>
  A fetch over a new connection is never answered.  A node that asks a peer it has no connection
  to for pieces dials the peer, and reads that connection with the reader for outbound connections.
  The peer answers on the same connection; but whatever arrives there, the node's fetches stay as
  they are.  The same answer on an inbound connection completes them.
\<close>

theorem fetch_reply_lost:
  assumes "postcard_ok (ne_msg N)" "send_message N clk peer (PieceRequest c idx rid) ep = Some (Inr (), acts, ep')"
    and "map_of (pool_connections (ep_pool ep)) peer = None"
    and "acts = [Reader k peer, Wrote k b]" "length b < 2 ^ 32"
    and "se_read ev = StreamBytes b" "se_open_ok ev" "observe_check (ep_hlc ep') (se_wall ev) = Inr ()"
    and "fst (node_handle_message X io (ep_id ep) (PieceRequest c idx rid) (cs_app peer_st)) = Some (PieceResponse ps rid)"
    and "encode_framed (ne_msg N) (PieceResponse ps rid) = Inr f" "length f < 2 ^ 32"
  shows "cs_written (snd (craftec_stream (ne_msg N) (node_handle_message X io) (ep_id ep) ev peer_st)) = cs_written peer_st @ [f] \<and>
    cs_app (read_outbound_conn (ne_msg N) (pre @ ev'\<lparr>se_read := StreamBytes f\<rparr> # post) st) = cs_app st \<and>
    nd_pending (cs_app (snd (craftec_stream (ne_msg N) (node_handle_message X io') peer (ev'\<lparr>se_read := StreamBytes f\<rparr>) st))) =
      foldl (\<lambda>s p. resolve_piece (cid p) p s) (nd_pending (cs_app st)) ps"
proof -
  obtain k' b' where s: "encode_framed_with_hlc (ne_msg N) (PieceRequest c idx rid) (ep_hlc ep') = Inr b'"
      "acts = (if fst (pool_get (nc_instant clk) peer (ep_pool ep)) = None then [Reader k' peer, Wrote k' b'] else [Wrote k' b'])"
    using send_message_sent[OF assms(2)] by blast
  have "b' = b" using s(2) assms(3,4) by (simp add: pool_get_def)
  then have d: "decode_framed_with_hlc (ne_msg N) b = Some (Inr (PieceRequest c idx rid, ep_hlc ep'))"
    using framed_decodes[OF assms(1) s(1)] assms(5) by simp
  have f: "decode_framed_with_hlc (ne_msg N) f = Some (Inr (PieceResponse ps rid, 0))"
    using framed_decodes[OF assms(1) assms(10)[unfolded encode_framed_def] assms(11)] .
  have "cs_written (snd (craftec_stream (ne_msg N) (node_handle_message X io) (ep_id ep) ev peer_st)) = cs_written peer_st @ [f]"
    using craftec_stream_admitted[OF assms(6) d _ _, where h = "node_handle_message X io" and remote = "ep_id ep" and st = peer_st] assms(7-10)
    by simp
  moreover have "cs_app (snd (craftec_stream (ne_msg N) (node_handle_message X io') peer (ev'\<lparr>se_read := StreamBytes f\<rparr>) st)) =
      snd (node_handle_message X io' peer (PieceResponse ps rid) (cs_app st))"
    using craftec_stream_admitted[of "ev'\<lparr>se_read := StreamBytes f\<rparr>" f "ne_msg N" "PieceResponse ps rid" 0 "node_handle_message X io'" peer st] f
    by simp
  ultimately show ?thesis by (simp add: read_outbound_app)
qed

text \<open>A network with one connection to everyone, on which every call succeeds, and a clock at zero.\<close>

definition demo_net :: "wire_message postcard \<Rightarrow> (nat, nat) net_api" where
  "demo_net P = \<lparr>ne_msg = P, ne_key_ok = \<lambda>b. b \<noteq> [0], ne_parse_key = \<lambda>s. None, ne_parse_addr = \<lambda>s. None, ne_hex = oa_hex demo_api,
     ne_dial = \<lambda>n a. Some 1, ne_open = \<lambda>k. True, ne_write = \<lambda>k. True, ne_finish = \<lambda>k. True\<rparr>"

definition demo_clock :: net_clock where
  "demo_clock = \<lparr>nc_wall = 0, nc_instant = 0\<rparr>"

definition demo_endpoint :: "nat endpoint" where
  "demo_endpoint = \<lparr>ep_id = NodeId [1], ep_pool = pool_with_capacity 4, ep_swim = swim_new (NodeId [1]), ep_hlc = 0\<rparr>"

lemma demo_clock_facts: "now_ts 0 0 = 1" "observe_check 1 0 = Inr ()"
  by (simp_all add: now_ts_def observe_check_def unpack_def pack_def abs_diff64_def REPLAY_WINDOW_MS_def MAX_SKEW_MS_def Let_def)

lemma demo_send:
  assumes "encode_framed_with_hlc P msg 1 = Inr b" "peer \<noteq> NodeId [0]"
  shows "send_message (demo_net P) demo_clock peer msg demo_endpoint =
    Some (Inr (), [Reader 1 peer, Wrote 1 b], demo_endpoint\<lparr>ep_hlc := 1, ep_pool := pool_insert 0 peer 1 (pool_with_capacity 4)\<rparr>)"
  using assms by (cases peer)
    (simp add: send_message_def demo_clock_def demo_endpoint_def demo_net_def demo_clock_facts pool_get_def pool_with_capacity_def connect_def send_on_def Let_def)

theorem message_delivered_witness:
  "\<exists>b. cs_app (snd (craftec_stream ping_card (\<lambda>n m s. (None, (n, m))) (NodeId [1]) (demo_event b) (demo_conn (NodeId [], Pong 0)))) = (NodeId [1], Ping 7)"
proof -
  let ?b = "frame (type_tag (Ping 7)) 1 [1, 7]"
  have e: "encode_framed_with_hlc ping_card (Ping 7) 1 = Inr ?b" by (simp add: encode_framed_with_hlc_def ping_card_def)
  have s: "send_message (demo_net ping_card) demo_clock (NodeId [2]) (Ping 7) demo_endpoint =
      Some (Inr (), [Reader 1 (NodeId [2]), Wrote 1 ?b], demo_endpoint\<lparr>ep_hlc := 1, ep_pool := pool_insert 0 (NodeId [2]) 1 (pool_with_capacity 4)\<rparr>)"
    by (rule demo_send[OF e]) simp
  have ok: "postcard_ok (ne_msg (demo_net ping_card))" using ping_card_ok by (simp add: demo_net_def)
  show ?thesis
    using message_delivered[OF ok s, of "demo_event ?b" "\<lambda>n m s. (None, (n, m))" "demo_conn (NodeId [], Pong 0)"]
    by (auto simp: demo_event_def demo_clock_facts demo_net_def demo_endpoint_def frame_def)
qed

text \<open>A serializer of one request and its answer.\<close>

definition fetch_reply :: wire_message where
  "fetch_reply = PieceResponse [identity_piece (oa_b3 demo_api) (Cid (sum_hash [7])) [7]] 3"

definition fetch_request :: wire_message where
  "fetch_request = PieceRequest (Cid (sum_hash [7])) [] 3"

definition fetch_card :: "wire_message postcard" where
  "fetch_card = \<lparr>pc_encode = \<lambda>m. if m = fetch_request then Some [1] else if m = fetch_reply then Some [2] else None,
     pc_decode = \<lambda>b. if b = [1] then Some fetch_request else if b = [2] then Some fetch_reply else None\<rparr>"

lemma fetch_card_facts: "postcard_ok fetch_card" "pc_encode fetch_card fetch_request = Some [1]" "pc_encode fetch_card fetch_reply = Some [2]"
  by (auto simp: postcard_ok_def fetch_card_def fetch_request_def fetch_reply_def)

lemma demo_node_answer: "fst (node_handle_message demo_node_api demo_node_io n fetch_request demo_node) = Some fetch_reply"
proof -
  have st: "nd_store demo_node = demo_node_store" "na_obj demo_node_api = demo_api" "nd_index demo_node = coded_index_new"
    by (simp_all add: demo_node_def demo_node_api_def)
  have "cid_wf (Cid (sum_hash [7]))" by (simp add: cid_wf_def CID_SIZE_def sum_hash_def)
  then show ?thesis
    using handle_piece_request_clean[of demo_node_api demo_node demo_node_io "Cid (sum_hash [7])" 3] demo_node_store_clean
    by (auto simp: st coded_index_get_def coded_index_new_def stored_pieces_def map_filter_def demo_node_io_def no_faults_def
        fetch_request_def fetch_reply_def)
qed

theorem fetch_reply_lost_witness:
  "\<exists>b f. cs_written (snd (craftec_stream fetch_card (node_handle_message demo_node_api demo_node_io) (NodeId [1]) (demo_event b) (demo_conn demo_node))) = [f] \<and>
     cs_app (read_outbound_conn fetch_card [demo_event f] (demo_conn demo_node)) = demo_node"
proof -
  let ?b = "frame (type_tag fetch_request) 1 [1]" and ?f = "frame (type_tag fetch_reply) 0 [2]"
  have e: "encode_framed_with_hlc fetch_card fetch_request 1 = Inr ?b" by (simp add: encode_framed_with_hlc_def fetch_card_facts)
  have s: "send_message (demo_net fetch_card) demo_clock (NodeId [2]) fetch_request demo_endpoint =
      Some (Inr (), [Reader 1 (NodeId [2]), Wrote 1 ?b], demo_endpoint\<lparr>ep_hlc := 1, ep_pool := pool_insert 0 (NodeId [2]) 1 (pool_with_capacity 4)\<rparr>)"
    by (rule demo_send[OF e]) simp
  have "cs_written (snd (craftec_stream fetch_card (node_handle_message demo_node_api demo_node_io) (NodeId [1]) (demo_event ?b) (demo_conn demo_node))) = [?f] \<and>
     cs_app (read_outbound_conn fetch_card [demo_event ?f] (demo_conn demo_node)) = demo_node"
    using fetch_reply_lost[of "demo_net fetch_card" demo_clock "NodeId [2]" "Cid (sum_hash [7])" "[]" 3 demo_endpoint
        "[Reader 1 (NodeId [2]), Wrote 1 ?b]" "demo_endpoint\<lparr>ep_hlc := 1, ep_pool := pool_insert 0 (NodeId [2]) 1 (pool_with_capacity 4)\<rparr>" 1 ?b "demo_event ?b"
        demo_node_api demo_node_io "demo_conn demo_node" "[identity_piece (oa_b3 demo_api) (Cid (sum_hash [7])) [7]]" ?f "[]" "demo_event ?f" "[]" "demo_conn demo_node" demo_node_io]
      s demo_node_answer[of "NodeId [1]"] fetch_card_facts
    by (simp add: fetch_request_def[symmetric] fetch_reply_def[symmetric] demo_net_def demo_endpoint_def demo_event_def demo_clock_facts
        demo_conn_def encode_framed_def encode_framed_with_hlc_def pool_with_capacity_def)
       (simp add: frame_def)
  then show ?thesis by blast
qed

section \<open>Identifiers that are no keys\<close>

lemma mark_alive_new:
  assumes "n \<noteq> sw_local s" "map_of (sw_members s) n = None"
  shows "n \<in> set (alive_members (mark_alive n inc s))"
proof -
  have "map_of (sw_members (mark_alive n inc s)) n = Some (Alive inc)"
    using assms by (simp add: mark_alive_def upsert_def send_event_def Let_def update_conv')
  then show ?thesis by (force simp: alive_members_def dest: map_of_SomeD)
qed

lemma send_message_panics:
  assumes "map_of (pool_connections (ep_pool ep)) n = None" "\<not> ne_key_ok N (node_id_bytes n)"
    and "pc_encode (ne_msg N) msg \<noteq> None"
  shows "send_message N clk n msg ep = None"
  using assms by (auto simp: send_message_def encode_framed_with_hlc_def pool_get_def Let_def split: option.splits)

lemma send_message_members: "send_message N clk n msg ep = Some (r, acts, ep') \<Longrightarrow> map_of (pool_connections (ep_pool ep)) m = None \<Longrightarrow> m \<noteq> n \<Longrightarrow>
   map_of (pool_connections (ep_pool ep')) m = None"
proof -
  assume s: "send_message N clk n msg ep = Some (r, acts, ep')" and m: "map_of (pool_connections (ep_pool ep)) m = None" "m \<noteq> n"
  have del: "map_of (pool_connections (evict_lru p)) m = None" if "map_of (pool_connections p) m = None" for p :: "'a connection_pool"
    using that by (auto simp: evict_lru_def pool_remove_def delete_conv' split: option.splits)
  have "map_of (pool_connections (pool_insert t n k p)) m = None" if "map_of (pool_connections p) m = None" for t k and p :: "'a connection_pool"
    using that del[OF that] m(2) by (simp add: pool_insert_def Let_def update_conv')
  moreover have "map_of (pool_connections (snd (pool_get t n (ep_pool ep)))) m = None" for t
    using m by (auto simp: pool_get_def update_conv' split: option.splits)
  ultimately show ?thesis
    using s m by (auto simp: send_message_def Let_def split: sum.splits prod.splits option.splits if_splits dest!: arg_cong[of "pool_get _ _ _" _ snd])
qed

lemma send_each_panics:
  assumes "\<exists>msg. (n, msg) \<in> set ms" "\<forall>(m, msg) \<in> set ms. pc_encode (ne_msg N) msg \<noteq> None"
    and "map_of (pool_connections (ep_pool ep)) n = None" "\<not> ne_key_ok N (node_id_bytes n)"
  shows "send_each N clk ms ep = None"
  using assms
proof (induction ms arbitrary: clk ep)
  case (Cons x ms)
  obtain m msg where x: "x = (m, msg)" by (cases x)
  show ?case
  proof (cases "m = n")
    case True
    then show ?thesis using send_message_panics[OF Cons.prems(3,4)] Cons.prems(2) by (simp add: x)
  next
    case False
    then have "\<exists>msg. (n, msg) \<in> set ms" using Cons.prems(1) x by auto
    then show ?thesis
      using Cons.IH Cons.prems(2-4) False send_message_members[of N "clk 0" m msg ep _ _ _ n] by (auto simp: x split: option.splits)
  qed
qed simp

text \<open>
  A forged join stops the announcements.  The identifier in a join message is not compared with
  the authenticated sender and need not be a public key.  Any peer can so put an identifier that is
  no key among the alive members; and when it is chosen as a target of an announcement, sending to it
  panics in the task that announces, which is the event loop of the node.
\<close>

theorem forged_join_panics:
  assumes "se_read ev = StreamBytes b" "decode_framed_with_hlc P b = Some (Inr (SwimJoin n port, 0))"
    and "n \<noteq> sw_local (cs_swim st)" "map_of (sw_members (cs_swim st)) n = None"
    and "nd_swim nd = cs_swim (snd (craftec_stream P h remote ev st))"
    and "\<not> ne_key_ok N (node_id_bytes n)" "map_of (pool_connections (ep_pool ep)) n = None"
    and "pc_encode (ne_msg N) (ProviderAnnounce c (nd_id nd)) \<noteq> None"
    and "n \<in> set (na_pick X (min (announce_count (length (alive_members (nd_swim nd)))) (length (alive_members (nd_swim nd)))) (alive_members (nd_swim nd)))"
  shows "n \<in> set (alive_members (nd_swim nd)) \<and> send_each N clk (announce_cid_to_peers X c nd) ep = None"
proof -
  have "cs_swim (snd (craftec_stream P h remote ev st)) = mark_alive n 0 (cs_swim st)"
    by (auto simp: craftec_stream_def assms(1,2) admit_def process_swim_def send_swim_reply_def Let_def split: sum.splits)
  then have a: "n \<in> set (alive_members (nd_swim nd))" using mark_alive_new[OF assms(3,4)] assms(5) by simp
  then have "alive_members (nd_swim nd) \<noteq> []" by auto
  then have t: "announce_cid_to_peers X c nd = map (\<lambda>t. (t, ProviderAnnounce c (nd_id nd)))
      (na_pick X (min (announce_count (length (alive_members (nd_swim nd)))) (length (alive_members (nd_swim nd)))) (alive_members (nd_swim nd)))"
    by (simp add: announce_cid_to_peers_def Let_def)
  show ?thesis using a send_each_panics[of n _ N ep clk] assms(6-9) unfolding t by force
qed

definition join_card :: "wire_message postcard" where
  "join_card = \<lparr>pc_encode = \<lambda>m. if m = SwimJoin (NodeId [0]) 0 then Some [1] else if m = ProviderAnnounce (Cid [5]) (NodeId [1]) then Some [2] else None,
     pc_decode = \<lambda>b. if b = [1] then Some (SwimJoin (NodeId [0]) 0) else if b = [2] then Some (ProviderAnnounce (Cid [5]) (NodeId [1])) else None\<rparr>"

theorem forged_join_panics_witness:
  "\<exists>b. send_each (demo_net join_card) (\<lambda>_. demo_clock) (announce_cid_to_peers demo_node_api (Cid [5])
     (demo_node\<lparr>nd_swim := cs_swim (snd (craftec_stream join_card (\<lambda>n m s. (None, s)) (NodeId [2]) (demo_event b) (demo_conn ())))\<rparr>)) demo_endpoint = None"
proof -
  let ?b = "frame 256 0 [1]"
  let ?sw = "cs_swim (snd (craftec_stream join_card (\<lambda>n m s. (None, s)) (NodeId [2]) (demo_event ?b) (demo_conn ())))"
  have ok: "postcard_ok join_card" by (auto simp: postcard_ok_def join_card_def)
  have d: "decode_framed_with_hlc join_card ?b = Some (Inr (SwimJoin (NodeId [0]) 0, 0))"
    using decode_framed_frame[OF ok, of "SwimJoin (NodeId [0]) 0" "[1]" 256 0 "[]"] by (simp add: join_card_def)
  have "?sw = mark_alive (NodeId [0]) 0 (swim_new (NodeId [1]))"
    by (simp add: craftec_stream_def demo_event_def d admit_def process_swim_def send_swim_reply_def demo_conn_def Let_def split: sum.splits)
  then have one: "alive_members ?sw = [NodeId [0]]"
    by (simp add: mark_alive_def upsert_def send_event_def swim_new_def alive_members_def)
  show ?thesis
    using forged_join_panics[of "demo_event ?b" ?b join_card "NodeId [0]" 0 "demo_conn ()" "demo_node\<lparr>nd_swim := ?sw\<rparr>" "\<lambda>n m s. (None, s)" "NodeId [2]"
        "demo_net join_card" demo_endpoint "Cid [5]" demo_node_api "\<lambda>_. demo_clock"] d one
    by (intro exI[of _ ?b]) (simp add: demo_event_def demo_conn_def swim_new_def demo_net_def demo_endpoint_def pool_with_capacity_def join_card_def
        demo_node_def set_store_def demo_node_api_def announce_count_def)
qed

section \<open>Bounded service of RPC requests\<close>

lemma count_list_append [simp]: "count_list (xs @ ys) x = count_list xs x + count_list ys x"
  by (induction xs) auto

lemma count_list_update_le: "y \<noteq> x \<Longrightarrow> count_list (xs[i := y]) x \<le> count_list xs x"
  by (induction xs arbitrary: i) (auto split: nat.splits)

lemma rpc_step_bound:
  "rpc_step Q R h remote x y \<Longrightarrow> count_list (fst x) RpcServing \<le> MAX_CONCURRENT_RPC_STREAMS \<Longrightarrow>
   count_list (fst y) RpcServing \<le> MAX_CONCURRENT_RPC_STREAMS"
proof (induction rule: rpc_step.induct)
  case (serve i ts ev st r st')
  then show ?case using count_list_update_le[of "RpcFinished r" RpcServing ts i] by simp
qed auto

text \<open>
  Service of RPC requests is bounded.  However streams arrive and tasks are scheduled, one
  connection never has more than 16 requests in service; a stream beyond that is refused without any
  effect, and a free place always accepts the next one.
\<close>

theorem rpc_streams_bounded:
  assumes "(rpc_step Q R h remote)\<^sup>*\<^sup>* ([], st) (ts, st')"
  shows "count_list ts RpcServing \<le> 16 \<and>
    (count_list ts RpcServing = 16 \<longrightarrow> rpc_step Q R h remote (ts, st') (ts, st') \<and> \<not> rpc_step Q R h remote (ts, st') (ts @ [RpcServing], st')) \<and>
    (count_list ts RpcServing < 16 \<longrightarrow> rpc_step Q R h remote (ts, st') (ts @ [RpcServing], st'))"
proof -
  have "(rpc_step Q R h remote)\<^sup>*\<^sup>* x y \<Longrightarrow> count_list (fst x) RpcServing \<le> MAX_CONCURRENT_RPC_STREAMS \<Longrightarrow>
      count_list (fst y) RpcServing \<le> MAX_CONCURRENT_RPC_STREAMS" for x y
    by (induction rule: rtranclp_induct) (auto dest: rpc_step_bound)
  from this[OF assms] have "count_list ts RpcServing \<le> 16" by (simp add: MAX_CONCURRENT_RPC_STREAMS_def)
  moreover have "\<not> rpc_step Q R h remote (ts, st') (ts @ [RpcServing], st')" if "count_list ts RpcServing = 16"
  proof
    assume "rpc_step Q R h remote (ts, st') (ts @ [RpcServing], st')"
    then show False using that
      by (elim rpc_acceptE) (auto simp: MAX_CONCURRENT_RPC_STREAMS_def dest: arg_cong[of _ _ length])
  qed
  ultimately show ?thesis
    using rpc_step.refuse[of ts Q R h remote st'] rpc_step.accept[of ts Q R h remote st']
    by (simp add: MAX_CONCURRENT_RPC_STREAMS_def)
qed

lemma rpc_accept_many:
  "n \<le> 16 \<Longrightarrow> (rpc_step Q R h remote)\<^sup>*\<^sup>* ([], st) (replicate n RpcServing, st)"
proof (induction n)
  case (Suc n)
  have c: "count_list (replicate n RpcServing) RpcServing = n" by (induction n) simp_all
  have "rpc_step Q R h remote (replicate n RpcServing, st) (replicate n RpcServing @ [RpcServing], st)"
    by (rule rpc_step.accept) (use Suc.prems c in \<open>simp add: MAX_CONCURRENT_RPC_STREAMS_def\<close>)
  then show ?case using Suc by (simp add: replicate_append_same rtranclp.rtrancl_into_rtrancl)
qed simp

theorem rpc_streams_bounded_witness:
  "\<not> rpc_step \<lparr>pc_encode = \<lambda>_. None, pc_decode = \<lambda>_. None\<rparr> \<lparr>pc_encode = \<lambda>_. None, pc_decode = \<lambda>_. None\<rparr> (\<lambda>n r s. (RespStoreGet None, s)) (NodeId [2])
     (replicate 16 RpcServing, demo_conn ()) (replicate 16 RpcServing @ [RpcServing], demo_conn ())"
proof -
  have c: "count_list (replicate n RpcServing) RpcServing = n" for n by (induction n) simp_all
  show ?thesis
    using rpc_streams_bounded[OF rpc_accept_many[of 16 _ _ _ _ "demo_conn ()"], THEN conjunct2, THEN conjunct1] c by simp
qed

section \<open>Outcome of bootstrapping\<close>

definition peer_joins :: "('k, 'a) net_api \<Rightarrow> string \<Rightarrow> bool" where
  "peer_joins N p \<longleftrightarrow> (case parse_peer N p of None \<Rightarrow> False
     | Some (n, addr) \<Rightarrow> (case ne_dial N n addr of None \<Rightarrow> False | Some k \<Rightarrow> ne_open N k \<and> ne_write N k \<and> ne_finish N k))"

lemma send_message_pooled:
  assumes "pc_encode (ne_msg N) msg \<noteq> None" "fst (pool_get (nc_instant clk) n (ep_pool ep)) = Some k"
  shows "\<exists>r acts ep'. send_message N clk n msg ep = Some (r, acts, ep') \<and> ep_id ep' = ep_id ep \<and>
    (is_ok r \<longleftrightarrow> ne_open N k \<and> ne_write N k \<and> ne_finish N k)"
  using assms by (auto simp: send_message_def encode_framed_with_hlc_def send_on_def Let_def split: option.splits prod.splits)

lemma bootstrap_loop_outcome:
  assumes "pc_encode (ne_msg N) (SwimJoin (ep_id ep) 0) \<noteq> None"
  shows "\<exists>acts' ep'. bootstrap_loop N clk ps joined acts ep = Some (joined + length (filter (peer_joins N) ps), acts', ep') \<and> ep_id ep' = ep_id ep"
  using assms
proof (induction ps arbitrary: clk joined acts ep)
  case (Cons p ps)
  show ?case
  proof (cases "parse_peer N p")
    case None
    then show ?thesis using Cons.IH[OF Cons.prems] by (simp add: peer_joins_def)
  next
    case (Some na)
    obtain n addr where na: "na = (n, addr)" by (cases na)
    show ?thesis
    proof (cases "ne_dial N n addr")
      case None
      then show ?thesis using Cons.IH[OF Cons.prems] Some na by (simp add: peer_joins_def connect_def)
    next
      case (Some k)
      let ?ep = "ep\<lparr>ep_pool := pool_insert (nc_instant (clk 0)) n k (ep_pool ep)\<rparr>"
      obtain r acts' ep' where s: "send_message N (clk 0) n (SwimJoin (ep_id ep) 0) ?ep = Some (r, acts', ep')" "ep_id ep' = ep_id ep"
          "is_ok r \<longleftrightarrow> ne_open N k \<and> ne_write N k \<and> ne_finish N k"
        using send_message_pooled[OF Cons.prems, of "clk 0" n ?ep k] by (auto simp: pool_insert_get)
      have j: "peer_joins N p \<longleftrightarrow> is_ok r" using s(3) \<open>parse_peer N p = Some na\<close> na Some by (simp add: peer_joins_def)
      have "pc_encode (ne_msg N) (SwimJoin (ep_id ep') 0) \<noteq> None" using Cons.prems s(2) by simp
      note IH = Cons.IH[OF this]
      show ?thesis
      proof (cases r)
        case (Inl e)
        then show ?thesis
          using IH[of "\<lambda>i. clk (Suc i)" joined "acts @ Reader k n # acts'"] s j \<open>parse_peer N p = Some na\<close> na Some
          by (simp add: connect_def)
      next
        case (Inr u)
        then show ?thesis
          using IH[of "\<lambda>i. clk (Suc i)" "joined + 1" "acts @ Reader k n # acts'"] s j \<open>parse_peer N p = Some na\<close> na Some
          by (simp add: connect_def)
      qed
    qed
  qed
qed simp

text \<open>
  Bootstrapping.  It never panics, whatever the configured addresses; it fails exactly when peers
  are configured and none of them can be parsed, dialled and sent the join message.
\<close>

theorem bootstrap_outcome:
  assumes "pc_encode (ne_msg N) (SwimJoin (ep_id ep) 0) \<noteq> None"
  shows "\<exists>acts ep'. bootstrap N clk peers ep =
    Some (if peers \<noteq> [] \<and> list_all (\<lambda>p. \<not> peer_joins N p) peers then Inl (BootstrapFailed (length peers)) else Inr (), acts, ep')"
proof (cases "peers = []")
  case False
  obtain acts' ep' where l: "bootstrap_loop N clk peers 0 [] ep = Some (length (filter (peer_joins N) peers), acts', ep')"
    using bootstrap_loop_outcome[OF assms, of clk peers 0 "[]"] by auto
  have "length (filter (peer_joins N) peers) = 0 \<longleftrightarrow> list_all (\<lambda>p. \<not> peer_joins N p) peers"
    by (simp add: filter_empty_conv list_all_iff)
  then show ?thesis using False l by (simp add: bootstrap_def)
qed (simp add: bootstrap_def)

theorem bootstrap_outcome_witness:
  "\<exists>acts ep'. bootstrap (demo_net (join_card\<lparr>pc_encode := \<lambda>m. Some [1]\<rparr>)) (\<lambda>_. demo_clock) [''nowhere''] demo_endpoint =
     Some (Inl (BootstrapFailed 1), acts, ep')"
proof -
  have "\<not> peer_joins (demo_net (join_card\<lparr>pc_encode := \<lambda>m. Some [1]\<rparr>)) ''nowhere''"
    by (simp add: peer_joins_def parse_peer_def demo_net_def)
  then show ?thesis
    using bootstrap_outcome[of "demo_net (join_card\<lparr>pc_encode := \<lambda>m. Some [1]\<rparr>)" demo_endpoint "\<lambda>_. demo_clock" "[''nowhere'']"]
    by (simp add: demo_net_def)
qed

section \<open>What a stream changes\<close>

text \<open>The state of the application changes by one call of the handler or not at all, and membership along its transitions.\<close>

lemma craftec_stream_app:
  "cs_app (snd (craftec_stream P h remote ev st)) = cs_app st \<or>
   (\<exists>msg. \<not> is_swim msg \<and> cs_app (snd (craftec_stream P h remote ev st)) = snd (h remote msg (cs_app st)))"
proof (cases "se_read ev")
  case (StreamBytes b)
  show ?thesis
  proof (cases "\<exists>msg ts. decode_framed_with_hlc P b = Some (Inr (msg, ts))")
    case True
    then obtain msg ts where d: "decode_framed_with_hlc P b = Some (Inr (msg, ts))" by blast
    obtain go st1 where a: "admit ev ts st = (go, st1)" by (cases "admit ev ts st")
    have app: "cs_app st1 = cs_app st" using a by (auto simp: admit_def hlc_observe_def split: sum.splits if_splits)
    obtain r app' where h: "h remote msg (cs_app st) = (r, app')" by (cases "h remote msg (cs_app st)")
    have "cs_app (snd (craftec_stream P h remote ev st)) =
        (if go \<and> \<not> is_swim msg then snd (h remote msg (cs_app st)) else cs_app st)"
      by (cases go; cases r) (simp_all add: craftec_stream_def StreamBytes d a app h process_swim_app reply_app_def split: sum.splits)
    then show ?thesis by (cases "go \<and> \<not> is_swim msg") auto
  next
    case False
    then show ?thesis by (auto simp: craftec_stream_def StreamBytes split: option.splits sum.splits)
  qed
qed (simp_all add: craftec_stream_def)

lemma rpc_serve_app:
  "cs_app (snd (rpc_serve Q R h remote ev st)) = cs_app st \<or> (\<exists>req. cs_app (snd (rpc_serve Q R h remote ev st)) = snd (h remote req (cs_app st)))"
  by (auto simp: rpc_serve_def Let_def case_prod_beta split: stream_read.splits option.splits sum.splits)

lemma handle_swim_msg_ext: "swim_ext s (snd (handle_swim_msg now msg s))"
proof -
  let ?s = "case msg of SwimPing src nonce ms \<Rightarrow> mark_alive src 0 s | _ \<Rightarrow> s"
  have "swim_ext s ?s" using mark_ext(1) by (cases msg) simp_all
  moreover have "snd (handle_swim_msg now msg s) = snd (handle_message now msg ?s)" by (rule swim_handlers_agree[THEN conjunct1])
  ultimately show ?thesis using swim_ext_trans[OF _ handle_ext(1)] by simp
qed

lemma process_swim_ext: "swim_ext (cs_swim st) (cs_swim (snd (process_swim P ev msg st)))"
proof -
  obtain r s where h: "handle_swim_msg (se_now ev) msg (cs_swim st) = (r, s)" by (cases "handle_swim_msg (se_now ev) msg (cs_swim st)")
  then have "swim_ext (cs_swim st) s" using handle_swim_msg_ext[of "cs_swim st" "se_now ev" msg] by simp
  then show ?thesis by (cases r) (simp_all add: process_swim_def h send_swim_reply_def split: sum.splits)
qed

lemma admit_fields: "cs_swim (snd (admit ev ts st)) = cs_swim st" "cs_app (snd (admit ev ts st)) = cs_app st"
  by (auto simp: admit_def hlc_observe_def split: sum.splits)

lemma stream_ext:
  "swim_ext (cs_swim st) (cs_swim (snd (swim_stream P ev st)))"
  "swim_ext (cs_swim st) (cs_swim (snd (outbound_stream P ev st)))"
  "swim_ext (cs_swim st) (cs_swim (snd (craftec_stream P h remote ev st)))"
proof -
  have admitted: "swim_ext (cs_swim st) (cs_swim (snd (process_swim P ev msg st1)))" if "admit ev ts st = (go, st1)" for msg ts go st1
    using process_swim_ext[of st1 P ev msg] admit_fields(1)[of ev ts st] that by simp
  have same: "cs_swim st1 = cs_swim st" if "admit ev ts st = (go, st1)" for ts go st1
    using admit_fields(1)[of ev ts st] that by simp
  show "swim_ext (cs_swim st) (cs_swim (snd (swim_stream P ev st)))"
    by (auto simp: swim_stream_def admitted same split: stream_read.splits option.splits sum.splits prod.splits bool.splits)
  show "swim_ext (cs_swim st) (cs_swim (snd (outbound_stream P ev st)))"
    using process_swim_ext[of st P ev] process_swim_ext[of "st\<lparr>cs_hlc := clk\<rparr>" P ev for clk]
    by (auto simp: outbound_stream_def Let_def split: stream_read.splits option.splits sum.splits)
  show "swim_ext (cs_swim st) (cs_swim (snd (craftec_stream P h remote ev st)))"
    by (auto simp: craftec_stream_def admitted same reply_app_def split: stream_read.splits option.splits sum.splits prod.splits bool.splits)
qed

section \<open>Handlers\<close>

text \<open>
  The two traits of craftec-net/src/connection.rs that connect the endpoint with the node: a handler of
  peer messages and a handler of requests over one state.  A handler promises to keep an invariant and
  to change its state only in an allowed way, whatever its input and output do; the readers of the
  endpoint then keep the promise for any bytes that arrive.
\<close>

locale connection_handlers =
  fixes on_message :: "'i \<Rightarrow> node_id \<Rightarrow> wire_message \<Rightarrow> 's \<Rightarrow> wire_message option \<times> 's"
    and on_request :: "'i \<Rightarrow> node_id \<Rightarrow> rpc_request \<Rightarrow> 's \<Rightarrow> rpc_response \<times> 's"
    and handler_inv :: "'s \<Rightarrow> bool"
    and handler_keeps :: "'s \<Rightarrow> 's \<Rightarrow> bool"
  assumes message_law: "handler_inv s \<Longrightarrow> handler_inv (snd (on_message io n msg s)) \<and> handler_keeps s (snd (on_message io n msg s))"
    and request_law: "handler_inv s \<Longrightarrow> handler_inv (snd (on_request io n req s)) \<and> handler_keeps s (snd (on_request io n req s))"
    and keeps_refl: "handler_keeps s s"
    and keeps_trans: "handler_keeps s t \<Longrightarrow> handler_keeps t u \<Longrightarrow> handler_keeps s u"
begin

lemma stream_law:
  assumes "handler_inv (cs_app st)"
  shows "handler_inv (cs_app (snd (craftec_stream P (on_message io) remote ev st))) \<and>
    handler_keeps (cs_app st) (cs_app (snd (craftec_stream P (on_message io) remote ev st)))"
  using craftec_stream_app[of P "on_message io" remote ev st] message_law[OF assms] keeps_refl assms by metis

lemma conn_law:
  "handler_inv (cs_app st) \<Longrightarrow> handler_inv (cs_app (handle_craftec_conn P (on_message io) remote evs st)) \<and>
    handler_keeps (cs_app st) (cs_app (handle_craftec_conn P (on_message io) remote evs st))"
  unfolding handle_craftec_conn_def
proof (induction evs arbitrary: st)
  case Nil
  then show ?case by (simp add: keeps_refl)
next
  case (Cons ev evs)
  obtain go st' where s: "craftec_stream P (on_message io) remote ev st = (go, st')" by (cases "craftec_stream P (on_message io) remote ev st")
  note l = stream_law[OF Cons.prems, of P io remote ev, unfolded s snd_conv]
  show ?case
  proof (cases go)
    case True
    then show ?thesis using s l Cons.IH[of st'] keeps_trans by auto
  next
    case False
    then show ?thesis using s l by simp
  qed
qed

lemma serve_law:
  assumes "handler_inv (cs_app st)"
  shows "handler_inv (cs_app (snd (rpc_serve Q R (on_request io) remote ev st))) \<and>
    handler_keeps (cs_app st) (cs_app (snd (rpc_serve Q R (on_request io) remote ev st)))"
  using rpc_serve_app[of Q R "on_request io" remote ev st] request_law[OF assms] keeps_refl assms by metis

end

interpretation node_handlers: connection_handlers "node_handle_message X" "handle_request X" "node_wf X" node_keeps for X
  by unfold_locales (simp_all only: message_wf request_wf, auto simp: node_keeps_def)

end
