(* ===== verification/Startup.thy ===== *)
theory Startup
  imports Endpoint Scheduler
begin

text \<open>
  The configuration (craftec-types/src/config.rs, craftec-node/src/main.rs) and the start, the first
  announcements and the end of a node (craftec-node/src/node.rs).  The files of the node are explicit:
  the configuration in the working directory, and in the data directory the lock, the key, the
  identity, the objects and the database.  JSON is a parameter; texts are ASCII.
\<close>

section \<open>Configuration\<close>

record node_config =
  cf_data_dir :: string
  cf_listen_port :: u16
  cf_bootstrap_peers :: "string list"
  cf_max_connections :: u64
  cf_max_disk_usage_bytes :: u64
  cf_health_scan_cycle_secs :: u64
  cf_rlnc_k :: u32
  cf_page_size :: u64
  cf_log_level :: string

definition config_default :: node_config where
  "config_default = \<lparr>cf_data_dir = ''data'', cf_listen_port = 4433, cf_bootstrap_peers = [], cf_max_connections = 256,
     cf_max_disk_usage_bytes = 10 * 1024 * 1024 * 1024, cf_health_scan_cycle_secs = 300, cf_rlnc_k = 32, cf_page_size = 16384,
     cf_log_level = ''info''\<rparr>"

text \<open>
  The JSON library: printing and parsing a configuration, and reading the text of a member of an
  object.  The printed default parses back, and the member \<open>data_dir\<close> of a text that parses is the directory.
\<close>

record json_api =
  js_print :: "node_config \<Rightarrow> string"
  js_parse :: "string \<Rightarrow> string + node_config"
  js_data_dir :: "string \<Rightarrow> string option"

definition json_ok :: "json_api \<Rightarrow> bool" where
  "json_ok J \<longleftrightarrow> js_parse J (js_print J config_default) = Inr config_default \<and> (\<forall>t c. js_parse J t = Inr c \<longrightarrow> js_data_dir J t = Some (cf_data_dir c))"

text \<open>The configuration file, and whether reading and writing it work.\<close>

record file_io =
  fi_read_ok :: bool
  fi_write_ok :: bool

definition config_load :: "json_api \<Rightarrow> file_io \<Rightarrow> string option \<Rightarrow> (node_config, craftec_error) result" where
  "config_load J io f =
     (case f of
        Some t \<Rightarrow> if \<not> fi_read_ok io then Inl (IoError ''read'')
                  else (case js_parse J t of Inl e \<Rightarrow> Inl (ser_error ''failed to parse config JSON'') | Inr c \<Rightarrow> Inr c)
      | None \<Rightarrow> Inl (IoError ''not found''))"

definition config_save :: "json_api \<Rightarrow> file_io \<Rightarrow> node_config \<Rightarrow> string option \<Rightarrow> (unit, craftec_error) result \<times> string option" where
  "config_save J io c f = (if fi_write_ok io then (Inr (), Some (js_print J c)) else (Inl (IoError ''write''), f))"

definition load_or_create_config :: "json_api \<Rightarrow> file_io \<Rightarrow> string option \<Rightarrow> (node_config, craftec_error) result \<times> string option" where
  "load_or_create_config J io f =
     (if f \<noteq> None then (config_load J io f, f)
      else case config_save J io config_default f of
             (Inl e, f') \<Rightarrow> (Inl e, f')
           | (Inr _, f') \<Rightarrow> (Inr config_default, f'))"

text \<open>\<open>str::parse\<close> of an unsigned integer: an optional plus sign and at least one decimal digit, without overflow.\<close>

definition digit_value :: "char \<Rightarrow> nat option" where
  "digit_value c = (if 48 \<le> (of_char c :: nat) \<and> (of_char c :: nat) \<le> 57 then Some (of_char c - 48) else None)"

fun parse_digits :: "nat \<Rightarrow> nat \<Rightarrow> string \<Rightarrow> nat option" where
  "parse_digits limit acc [] = Some acc"
| "parse_digits limit acc (c # cs) =
     (case digit_value c of
        None \<Rightarrow> None
      | Some d \<Rightarrow> if acc * 10 + d \<ge> limit then None else parse_digits limit (acc * 10 + d) cs)"

definition parse_uint :: "nat \<Rightarrow> string \<Rightarrow> nat option" where
  "parse_uint limit s =
     (let t = (case s of CHR ''+'' # r \<Rightarrow> r | _ \<Rightarrow> s) in if t = [] then None else parse_digits limit 0 t)"

definition is_space :: "char \<Rightarrow> bool" where
  "is_space c \<longleftrightarrow> (of_char c :: nat) = 32 \<or> 9 \<le> (of_char c :: nat) \<and> (of_char c :: nat) \<le> 13"

definition trim :: "string \<Rightarrow> string" where
  "trim s = rev (dropWhile is_space (rev (dropWhile is_space s)))"

fun split_on :: "char \<Rightarrow> string \<Rightarrow> string list" where
  "split_on d [] = [[]]"
| "split_on d (c # cs) =
     (if c = d then [] # split_on d cs
      else case split_on d cs of [] \<Rightarrow> [[c]] | w # ws \<Rightarrow> (c # w) # ws)"

type_synonym env = "string \<rightharpoonup> string"

definition apply_env_overrides :: "env \<Rightarrow> node_config \<Rightarrow> node_config" where
  "apply_env_overrides env c0 =
     (let c1 = (case env ''CRAFTEC_DATA_DIR'' of None \<Rightarrow> c0 | Some d \<Rightarrow> c0\<lparr>cf_data_dir := d\<rparr>);
          c2 = (case env ''CRAFTEC_LISTEN_PORT'' of
                  None \<Rightarrow> c1
                | Some s \<Rightarrow> (case parse_uint (2 ^ 16) s of None \<Rightarrow> c1 | Some p \<Rightarrow> c1\<lparr>cf_listen_port := of_nat p\<rparr>));
          c3 = (case env ''CRAFTEC_BOOTSTRAP_PEERS'' of
                  None \<Rightarrow> c2
                | Some s \<Rightarrow> c2\<lparr>cf_bootstrap_peers := filter (\<lambda>p. p \<noteq> []) (map trim (split_on (CHR '','') s))\<rparr>)
      in case env ''CRAFTEC_HEALTH_SCAN_CYCLE_SECS'' of
           None \<Rightarrow> c3
         | Some s \<Rightarrow> (case parse_uint (2 ^ 64) s of None \<Rightarrow> c3 | Some n \<Rightarrow> c3\<lparr>cf_health_scan_cycle_secs := of_nat n\<rparr>))"

text \<open>What \<open>main\<close> does before it starts the node.\<close>

definition node_configuration :: "json_api \<Rightarrow> file_io \<Rightarrow> env \<Rightarrow> string option \<Rightarrow> (node_config, craftec_error) result \<times> string option" where
  "node_configuration J io env f =
     (case load_or_create_config J io f of
        (Inl e, f') \<Rightarrow> (Inl e, f')
      | (Inr c, f') \<Rightarrow> (Inr (apply_env_overrides env c), f'))"

section \<open>Starting\<close>

definition OBJ_CACHE_CAPACITY :: nat where "OBJ_CACHE_CAPACITY = 1024"

record data_dir =
  dd_lock :: "bytes option"
  dd_key :: "bytes option"
  dd_id :: "string option"
  dd_obj :: fs
  dd_sql :: bytes

text \<open>The outcomes of the input and output of a start; a failed write leaves a prefix.\<close>

record boot_io =
  bo_mkdir_ok :: bool
  bo_lock :: "nat option"
  bo_keys :: key_faults
  bo_entropy :: bytes
  bo_obj_ok :: bool
  bo_sql :: sql_io
  bo_com_ok :: bool
  bo_key_read_ok :: bool
  bo_endpoint_ok :: bool
  bo_wall :: u64
  bo_id :: "nat option"
  bo_keys2 :: key_faults

datatype boot_error =
    BootDataDir
  | BootLock
  | BootKeys craftec_error
  | BootStore
  | BootVfs vfs_error
  | BootDatabase sql_error
  | BootRuntime
  | BootKeyFile
  | BootEndpoint
  | BootIdFile
  | BootSchedulerKeys craftec_error

definition node_id_display :: "hex_api \<Rightarrow> node_id \<Rightarrow> string" where
  "node_id_display H n = hex_encode H (node_id_bytes n)"

record ('b, 'c, 'p, 'g, 'k) craftec_node =
  cn_config :: node_config
  cn_keystore :: key_store
  cn_node :: "('b, 'c, 'p, 'g) node"
  cn_endpoint :: "'k endpoint"
  cn_runtime :: com_runtime
  cn_scheduler :: sched_system
  cn_scheduler_keys :: key_store

text \<open>Steps 4 to 6b: the store, the VFS and the database.\<close>

definition boot_database ::
  "('b, 'c, 'g) node_api \<Rightarrow> 'p page_lru \<Rightarrow> boot_io \<Rightarrow> node_config \<Rightarrow> key_store \<Rightarrow> data_dir \<Rightarrow>
     (('b, 'c, 'p) database, boot_error) result \<times> data_dir" where
  "boot_database X P io cfg ks dd =
     (if \<not> bo_obj_ok io then (Inl BootStore, dd)
      else case vfs_new P (store_new (na_obj X) (dd_obj dd) OBJ_CACHE_CAPACITY) (unat (cf_page_size cfg)) of
             Inl e \<Rightarrow> (Inl (BootVfs e), dd)
           | Inr v \<Rightarrow>
               (case database_create (na_engine X) (na_obj X) (bo_sql io) (key_store_node_id (na_ed X) ks) (dd_sql dd) v of
                  (Inl e, f, v') \<Rightarrow> (Inl (BootDatabase e), dd\<lparr>dd_sql := f, dd_obj := st_fs (vf_store v')\<rparr>)
                | (Inr db, f, v') \<Rightarrow> (Inr db, dd\<lparr>dd_sql := f, dd_obj := st_fs (vf_store v')\<rparr>)))"

text \<open>Step 8: the store and the database publish events from here on.\<close>

definition connect_events :: "('b, 'c, 'p) database \<Rightarrow> ('b, 'c, 'p) database" where
  "connect_events db = db\<lparr>db_vfs := (db_vfs db)\<lparr>vf_store := set_event_sender (vf_store (db_vfs db))\<rparr>, db_events := Some []\<rparr>"

text \<open>Step 9: the endpoint, with the key read again from its file; \<open>None\<close> is the panic of a key of another length.\<close>

definition boot_endpoint ::
  "('b, 'c, 'g) node_api \<Rightarrow> boot_io \<Rightarrow> node_config \<Rightarrow> data_dir \<Rightarrow> (('k endpoint, boot_error) result \<times> data_dir) option" where
  "boot_endpoint X io cfg dd =
     (case dd_key dd of
        None \<Rightarrow> Some (Inl BootKeyFile, dd)
      | Some kb \<Rightarrow>
          if \<not> bo_key_read_ok io then Some (Inl BootKeyFile, dd)
          else if length kb \<noteq> 32 then None
          else if \<not> bo_endpoint_ok io then Some (Inl BootEndpoint, dd)
          else let n = keypair_node_id (na_ed X) (NodeKeypair kb); t = node_id_display (oa_hex (na_obj X)) n
               in case bo_id io of
                    Some j \<Rightarrow> Some (Inl BootIdFile, dd\<lparr>dd_id := Some (take j t)\<rparr>)
                  | None \<Rightarrow> Some (Inr (endpoint_new n (unat (cf_max_connections cfg)) (bo_wall io)), dd\<lparr>dd_id := Some t\<rparr>))"

definition node_new ::
  "('b, 'c, 'g) node_api \<Rightarrow> 'p page_lru \<Rightarrow> 'g \<Rightarrow> boot_io \<Rightarrow> node_config \<Rightarrow> data_dir \<Rightarrow>
     ((('b, 'c, 'p, 'g, 'k) craftec_node, boot_error) result \<times> data_dir) option" where
  "node_new X P g io cfg dd =
     (if \<not> bo_mkdir_ok io then Some (Inl BootDataDir, dd)
      else case bo_lock io of
        Some j \<Rightarrow> Some (Inl BootLock, dd\<lparr>dd_lock := Some (take j (str_bytes ''locked''))\<rparr>)
      | None \<Rightarrow>
          (let dd1 = dd\<lparr>dd_lock := Some (str_bytes ''locked'')\<rparr>
           in case key_store_new (bo_keys io) (bo_entropy io) (dd_key dd1) of
             (Inl e, kf) \<Rightarrow> Some (Inl (BootKeys e), dd1\<lparr>dd_key := kf\<rparr>)
           | (Inr ks, kf) \<Rightarrow>
               (case boot_database X P io cfg ks (dd1\<lparr>dd_key := kf\<rparr>) of
                  (Inl e, dd2) \<Rightarrow> Some (Inl e, dd2)
                | (Inr db, dd2) \<Rightarrow>
                    case com_runtime_new (bo_com_ok io) DEFAULT_FUEL_LIMIT of
                      Inl e \<Rightarrow> Some (Inl BootRuntime, dd2)
                    | Inr rt \<Rightarrow> Option.bind (boot_endpoint X io cfg dd2) (\<lambda>(r, dd3).
                      case r of
                        Inl e \<Rightarrow> Some (Inl e, dd3)
                      | Inr ep \<Rightarrow>
                          (case key_store_new (bo_keys2 io) (bo_entropy io) (dd_key dd3) of
                             (Inl e, kf2) \<Rightarrow> Some (Inl (BootSchedulerKeys e), dd3\<lparr>dd_key := kf2\<rparr>)
                           | (Inr ks2, kf2) \<Rightarrow>
                               let ep' = ep\<lparr>ep_swim := swim_set_event_sender (ep_swim ep)\<rparr>
                               in Some (Inr \<lparr>cn_config = cfg, cn_keystore = ks,
                                    cn_node = \<lparr>nd_id = ep_id ep', nd_db = connect_events db, nd_tracker = tracker_new, nd_dht = dht_new,
                                      nd_pending = pending_new, nd_index = coded_index_new, nd_swim = ep_swim ep', nd_metrics = metrics engine_new, nd_rng = g\<rparr>,
                                    cn_endpoint = ep', cn_runtime = rt, cn_scheduler = system_new,
                                    cn_scheduler_keys = ks2\<rparr>, dd3\<lparr>dd_key := kf2\<rparr>))))))"

section \<open>First announcements and shutdown\<close>

definition STORAGE_BOOTSTRAP_BATCH_SIZE :: nat where "STORAGE_BOOTSTRAP_BATCH_SIZE = 100"

text \<open>The identifiers announced from batch \<open>i\<close> on; \<open>stop i\<close> is a shutdown during the sleep after batch \<open>i\<close>.\<close>

fun announce_batches :: "(nat \<Rightarrow> bool) \<Rightarrow> nat \<Rightarrow> nat \<Rightarrow> cid list list \<Rightarrow> cid list" where
  "announce_batches stop n i [] = []"
| "announce_batches stop n i (ch # chs) =
     ch @ (if (i + 1) * STORAGE_BOOTSTRAP_BATCH_SIZE < n \<and> stop i then [] else announce_batches stop n (i + 1) chs)"

definition storage_bootstrap ::
  "('b, 'c, 'g) node_api \<Rightarrow> (nat \<Rightarrow> bool) \<Rightarrow> ('b, 'c, 'p, 'g) node \<Rightarrow> (node_id \<times> wire_message) list" where
  "storage_bootstrap X stop nd =
     (let cids = list_cids (na_obj X) (nd_store nd)
      in concat (map (\<lambda>c. announce_cid_to_peers X c nd) (announce_batches stop (length cids) 0 (chunks STORAGE_BOOTSTRAP_BATCH_SIZE cids))))"

text \<open>The pruners, which run every minute until the shutdown.\<close>

definition prune_pending_tick :: "instant \<Rightarrow> ('b, 'c, 'p, 'g) node \<Rightarrow> ('b, 'c, 'p, 'g) node" where
  "prune_pending_tick now nd = nd\<lparr>nd_pending := snd (pending_prune_stale now 120000 (nd_pending nd))\<rparr>"

definition prune_dht_tick :: "instant \<Rightarrow> ('b, 'c, 'p, 'g) node \<Rightarrow> ('b, 'c, 'p, 'g) node" where
  "prune_dht_tick now nd = nd\<lparr>nd_dht := snd (dht_prune_stale now 300000 (nd_dht nd))\<rparr>"

definition node_shutdown :: "bool \<Rightarrow> data_dir \<Rightarrow> data_dir" where
  "node_shutdown remove_ok dd = (if dd_lock dd \<noteq> None \<and> remove_ok then dd\<lparr>dd_lock := None\<rparr> else dd)"

section \<open>What a start keeps and establishes\<close>

text \<open>Storing keeps a clean store clean and loses no object.\<close>

definition store_extends :: "('b, 'c) obj_api \<Rightarrow> ('b, 'c) store \<Rightarrow> ('b, 'c) store \<Rightarrow> bool" where
  "store_extends A s s' \<longleftrightarrow> (store_inv A s \<longrightarrow> store_inv A s') \<and>
     (store_clean A s \<longrightarrow> store_clean A s' \<and> dom (obj_lookup A s) \<subseteq> dom (obj_lookup A s'))"

lemma store_extends_refl [simp]: "store_extends A s s"
  by (simp add: store_extends_def)

lemma store_extends_trans: "store_extends A s s' \<Longrightarrow> store_extends A s' s'' \<Longrightarrow> store_extends A s s''"
  by (auto simp: store_extends_def)

lemma put_extends: "store_extends A s (snd (put A f s d))"
  using put_inv[of A s f d] put_clean(1)[of A s f d] cas.put_op_keeps[of A s _ f d]
  by (auto simp: store_extends_def)

lemma store_pages_extends: "store_extends A s (fst (snd (store_pages (put A) flts i ps s ix)))"
proof (induction ps arbitrary: i s ix)
  case (Cons p ps)
  obtain r s' where r: "put A (flts i) s (snd p) = (r, s')" by (cases "put A (flts i) s (snd p)")
  then have "store_extends A s s'" using put_extends[of A s "flts i" "snd p"] by simp
  then show ?case using Cons.IH r by (cases p; cases r) (auto intro: store_extends_trans)
qed simp

lemma commit_extends: "store_extends A (vf_store v) (vf_store (snd (commit A flts ord v)))"
proof -
  obtain r s ix where p: "store_pages (put A) flts 0 (ord (vf_dirty v)) (vf_store v) (vf_index v) = (r, s, ix)" by (metis prod_cases3)
  then have s: "store_extends A (vf_store v) s"
    using store_pages_extends[of A "vf_store v" flts 0 "ord (vf_dirty v)" "vf_index v"] by simp
  obtain r' s' where q: "put A (flts (length (ord (vf_dirty v)))) s (page_index_serialize (pi_entries ix)) = (r', s')"
    by (cases "put A (flts (length (ord (vf_dirty v)))) s (page_index_serialize (pi_entries ix))")
  then have "store_extends A s s'"
    using put_extends[of A s "flts (length (ord (vf_dirty v)))" "page_index_serialize (pi_entries ix)"] by simp
  then have "store_extends A (vf_store v) s'" using s store_extends_trans by blast
  then show ?thesis using s by (simp add: commit_def Let_def p q split: option.splits sum.splits)
qed

lemma database_create_extends:
  assumes "database_create E A io owner f v = (r, f', v')"
  shows "store_extends A (vf_store v) (vf_store v') \<and>
    (\<forall>db. r = Inr db \<longrightarrow> db_owner db = owner \<and> db_vfs db = v' \<and> db_file db = f' \<and> db_id db = cid_from_data (oa_b3 A) (node_id_bytes owner))"
proof -
  have "store_extends A (vf_store v) (vf_store (snd (sync_pages_to_vfs A io file v)))" for "file"
  proof -
    obtain x w where w: "write_chunks (vf_page_size v) 0 (chunks (vf_page_size v) file) v = (x, w)"
      by (cases "write_chunks (vf_page_size v) 0 (chunks (vf_page_size v) file) v")
    have "vf_store w = vf_store v"
      using write_chunks_store[of "vf_page_size v" 0 "chunks (vf_page_size v) file" v] w by simp
    then have "store_extends A (vf_store v) (vf_store (snd (commit A (si_puts io) (si_order io) w)))" using commit_extends[of A w] by simp
    then show ?thesis using \<open>vf_store w = vf_store v\<close>
      by (auto simp: sync_pages_to_vfs_def w split: sum.splits prod.splits)
  qed
  note s = this
  show ?thesis using assms s
    by (auto simp: database_create_def split: if_splits prod.splits bool.splits sum.splits)
      (metis snd_conv)+
qed

lemma boot_database_ok:
  assumes "boot_database X P io cfg ks dd = (r, dd')"
  shows "dd_key dd' = dd_key dd" "dd_lock dd' = dd_lock dd"
    "r = Inr db \<Longrightarrow> db_owner db = key_store_node_id (na_ed X) ks \<and> st_fs (vf_store (db_vfs db)) = dd_obj dd' \<and> db_file db = dd_sql dd' \<and>
      store_extends (na_obj X) (store_new (na_obj X) (dd_obj dd) OBJ_CACHE_CAPACITY) (vf_store (db_vfs db))"
proof -
  let ?s = "store_new (na_obj X) (dd_obj dd) OBJ_CACHE_CAPACITY"
  have v: "vf_store v = ?s" if "vfs_new P ?s n = Inr v" for v n
    using that by (auto simp: vfs_new_def split: if_splits)
  show "dd_key dd' = dd_key dd" "dd_lock dd' = dd_lock dd"
    using assms by (auto simp: boot_database_def split: if_splits sum.splits prod.splits)
  show "r = Inr db \<Longrightarrow> db_owner db = key_store_node_id (na_ed X) ks \<and> st_fs (vf_store (db_vfs db)) = dd_obj dd' \<and> db_file db = dd_sql dd' \<and>
      store_extends (na_obj X) ?s (vf_store (db_vfs db))"
    using assms v database_create_extends[of "na_engine X" "na_obj X" "bo_sql io" "key_store_node_id (na_ed X) ks" "dd_sql dd"]
    by (fastforce simp: boot_database_def split: if_splits sum.splits prod.splits)
qed

lemma key_store_new_key:
  assumes "key_store_new flt entropy f = (Inr ks, f')" "length entropy = 32"
  shows "f' = Some (secret_bytes (ks_keypair ks))" "length (secret_bytes (ks_keypair ks)) = 32" "f \<noteq> None \<Longrightarrow> f' = f"
  using assms by (auto simp: key_store_new_def split: option.splits if_splits)

lemma set_event_sender_clean:
  "store_inv A (set_event_sender s) = store_inv A s" "store_clean A (set_event_sender s) = store_clean A s"
  "obj_lookup A (set_event_sender s) = obj_lookup A s"
proof -
  show l: "obj_lookup A (set_event_sender s) = obj_lookup A s" by (rule ext) (simp add: set_event_sender_def obj_lookup_def)
  show i: "store_inv A (set_event_sender s) = store_inv A s" by (simp add: set_event_sender_def store_inv_def)
  show "store_clean A (set_event_sender s) = store_clean A s" unfolding store_clean_def l i by (simp add: set_event_sender_def)
qed

text \<open>The shape of a start that succeeds.\<close>

lemma node_new_success:
  assumes "node_new X P g io cfg dd = Some (Inr nd, dd')" "length (bo_entropy io) = 32"
  obtains ks db dd2 ks2 where
    "key_store_new (bo_keys io) (bo_entropy io) (dd_key dd) = (Inr ks, Some (secret_bytes (ks_keypair ks)))"
    "boot_database X P io cfg ks (dd\<lparr>dd_lock := Some (str_bytes ''locked''), dd_key := Some (secret_bytes (ks_keypair ks))\<rparr>) = (Inr db, dd2)"
    "ks2 = ks" "cn_keystore nd = ks" "cn_scheduler_keys nd = ks2" "nd_db (cn_node nd) = connect_events db"
    "nd_id (cn_node nd) = keypair_node_id (na_ed X) (ks_keypair ks)" "ep_id (cn_endpoint nd) = nd_id (cn_node nd)"
    "nd_tracker (cn_node nd) = tracker_new" "nd_dht (cn_node nd) = dht_new" "nd_index (cn_node nd) = coded_index_new"
    "cn_scheduler nd = system_new" "cn_config nd = cfg"
    "dd' = dd2\<lparr>dd_id := Some (node_id_display (oa_hex (na_obj X)) (nd_id (cn_node nd)))\<rparr>"
proof -
  from assms(1) obtain ks kf where ks: "key_store_new (bo_keys io) (bo_entropy io) (dd_key dd) = (Inr ks, kf)"
    by (auto simp: node_new_def Let_def split: if_splits option.splits prod.splits sum.splits)
  note k = key_store_new_key[OF ks assms(2)]
  let ?d = "dd\<lparr>dd_lock := Some (str_bytes ''locked''), dd_key := Some (secret_bytes (ks_keypair ks))\<rparr>"
  from assms(1) obtain db dd2 where db: "boot_database X P io cfg ks ?d = (Inr db, dd2)"
    by (auto simp: node_new_def Let_def ks k(1) split: if_splits option.splits prod.splits sum.splits)
  have key: "dd_key dd2 = Some (secret_bytes (ks_keypair ks))" using boot_database_ok(1)[OF db] by simp
  have kp: "NodeKeypair (secret_bytes (ks_keypair ks)) = ks_keypair ks" by simp
  have again: "key_store_new flt e (Some (secret_bytes (ks_keypair ks))) = (Inr x, y) \<Longrightarrow> x = ks \<and> y = Some (secret_bytes (ks_keypair ks))" for flt e x y
    using k(2) by (cases ks) (auto simp: key_store_new_def split: if_splits)
  show thesis
    using assms(1)
    by (intro that[OF ks[unfolded k(1)] db refl])
      (auto simp: node_new_def Let_def ks k(1) db boot_endpoint_def key kp endpoint_new_def dest!: again split: if_splits option.splits prod.splits sum.splits)
qed

lemma boot_endpoint_total:
  assumes "key_store_new (bo_keys io) (bo_entropy io) f = (Inr ks, kf)" "length (bo_entropy io) = 32"
    and "boot_database X P io cfg ks dd = (r, dd2)" "dd_key dd = kf"
  shows "boot_endpoint X io cfg dd2 \<noteq> None"
  using boot_database_ok(1)[OF assms(3)] key_store_new_key[OF assms(1,2)] assms(4)
  by (auto simp: boot_endpoint_def Let_def split: option.splits)

lemma node_new_total:
  assumes "length (bo_entropy io) = 32"
  shows "(node_new X P g io cfg dd :: ((('b, 'c, 'p, 'g, 'k) craftec_node, boot_error) result \<times> data_dir) option) \<noteq> None"
proof (cases "key_store_new (bo_keys io) (bo_entropy io) (dd_key dd)")
  case (Pair r kf)
  show ?thesis
  proof (cases r)
    case (Inr ks)
    obtain r2 dd2 where db: "boot_database X P io cfg ks (dd\<lparr>dd_lock := Some (str_bytes ''locked''), dd_key := kf\<rparr>) = (r2, dd2)"
      by (cases "boot_database X P io cfg ks (dd\<lparr>dd_lock := Some (str_bytes ''locked''), dd_key := kf\<rparr>)")
    obtain x :: "('k endpoint, boot_error) result \<times> data_dir" where "boot_endpoint X io cfg dd2 = Some x" using boot_endpoint_total[OF Pair[unfolded Inr] assms db] by auto
    then show ?thesis by (auto simp: node_new_def Let_def Pair Inr db split: option.splits sum.splits prod.splits)
  qed (simp add: node_new_def Let_def Pair split: option.splits)
qed

lemma node_new_identity:
  assumes "obj_api_ok (na_obj X)" "length (bo_entropy io) = 32" "node_new X P g io cfg dd = Some (Inr nd, dd')"
  shows "node_wf X (cn_node nd) \<and> sched_inv (cn_scheduler nd) \<and>
       (let i = nd_id (cn_node nd)
        in dd_key dd' = Some (secret_bytes (ks_keypair (cn_keystore nd))) \<and> dd_lock dd' = Some (str_bytes ''locked'') \<and>
           i = key_store_node_id (na_ed X) (cn_keystore nd) \<and> cn_scheduler_keys nd = cn_keystore nd \<and>
           ep_id (cn_endpoint nd) = i \<and> db_owner (nd_db (cn_node nd)) = i \<and>
           dd_id dd' = Some (node_id_display (oa_hex (na_obj X)) i) \<and>
           (\<forall>kb. dd_key dd = Some kb \<longrightarrow> i = keypair_node_id (na_ed X) (NodeKeypair kb)))"
proof (rule node_new_success[OF assms(3,2)])
  fix ks db dd2 ks2
  assume s: "key_store_new (bo_keys io) (bo_entropy io) (dd_key dd) = (Inr ks, Some (secret_bytes (ks_keypair ks)))"
    "boot_database X P io cfg ks (dd\<lparr>dd_lock := Some (str_bytes ''locked''), dd_key := Some (secret_bytes (ks_keypair ks))\<rparr>) = (Inr db, dd2)"
    "ks2 = ks" "cn_keystore nd = ks" "cn_scheduler_keys nd = ks2" "nd_db (cn_node nd) = connect_events db"
    "nd_id (cn_node nd) = keypair_node_id (na_ed X) (ks_keypair ks)" "ep_id (cn_endpoint nd) = nd_id (cn_node nd)"
    "nd_tracker (cn_node nd) = tracker_new" "nd_dht (cn_node nd) = dht_new" "nd_index (cn_node nd) = coded_index_new"
    "cn_scheduler nd = system_new" "cn_config nd = cfg"
    "dd' = dd2\<lparr>dd_id := Some (node_id_display (oa_hex (na_obj X)) (nd_id (cn_node nd)))\<rparr>"
  note b = boot_database_ok[OF s(2)]
  have "store_inv (na_obj X) (vf_store (db_vfs db))"
    using b(3)[OF refl] store_new_inv[OF assms(1)] by (simp add: store_extends_def OBJ_CACHE_CAPACITY_def)
  then have "node_wf X (cn_node nd)"
    by (simp add: node_wf_def nd_store_def s connect_events_def set_event_sender_clean piece_reports.inv_start provider_index.inv_start)
  moreover have "secret_bytes (ks_keypair ks) = kb" if "dd_key dd = Some kb" for kb
    using key_store_new_key(3)[OF s(1) assms(2)] that by simp
  ultimately show ?thesis
    using b system_new_inv by (auto simp: Let_def s connect_events_def key_store_node_id_def)
qed

text \<open>Everything a start needs works.\<close>

definition boot_fine :: "boot_io \<Rightarrow> bool" where
  "boot_fine io \<longleftrightarrow> bo_mkdir_ok io \<and> bo_lock io = None \<and> bo_obj_ok io \<and> io_fine (bo_sql io) \<and> si_open_ok (bo_sql io) \<and> bo_com_ok io \<and>
     bo_key_read_ok io \<and> bo_endpoint_ok io \<and> bo_id io = None \<and> length (bo_entropy io) = 32 \<and>
     (\<forall>k \<in> {bo_keys io, bo_keys2 io}. \<not> kf_read k \<and> \<not> kf_mkdir k \<and> kf_write k = None)"

definition engine_fine :: "sql_engine \<Rightarrow> bool" where
  "engine_fine E \<longleftrightarrow> (\<forall>q f. fst (eng_query E q f) \<noteq> None \<and> (f \<noteq> [] \<longrightarrow> snd (eng_query E q f) \<noteq> [])) \<and>
     (\<forall>q f. fst (eng_execute E q f) \<and> snd (eng_execute E q f) \<noteq> [])"

lemma run_queries_fine: "engine_fine E \<Longrightarrow> \<exists>f'. run_queries E qs f = (True, f') \<and> (f \<noteq> [] \<longrightarrow> f' \<noteq> [])"
proof (induction qs arbitrary: f)
  case (Cons q qs)
  have "fst (eng_query E q f) \<noteq> None" "f \<noteq> [] \<longrightarrow> snd (eng_query E q f) \<noteq> []" using Cons.prems by (simp_all add: engine_fine_def)
  then show ?case using Cons.IH[OF Cons.prems, of "snd (eng_query E q f)"] by (cases "eng_query E q f") auto
qed simp

lemma run_statements_fine: "engine_fine E \<Longrightarrow> \<exists>f'. run_statements E (q # qs) f = (True, f') \<and> f' \<noteq> []"
proof (induction qs arbitrary: q f)
  case Nil
  then have "fst (eng_execute E q f)" "snd (eng_execute E q f) \<noteq> []" by (simp_all add: engine_fine_def)
  then show ?case by (cases "eng_execute E q f") simp
next
  case (Cons q' qs)
  then have "fst (eng_execute E q f)" by (simp add: engine_fine_def)
  then show ?case using Cons.IH[OF Cons.prems, of q' "snd (eng_execute E q f)"] by (cases "eng_execute E q f") simp
qed

lemma boot_database_fine:
  assumes "boot_fine io" "engine_fine (na_engine X)" "512 \<le> unat (cf_page_size cfg)" "unat (cf_page_size cfg) \<le> 65536" "is_power_of_two (unat (cf_page_size cfg))"
  shows "\<exists>db dd'. boot_database X P io cfg ks dd = (Inr db, dd')"
proof -
  let ?E = "na_engine X"
  obtain v where v: "vfs_new P (store_new (na_obj X) (dd_obj dd) OBJ_CACHE_CAPACITY) (unat (cf_page_size cfg)) = Inr v" "0 < vf_page_size v"
    using assms(3-5) by (simp add: vfs_new_def)
  obtain f1 where f1: "run_queries ?E [''PRAGMA page_size = 16384'', ''PRAGMA journal_mode = DELETE'', ''PRAGMA busy_timeout = 5000''] (dd_sql dd) = (True, f1)"
    using run_queries_fine[OF assms(2)] by blast
  obtain f2 where f2: "run_statements ?E [''CREATE TABLE IF NOT EXISTS _craftec_meta (key TEXT PRIMARY KEY, value TEXT)'',
      ''INSERT OR REPLACE INTO _craftec_meta VALUES ('' @ [CHR 0x27] @ ''version'' @ [CHR 0x27] @ '', '' @ [CHR 0x27] @ ''1'' @ [CHR 0x27] @ '')''] f1 = (True, f2)" "f2 \<noteq> []"
    using run_statements_fine[OF assms(2)] by blast
  obtain f3 where f3: "run_queries ?E [''PRAGMA busy_timeout = 5000''] f2 = (True, f3)" "f3 \<noteq> []"
    using run_queries_fine[OF assms(2)] f2(2) by blast
  obtain root v' where "sync_pages_to_vfs (na_obj X) (bo_sql io) f3 v = (Inr root, v')"
    using sync_succeeds[of "bo_sql io" f3 v "na_obj X"] assms(1) f3(2) v(2) by (auto simp: boot_fine_def)
  then show ?thesis
    using assms(1) by (simp only: boot_database_def database_create_def v(1) f1 f2 f3 boot_fine_def sum.case prod.case bool.case if_True not_True_eq_False if_False) blast
qed

definition config_fine :: "node_config \<Rightarrow> data_dir \<Rightarrow> bool" where
  "config_fine cfg dd \<longleftrightarrow> 512 \<le> unat (cf_page_size cfg) \<and> unat (cf_page_size cfg) \<le> 65536 \<and> is_power_of_two (unat (cf_page_size cfg)) \<and>
     (case dd_key dd of None \<Rightarrow> True | Some kb \<Rightarrow> length kb = 32)"

lemma node_new_succeeds:
  assumes "boot_fine io" "engine_fine (na_engine X)" "config_fine cfg dd"
  shows "\<exists>nd dd'. node_new X P g io cfg dd = Some (Inr nd, dd')"
proof -
  obtain ks kf where k: "key_store_new (bo_keys io) (bo_entropy io) (dd_key dd) = (Inr ks, kf)"
    using assms(1,3) by (auto simp: key_store_new_def boot_fine_def config_fine_def split: option.splits)
  have e: "length (bo_entropy io) = 32" using assms(1) by (simp add: boot_fine_def)
  note ks = k[unfolded key_store_new_key(1)[OF k e]] and len = key_store_new_key(2)[OF k e]
  obtain db dd2 where db: "boot_database X P io cfg ks (dd\<lparr>dd_lock := Some (str_bytes ''locked''), dd_key := Some (secret_bytes (ks_keypair ks))\<rparr>) = (Inr db, dd2)"
    using boot_database_fine[OF assms(1,2)] assms(3) unfolding config_fine_def by blast
  have key: "dd_key dd2 = Some (secret_bytes (ks_keypair ks))" using boot_database_ok(1)[OF db] by simp
  have again: "key_store_new (bo_keys2 io) (bo_entropy io) (Some (secret_bytes (ks_keypair ks))) = (Inr ks, Some (secret_bytes (ks_keypair ks)))"
    using len assms(1) by (cases ks) (auto simp: key_store_new_def boot_fine_def)
  have "bo_mkdir_ok io" "bo_lock io = None" "bo_com_ok io" "bo_key_read_ok io" "bo_endpoint_ok io" "bo_id io = None"
    using assms(1) by (simp_all add: boot_fine_def)
  then show ?thesis by (simp add: node_new_def Let_def ks db boot_endpoint_def key len again)
qed

lemma node_new_error:
  fixes r :: "(('b, 'c, 'p, 'g, 'k) craftec_node, boot_error) result"
  assumes "node_new X P g io cfg dd = Some (r, dd')" "r = Inl e"
  shows "\<not> (boot_fine io \<and> engine_fine (na_engine X) \<and> config_fine cfg dd)"
proof
  assume f: "boot_fine io \<and> engine_fine (na_engine X) \<and> config_fine cfg dd"
  have "\<exists>(nd :: ('b, 'c, 'p, 'g, 'k) craftec_node) dd''. node_new X P g io cfg dd = Some (Inr nd, dd'')"
    by (rule node_new_succeeds) (simp_all add: f)
  then show False using assms by auto
qed

text \<open>The files of the store are intact: each is named for its contents.\<close>

definition files_intact :: "('b, 'c) obj_api \<Rightarrow> fs \<Rightarrow> bool" where
  "files_intact A fs \<longleftrightarrow> (\<forall>c d. cid_wf c \<and> fs_lookup fs (shard_path (oa_hex A) c) = Some d \<longrightarrow> cid_from_data (oa_b3 A) d = c)"

lemma store_new_intact: "obj_api_ok A \<Longrightarrow> 0 < n \<Longrightarrow> files_intact A fs \<Longrightarrow> store_clean A (store_new A fs n)"
  using store_new_inv[of A n fs]
  by (auto simp: store_clean_def obj_lookup_def store_new_def files_intact_def obj_api_ok_def lru_ok_def split: if_splits)

lemma obj_lookup_listed: "store_inv A s \<Longrightarrow> obj_lookup A s c \<noteq> None \<Longrightarrow> c \<in> set (list_cids A s)"
  using walk_shards_complete[of "oa_hex A" c "st_fs s"] store_inv_api(3)[of A s]
  by (auto simp: obj_lookup_def list_cids_def split: if_splits)

lemma announce_batches_prefix:
  assumes "0 < STORAGE_BOOTSTRAP_BATCH_SIZE" "n = i * STORAGE_BOOTSTRAP_BATCH_SIZE + length xs"
  shows "\<exists>m. announce_batches stop n i (chunks STORAGE_BOOTSTRAP_BATCH_SIZE xs) = take m xs \<and>
    (m = length xs \<or> (\<exists>j \<ge> i. stop j \<and> m = (j + 1 - i) * STORAGE_BOOTSTRAP_BATCH_SIZE \<and> m < length xs))"
  using assms(2)
proof (induction "STORAGE_BOOTSTRAP_BATCH_SIZE" xs arbitrary: i rule: chunks.induct)
  case (1 xs)
  let ?b = STORAGE_BOOTSTRAP_BATCH_SIZE
  show ?case
  proof (cases "xs = []")
    case False
    have c: "chunks ?b xs = take ?b xs # chunks ?b (drop ?b xs)" using False assms(1) by (simp add: chunks.simps[of ?b xs])
    show ?thesis
    proof (cases "(i + 1) * ?b < n \<and> stop i")
      case True
      then have "announce_batches stop n i (chunks ?b xs) = take ?b xs" by (simp add: c)
      moreover have "?b < length xs" using True 1(2) by simp
      ultimately show ?thesis using True by (intro exI[of _ ?b]) auto
    next
      case stop: False
      have e: "announce_batches stop n i (chunks ?b xs) = take ?b xs @ announce_batches stop n (i + 1) (chunks ?b (drop ?b xs))"
        using stop by (auto simp: c)
      show ?thesis
      proof (cases "length xs \<le> ?b")
        case True
        then show ?thesis unfolding e by (intro exI[of _ "length xs"]) (simp add: chunks.simps[of ?b "[]"])
      next
        case long: False
        then have n: "n = (i + 1) * ?b + length (drop ?b xs)" using 1(2) by simp
        have ne: "\<not> (xs = [] \<or> ?b = 0)" using False assms(1) by simp
        obtain m where m: "announce_batches stop n (i + 1) (chunks ?b (drop ?b xs)) = take m (drop ?b xs)"
          "m = length (drop ?b xs) \<or> (\<exists>j \<ge> i + 1. stop j \<and> m = (j + 1 - (i + 1)) * ?b \<and> m < length (drop ?b xs))"
          using 1(1)[OF ne n] by blast
        have "take ?b xs @ take m (drop ?b xs) = take (?b + m) xs" by (rule take_add[symmetric])
        moreover have "?b + m = length xs \<or> (\<exists>j \<ge> i. stop j \<and> ?b + m = (j + 1 - i) * ?b \<and> ?b + m < length xs)"
          using m(2)
        proof (elim disjE exE conjE)
          fix j assume j: "i + 1 \<le> j" "stop j" "m = (j + 1 - (i + 1)) * ?b" "m < length (drop ?b xs)"
          then have "?b + m = (j + 1 - i) * ?b" "?b + m < length xs" by (simp_all add: Suc_diff_le)
          then show ?thesis using j(1,2) by (intro disjI2 exI[of _ j]) simp
        qed (use long in simp)
        ultimately show ?thesis unfolding e m(1) by (intro exI[of _ "?b + m"]) simp
      qed
    qed
  qed (simp add: chunks.simps[of ?b "[]"])
qed

section \<open>Properties\<close>


text \<open>
  C21. A restart keeps the objects and forgets what was known about them.  When the files are intact,
  every object of the data directory can be read from the started node and is listed for the first
  announcements, whatever the start of the database stores; but no coded pieces are known for it and
  no holder, not even the node itself.
\<close>

theorem restart_keeps_objects:
  assumes "obj_api_ok (na_obj X)" "length (bo_entropy io) = 32" "files_intact (na_obj X) (dd_obj dd)"
    and "node_new X P g io cfg dd = Some (Inr nd, dd')" "cid_wf c" "fs_lookup (dd_obj dd) (shard_path (oa_hex (na_obj X)) c) = Some d"
  shows "(\<exists>d'. fst (get (na_obj X) no_faults (nd_store (cn_node nd)) c) = Inr (Some d') \<and> cid_from_data (oa_b3 (na_obj X)) d' = c) \<and>
    c \<in> set (list_cids (na_obj X) (nd_store (cn_node nd))) \<and> files_intact (na_obj X) (dd_obj dd') \<and>
    coded_index_get (nd_index (cn_node nd)) c = None \<and> holder_nodes (nd_tracker (cn_node nd)) c = []"
proof -
  let ?A = "na_obj X"
  obtain ks db dd2 where s: "boot_database X P io cfg ks (dd\<lparr>dd_lock := Some (str_bytes ''locked''), dd_key := Some (secret_bytes (ks_keypair ks))\<rparr>) = (Inr db, dd2)"
      "nd_db (cn_node nd) = connect_events db" "nd_tracker (cn_node nd) = tracker_new" "nd_index (cn_node nd) = coded_index_new"
      "dd' = dd2\<lparr>dd_id := Some (node_id_display (oa_hex ?A) (nd_id (cn_node nd)))\<rparr>"
    by (rule node_new_success[OF assms(4,2)])
  note b = boot_database_ok(3)[OF s(1) refl]
  have st: "nd_store (cn_node nd) = set_event_sender (vf_store (db_vfs db))" by (simp add: nd_store_def s(2) connect_events_def)
  have old: "store_clean ?A (store_new ?A (dd_obj dd) OBJ_CACHE_CAPACITY)" by (rule store_new_intact[OF assms(1) _ assms(3)]) (simp add: OBJ_CACHE_CAPACITY_def)
  have "obj_lookup ?A (store_new ?A (dd_obj dd) OBJ_CACHE_CAPACITY) c = Some d" using assms(5,6) by (simp add: obj_lookup_def store_new_def)
  then have new: "store_clean ?A (vf_store (db_vfs db))" "obj_lookup ?A (vf_store (db_vfs db)) c \<noteq> None"
    using b old by (auto simp: store_extends_def)
  have cl: "store_clean ?A (nd_store (cn_node nd))" "obj_lookup ?A (nd_store (cn_node nd)) c \<noteq> None"
    unfolding st set_event_sender_clean by (rule new)+
  have "fst (get ?A no_faults (nd_store (cn_node nd)) c) = Inr (obj_lookup ?A (nd_store (cn_node nd)) c)"
    by (rule get_clean(2)[OF cl(1)]) (simp_all add: no_faults_def assms(5))
  moreover have "cid_from_data (oa_b3 ?A) d' = c" if "obj_lookup ?A (nd_store (cn_node nd)) c = Some d'" for d'
    by (rule store_cleanD(2)[OF cl(1) that])
  moreover have "c \<in> set (list_cids ?A (nd_store (cn_node nd)))" by (rule obj_lookup_listed[OF store_cleanD(1)[OF cl(1)] cl(2)])
  moreover have "files_intact ?A (dd_obj dd')"
    using store_cleanD(2)[OF new(1)] b by (simp add: files_intact_def obj_lookup_def s(5))
  ultimately show ?thesis using cl(2)
    by (auto simp: s coded_index_new_def coded_index_get_def holder_nodes_def tracker_new_def)
qed

text \<open>
  The first announcements go through the stored objects in order, each once.  When no shutdown
  comes they reach all of them; a shutdown during the sleep after some batch leaves exactly the batches
  up to it.
\<close>

theorem storage_bootstrap_order:
  "announce_batches (\<lambda>_. False) (length cids) 0 (chunks STORAGE_BOOTSTRAP_BATCH_SIZE cids) = cids \<and>
   (\<exists>m. announce_batches stop (length cids) 0 (chunks STORAGE_BOOTSTRAP_BATCH_SIZE cids) = take m cids \<and>
     (m = length cids \<or> (\<exists>j. stop j \<and> m = (j + 1) * 100)))"
  using announce_batches_prefix[of "length cids" 0 cids "\<lambda>_. False"] announce_batches_prefix[of "length cids" 0 cids stop]
  by (auto simp: STORAGE_BOOTSTRAP_BATCH_SIZE_def)

section \<open>A start\<close>

definition demo_boot :: boot_io where
  "demo_boot = (let k = \<lparr>kf_read = False, kf_mkdir = False, kf_write = None\<rparr>
    in \<lparr>bo_mkdir_ok = True, bo_lock = None, bo_keys = k, bo_entropy = replicate 32 5, bo_obj_ok = True, bo_sql = demo_io, bo_com_ok = True,
        bo_key_read_ok = True, bo_endpoint_ok = True, bo_wall = 0, bo_id = None, bo_keys2 = k\<rparr>)"

definition demo_dir :: data_dir where
  "demo_dir = \<lparr>dd_lock = None, dd_key = None, dd_id = None,
     dd_obj = [(shard_path (oa_hex demo_api) (Cid (sum_hash [7])), [7])], dd_sql = []\<rparr>"

lemma demo_boot_fine: "boot_fine demo_boot" "engine_fine (na_engine demo_node_api)" "config_fine config_default demo_dir"
proof -
  have "io_fine demo_io" by (simp add: io_fine_def demo_io_def no_faults_def)
  then show "boot_fine demo_boot" by (simp add: boot_fine_def demo_boot_def Let_def) (simp add: demo_io_def)
  show "engine_fine (na_engine demo_node_api)" by (simp add: engine_fine_def demo_node_api_def demo_engine_def)
  have "is_power_of_two 16384" by (simp add: is_power_of_two_def image_iff) (rule bexI[of _ 14]; simp)
  then show "config_fine config_default demo_dir" by (simp add: config_fine_def config_default_def demo_dir_def)
qed

lemma demo_boot_succeeds:
  "\<exists>nd dd'. node_new demo_node_api demo_lru () demo_boot config_default demo_dir = Some (Inr nd, dd')"
  by (rule node_new_succeeds[OF demo_boot_fine])

lemma demo_boot_api: "na_obj demo_node_api = demo_api" "length (bo_entropy demo_boot) = 32"
  by (simp_all add: demo_node_api_def demo_boot_def Let_def)


theorem restart_keeps_objects_witness:
  "\<exists>(nd :: (bytes list, cid \<Rightarrow> bytes option, cid \<times> u32 \<Rightarrow> bytes option, unit, nat) craftec_node) dd' d'.
     node_new demo_node_api demo_lru () demo_boot config_default demo_dir = Some (Inr nd, dd') \<and>
     fst (get demo_api no_faults (nd_store (cn_node nd)) (Cid (sum_hash [7]))) = Inr (Some d') \<and>
     Cid (sum_hash [7]) \<in> set (list_cids demo_api (nd_store (cn_node nd)))"
proof -
  let ?c = "Cid (sum_hash [7])"
  obtain nd :: "(bytes list, cid \<Rightarrow> bytes option, cid \<times> u32 \<Rightarrow> bytes option, unit, nat) craftec_node" and dd'
    where n: "node_new demo_node_api demo_lru () demo_boot config_default demo_dir = Some (Inr nd, dd')"
    using demo_boot_succeeds by blast
  have a: "obj_api_ok (na_obj demo_node_api)" by (simp add: demo_boot_api demo_api_ok)
  have h: "hex_api_ok (oa_hex demo_api)" using demo_api_ok by (simp add: obj_api_ok_def)
  have f: "files_intact (na_obj demo_node_api) (dd_obj demo_dir)"
    using h by (auto simp: files_intact_def demo_boot_api demo_dir_def fs_lookup_def split: if_splits)
  have w: "cid_wf ?c" by (simp add: cid_wf_def CID_SIZE_def sum_hash_def)
  have l: "fs_lookup (dd_obj demo_dir) (shard_path (oa_hex (na_obj demo_node_api)) ?c) = Some [7]"
    by (simp add: demo_dir_def demo_boot_api fs_lookup_def)
  show ?thesis using restart_keeps_objects[OF a demo_boot_api(2) f n w l] n by (auto simp: demo_boot_api)
qed

end
