(* ===== verification/Cli.thy ===== *)
theory Cli
  imports Startup
begin

text \<open>
  The command line client (craftec-node/src/cli.rs): finding the local node, turning arguments into a
  request, exchanging it over an RPC stream, and printing the response.  The connection, JSON and the
  serializer are parameters; texts of errors are abbreviated.
\<close>

section \<open>Finding the node\<close>

definition cli_data_dir :: "json_api \<Rightarrow> env \<Rightarrow> string option \<Rightarrow> string" where
  "cli_data_dir J env f =
     (case env ''CRAFTEC_DATA_DIR'' of
        Some d \<Rightarrow> d
      | None \<Rightarrow> (case Option.bind f (js_data_dir J) of Some d \<Rightarrow> d | None \<Rightarrow> ''./data''))"

definition cli_listen_port :: "env \<Rightarrow> u16" where
  "cli_listen_port env =
     (case Option.bind (env ''CRAFTEC_LISTEN_PORT'') (parse_uint (2 ^ 16)) of Some p \<Rightarrow> of_nat p | None \<Rightarrow> 4433)"

definition read_node_id :: "hex_api \<Rightarrow> data_dir \<Rightarrow> (bytes, string) result" where
  "read_node_id H dd =
     (case dd_id dd of
        None \<Rightarrow> Inl ''failed to read node.id''
      | Some t \<Rightarrow>
          (case hex_decode H (trim t) of
             None \<Rightarrow> Inl ''invalid hex in node.id''
           | Some bs \<Rightarrow> if length bs \<noteq> 32 then Inl ''node.id must contain 32 bytes'' else Inr bs))"

definition load_keypair :: "data_dir \<Rightarrow> (node_keypair, string) result" where
  "load_keypair dd =
     (case dd_key dd of
        None \<Rightarrow> Inl ''failed to read node.key''
      | Some bs \<Rightarrow> if length bs \<noteq> 32 then Inl ''node.key must be 32 bytes'' else Inr (NodeKeypair bs))"

section \<open>Requests\<close>

definition cid_argument :: "hex_api \<Rightarrow> string list \<Rightarrow> nat \<Rightarrow> (cid, string) result" where
  "cid_argument H args i =
     (if i < length args then (case cid_from_str H (args ! i) of Inl e \<Rightarrow> Inl ''invalid CID'' | Inr c \<Rightarrow> Inr c) else Inl ''usage'')"

definition store_request :: "hex_api \<Rightarrow> bytes option \<Rightarrow> string list \<Rightarrow> (rpc_request, string) result" where
  "store_request H stdin args =
     (if length args < 2 then Inl ''usage''
      else if args ! 1 = ''put'' then (case stdin of None \<Rightarrow> Inl ''failed to read stdin'' | Some d \<Rightarrow> Inr (ReqStorePut d))
      else if args ! 1 = ''get'' then (case cid_argument H args 2 of Inl e \<Rightarrow> Inl e | Inr c \<Rightarrow> Inr (ReqStoreGet c))
      else if args ! 1 = ''list'' then Inr ReqStoreList
      else Inl ''usage'')"

definition cli_request :: "hex_api \<Rightarrow> ed25519 \<Rightarrow> bytes option \<Rightarrow> data_dir \<Rightarrow> string list \<Rightarrow> (rpc_request, string) result" where
  "cli_request H ed stdin dd args =
     (if args = [] then Inl ''usage''
      else if hd args = ''status'' then Inr ReqStatus
      else if hd args = ''store'' then store_request H stdin args
      else if hd args = ''query'' then (if 1 < length args then Inr (ReqSqlQuery (args ! 1)) else Inl ''usage'')
      else if hd args = ''execute'' then
        (if 1 < length args
         then (case load_keypair dd of
                 Inl e \<Rightarrow> Inl e
               | Inr kp \<Rightarrow> Inr (ReqSqlExecute (args ! 1) (keypair_node_id ed kp) (keypair_sign ed kp (str_bytes (args ! 1)))))
         else Inl ''usage'')
      else if hd args = ''peers'' then Inr ReqPeers
      else if hd args = ''pieces'' then (case cid_argument H args 1 of Inl e \<Rightarrow> Inl e | Inr c \<Rightarrow> Inr (ReqPieceInfo c))
      else Inl ''usage'')"

section \<open>The exchange\<close>

definition MAX_RPC_BYTES :: nat where "MAX_RPC_BYTES = 4 * 1024 * 1024"

text \<open>
  The network carries the bytes of a request to the node with a public key at a local port, and
  brings back those of the response; \<open>None\<close> is any failure or the timeout.
\<close>

type_synonym 's network = "bytes \<Rightarrow> u16 \<Rightarrow> bytes \<Rightarrow> 's \<Rightarrow> bytes option \<times> 's"

definition send_rpc ::
  "rpc_request postcard \<Rightarrow> rpc_response postcard \<Rightarrow> 's network \<Rightarrow> bytes \<Rightarrow> u16 \<Rightarrow> rpc_request \<Rightarrow> 's \<Rightarrow> (rpc_response, string) result \<times> 's" where
  "send_rpc Q R net nid port req st =
     (case encode_rpc_request Q req 0 of
        Inl e \<Rightarrow> (Inl ''encode'', st)
      | Inr b \<Rightarrow>
          (case net nid port b st of
             (None, st') \<Rightarrow> (Inl ''failed'', st')
           | (Some out, st') \<Rightarrow>
               (if length out > MAX_RPC_BYTES then (Inl ''failed to read RPC response'', st')
                else case decode_rpc_response R out of
                       Some (Inr (resp, ts)) \<Rightarrow> (Inr resp, st')
                     | _ \<Rightarrow> (Inl ''decode'', st'))))"

section \<open>Output\<close>

text \<open>\<open>JInt\<close> carries the 64 bits of a signed integer.\<close>

datatype json = JNull | JInt u64 | JNum u64 | JReal u64 | JStr string | JArr "json list" | JObj "(string \<times> json) list"

fun json_of_value :: "hex_api \<Rightarrow> rpc_value \<Rightarrow> json" where
  "json_of_value H RvNull = JNull"
| "json_of_value H (RvInteger i) = JInt i"
| "json_of_value H (RvReal r) = JReal r"
| "json_of_value H (RvText s) = JStr s"
| "json_of_value H (RvBlob b) = JStr (hex_encode H b)"

datatype cli_output = OutLines "string list" | OutBytes bytes | OutJson json | ExitNotFound | ExitError u32 string

fun print_response :: "hex_api \<Rightarrow> rpc_response \<Rightarrow> cli_output" where
  "print_response H (RespStatus n alive objects db_root uptime) =
     OutJson (JObj [(''node_id'', JStr (node_id_display H n)), (''alive_peers'', JNum alive), (''store_objects'', JNum objects),
       (''db_root_cid'', JStr (cid_display H db_root)), (''uptime_secs'', JNum uptime)])"
| "print_response H (RespStorePut c) = OutLines [cid_display H c]"
| "print_response H (RespStoreGet r) = (case r of Some d \<Rightarrow> OutBytes d | None \<Rightarrow> ExitNotFound)"
| "print_response H (RespStoreList cs) = OutLines (map (cid_display H) cs)"
| "print_response H (RespSqlQuery rows) = OutJson (JArr (map (\<lambda>row. JArr (map (json_of_value H) row)) rows))"
| "print_response H (RespSqlExecute db_root) = OutLines [cid_display H db_root]"
| "print_response H (RespPeers peers n) =
     OutJson (JObj [(''count'', JNum n), (''peers'', JArr (map (\<lambda>p. JStr (node_id_display H p)) peers))])"
| "print_response H (RespPieceInfo c available k holders) =
     OutJson (JObj [(''cid'', JStr (cid_display H c)), (''available'', JNum (ucast available)),
       (''k'', case k of None \<Rightarrow> JNull | Some x \<Rightarrow> JNum (ucast x)), (''holders'', JArr (map (\<lambda>p. JStr (node_id_display H p)) holders))])"
| "print_response H (RespError code message) = ExitError code message"

record cli_api =
  ca_json :: json_api
  ca_hex :: hex_api
  ca_ed :: ed25519
  ca_req :: "rpc_request postcard"
  ca_resp :: "rpc_response postcard"

text \<open>What a call of the client sees: the environment, the configuration file, the data directories and the input.\<close>

record cli_world =
  cw_env :: env
  cw_config :: "string option"
  cw_dirs :: "string \<Rightarrow> data_dir"
  cw_stdin :: "bytes option"

definition run_cli :: "cli_api \<Rightarrow> 's network \<Rightarrow> cli_world \<Rightarrow> string list \<Rightarrow> 's \<Rightarrow> (cli_output, string) result \<times> 's" where
  "run_cli C net w args st =
     (let dd = cw_dirs w (cli_data_dir (ca_json C) (cw_env w) (cw_config w)); port = cli_listen_port (cw_env w)
      in case read_node_id (ca_hex C) dd of
           Inl e \<Rightarrow> (Inl e, st)
         | Inr nid \<Rightarrow>
             (case cli_request (ca_hex C) (ca_ed C) (cw_stdin w) dd args of
                Inl e \<Rightarrow> (Inl e, st)
              | Inr req \<Rightarrow>
                  (case send_rpc (ca_req C) (ca_resp C) net nid port req st of
                     (Inl e, st') \<Rightarrow> (Inl e, st')
                   | (Inr resp, st') \<Rightarrow> (Inr (print_response (ca_hex C) resp), st'))))"

text \<open>The node at the other end: it serves the stream when its key and port are meant and the request is not too long.\<close>

definition node_network ::
  "rpc_request postcard \<Rightarrow> rpc_response postcard \<Rightarrow> ('b, 'c, 'g) node_api \<Rightarrow> node_io \<Rightarrow> node_id \<Rightarrow> u16 \<Rightarrow> stream_event \<Rightarrow>
     ('b, 'c, 'p, 'g) node conn_state network" where
  "node_network Q R X io remote port ev = (\<lambda>nid p b st.
     if NodeId nid = nd_id (cs_app st) \<and> p = port \<and> length b \<le> MAX_RPC_BYTES
     then rpc_serve Q R (handle_request X io) remote (ev\<lparr>se_read := StreamBytes b\<rparr>) st
     else (None, st))"

section \<open>One exchange\<close>

text \<open>A message fits when its serialization, with the header of the frame, is within the limit of a stream.\<close>

definition fits :: "'m postcard \<Rightarrow> 'm \<Rightarrow> bool" where
  "fits P m \<longleftrightarrow> (\<exists>p. pc_encode P m = Some p \<and> length p + FRAME_HEADER_SIZE \<le> MAX_RPC_BYTES)"

lemma fits_frame:
  assumes "postcard_ok P" "fits P m"
  shows "\<exists>p. pc_encode P m = Some p \<and> length (frame tag ts p) \<le> MAX_RPC_BYTES \<and> decode_rpc tag P (frame tag ts p) = Some (Inr (m, ts))"
proof -
  obtain p where p: "pc_encode P m = Some p" "length p + FRAME_HEADER_SIZE \<le> MAX_RPC_BYTES" using assms(2) by (auto simp: fits_def)
  then have l: "length p < 2 ^ 32" by (simp add: MAX_RPC_BYTES_def)
  have "length (frame tag ts p) = length p + FRAME_HEADER_SIZE" using frame_parts(1)[of tag ts p] by simp
  then show ?thesis using p decode_rpc_frame[OF assms(1) p(1) l, of tag ts "[]"] by auto
qed

text \<open>The client gets the answer of the handler, and the node is in the state the handler leaves.\<close>

lemma send_rpc_node:
  assumes "postcard_ok Q" "postcard_ok R" "fits Q req" "NodeId nid = nd_id (cs_app st)"
    and "handle_request X io remote req (cs_app st) = (resp, nd')" "fits R resp"
  shows "\<exists>st'. send_rpc Q R (node_network Q R X io remote port ev) nid port req st = (Inr resp, st') \<and> cs_app st' = nd'"
proof -
  obtain p where p: "pc_encode Q req = Some p" "length (frame TYPE_TAG_RPC_REQUEST 0 p) \<le> MAX_RPC_BYTES"
    "decode_rpc TYPE_TAG_RPC_REQUEST Q (frame TYPE_TAG_RPC_REQUEST 0 p) = Some (Inr (req, 0))"
    using fits_frame[OF assms(1,3), of TYPE_TAG_RPC_REQUEST 0] by blast
  let ?ts = "now_ts (cs_hlc st) (se_reply_wall ev)"
  obtain q where q: "pc_encode R resp = Some q" "length (frame TYPE_TAG_RPC_RESPONSE ?ts q) \<le> MAX_RPC_BYTES"
    "decode_rpc TYPE_TAG_RPC_RESPONSE R (frame TYPE_TAG_RPC_RESPONSE ?ts q) = Some (Inr (resp, ?ts))"
    using fits_frame[OF assms(2,6), of TYPE_TAG_RPC_RESPONSE ?ts] by blast
  show ?thesis using p q assms(4,5)
    by (simp add: send_rpc_def node_network_def rpc_serve_def encode_rpc_request_def encode_rpc_response_def decode_rpc_request_def
        decode_rpc_response_def Let_def)
qed

lemma trim_plain: "\<forall>c \<in> set s. \<not> is_space c \<Longrightarrow> trim s = s"
proof -
  assume p: "\<forall>c \<in> set s. \<not> is_space c"
  have d: "dropWhile is_space xs = xs" if "\<forall>c \<in> set xs. \<not> is_space c" for xs
    using that by (cases xs) simp_all
  show ?thesis using p by (simp add: trim_def d)
qed

text \<open>\<open>hex::encode\<close> prints no white space.\<close>

definition hex_plain :: "hex_api \<Rightarrow> bool" where
  "hex_plain H \<longleftrightarrow> (\<forall>x. \<forall>c \<in> set (hex_encode H x). \<not> is_space c)"

lemma read_node_id_display:
  "hex_ok H \<Longrightarrow> hex_plain H \<Longrightarrow> length (node_id_bytes n) = 32 \<Longrightarrow> dd_id dd = Some (node_id_display H n) \<Longrightarrow>
   read_node_id H dd = Inr (node_id_bytes n)"
  by (simp add: read_node_id_def node_id_display_def hex_plain_def trim_plain hex_ok_def)

section \<open>Properties\<close>

text \<open>
  The client and the node find each other through the same configuration.  With the environment
  and the configuration file of a node that starts, the client uses its data directory.  It uses its
  port only when the environment names one or the file has the default: a port that only the
  configuration file sets is not seen by the client.
\<close>

theorem cli_node_agreement:
  assumes "json_ok J" "node_configuration J io env f = (Inr cfg, f')"
  shows "cli_data_dir J env f' = cf_data_dir cfg \<and>
    (\<exists>t c. f' = Some t \<and> js_parse J t = Inr c \<and> cfg = apply_env_overrides env c \<and>
      (cli_listen_port env = cf_listen_port cfg \<longleftrightarrow>
         Option.bind (env ''CRAFTEC_LISTEN_PORT'') (parse_uint (2 ^ 16)) \<noteq> None \<or> cf_listen_port c = 4433))"
proof -
  have "\<exists>t c. f' = Some t \<and> js_parse J t = Inr c \<and> cfg = apply_env_overrides env c"
    using assms by (auto simp: node_configuration_def load_or_create_config_def config_load_def config_save_def json_ok_def
        split: option.splits sum.splits if_splits)
  then obtain t c where f: "f' = Some t" "js_parse J t = Inr c" "cfg = apply_env_overrides env c" by blast
  have "js_data_dir J t = Some (cf_data_dir c)" using assms(1) f(2) by (simp add: json_ok_def)
  moreover have "cf_data_dir cfg = (case env ''CRAFTEC_DATA_DIR'' of None \<Rightarrow> cf_data_dir c | Some d \<Rightarrow> d)"
    by (simp add: f(3) apply_env_overrides_def Let_def split: option.splits)
  moreover have p: "cf_listen_port cfg =
      (case Option.bind (env ''CRAFTEC_LISTEN_PORT'') (parse_uint (2 ^ 16)) of None \<Rightarrow> cf_listen_port c | Some p \<Rightarrow> of_nat p)"
    by (simp add: f(3) apply_env_overrides_def Let_def split: option.splits)
  ultimately show ?thesis using f by (auto simp: cli_data_dir_def cli_listen_port_def split: option.splits)
qed

text \<open>
  C18. What the client stores it gets back.  When the disk of the node works and the messages fit in a
  stream, \<open>store put\<close> prints an identifier, and \<open>store get\<close> with it writes exactly the stored bytes: through
  the parsing of arguments, both serializations, the framing, the handler and the object store.
\<close>

theorem cli_store_roundtrip:
  assumes "postcard_ok (ca_req C)" "postcard_ok (ca_resp C)" "hex_ok (ca_hex C)"
    and "read_node_id (ca_hex C) (cw_dirs w (cli_data_dir (ca_json C) (cw_env w) (cw_config w))) = Inr (node_id_bytes (nd_id (cs_app st)))"
    and "store_clean (na_obj X) (nd_store (cs_app st))" "cw_stdin w = Some d" "c = cid_from_data (oa_b3 (na_obj X)) d"
    and "flt_write (ni_put io) = None" "flt_rename (ni_put io) = None" "flt_read (ni_get io c) = None"
    and "obj_lookup (na_obj X) (nd_store (cs_app st)) c \<in> {None, Some d}"
    and "fits (ca_req C) (ReqStorePut d)" "fits (ca_resp C) (RespStorePut c)" "fits (ca_req C) (ReqStoreGet c)" "fits (ca_resp C) (RespStoreGet (Some d))"
    and "net = node_network (ca_req C) (ca_resp C) X io remote (cli_listen_port (cw_env w)) ev"
  shows "\<exists>st1 st2. run_cli C net w [''store'', ''put''] st = (Inr (OutLines [cid_display (ca_hex C) c]), st1) \<and>
    run_cli C net w [''store'', ''get'', cid_display (ca_hex C) c] st1 = (Inr (OutBytes d), st2)"
proof -
  let ?A = "na_obj X" and ?nid = "node_id_bytes (nd_id (cs_app st))" and ?port = "cli_listen_port (cw_env w)"
  obtain s where s: "put ?A (ni_put io) (nd_store (cs_app st)) d = (Inr c, s)"
    using put_succeeds[OF assms(8,9), of ?A "nd_store (cs_app st)" d] assms(7) by (cases "put ?A (ni_put io) (nd_store (cs_app st)) d") simp
  note pc = put_clean[OF assms(5), where flt = "ni_put io" and d = d, unfolded s snd_conv fst_conv]
  have wf: "cid_wf c" unfolding assms(7) by (rule cid_from_data_wf[OF store_inv_api(4)[OF store_cleanD(1)[OF assms(5)]]])
  have look: "obj_lookup ?A s c = Some d" using pc(2)[of c] pc(5) assms(7,11) by auto
  obtain st1 where st1: "send_rpc (ca_req C) (ca_resp C) net ?nid ?port (ReqStorePut d) st = (Inr (RespStorePut c), st1)"
      "cs_app st1 = set_store s (cs_app st)"
    using send_rpc_node[OF assms(1,2,12), of ?nid st X io remote "RespStorePut c" "set_store s (cs_app st)" ?port ev] assms(13,16) s by auto
  have id1: "NodeId ?nid = nd_id (cs_app st1)" and store1: "nd_store (cs_app st1) = s"
    by (simp_all add: st1(2) set_store_def nd_store_def)
  obtain s' where s': "get ?A (ni_get io c) s c = (Inr (Some d), s')"
    using get_clean(2)[OF pc(1) _ assms(10) wf] assms(10) look by (cases "get ?A (ni_get io c) s c") simp
  obtain st2 where st2: "send_rpc (ca_req C) (ca_resp C) net ?nid ?port (ReqStoreGet c) st1 = (Inr (RespStoreGet (Some d)), st2)"
    using send_rpc_node[OF assms(1,2,14) id1, of X io remote "RespStoreGet (Some d)" "set_store s' (cs_app st1)" ?port ev] assms(15,16) s' store1 by auto
  have "cid_from_str (ca_hex C) (cid_display (ca_hex C) c) = Inr c" using cid_display_from_str[OF assms(3)] wf by simp
  then have "cli_request (ca_hex C) (ca_ed C) (cw_stdin w) dd [''store'', ''get'', cid_display (ca_hex C) c] = Inr (ReqStoreGet c)" for dd
    by (simp add: cli_request_def store_request_def cid_argument_def)
  moreover have "cli_request (ca_hex C) (ca_ed C) (cw_stdin w) dd [''store'', ''put''] = Inr (ReqStorePut d)" for dd
    using assms(6) by (simp add: cli_request_def store_request_def)
  ultimately show ?thesis using assms(4) st1(1) st2 by (simp add: run_cli_def Let_def)
qed

text \<open>
  C19. The client of a node may write its database.  In the data directory of a node that has started, the
  client finds the identity of the node, and its \<open>execute\<close> is a request that this node accepts as
  authorized, whatever has happened to the node since.  A client with the key of another identity is
  refused and changes nothing.
\<close>

theorem cli_execute_authorized:
  assumes "obj_api_ok (na_obj X)" "ed25519_ok (na_ed X)" "hex_plain (oa_hex (na_obj X))" "length (bo_entropy io) = 32"
    and "node_new X P g io cfg dd = Some (Inr nd, dd')" "(node_change X)\<^sup>*\<^sup>* (cn_node nd) nd1"
  shows "read_node_id (oa_hex (na_obj X)) dd' = Inr (node_id_bytes (nd_id nd1)) \<and>
    (\<exists>sig. cli_request (oa_hex (na_obj X)) (na_ed X) stdin dd' [''execute'', sql] = Inr (ReqSqlExecute sql (nd_id nd1) sig) \<and>
      (\<forall>msg. fst (handle_request X nio remote (ReqSqlExecute sql (nd_id nd1) sig) nd1) \<noteq> RespError 403 msg)) \<and>
    (\<forall>kp sig. keypair_node_id (na_ed X) kp \<noteq> nd_id nd1 \<longrightarrow>
      handle_request X nio remote (ReqSqlExecute sql (keypair_node_id (na_ed X) kp) sig) nd1 = (RespError 403 ''not the database owner'', nd1))"
proof -
  note i = node_new_identity[OF assms(1,4,5), unfolded Let_def]
  have keep: "nd_id nd1 = nd_id (cn_node nd)" using node_changes_wf[OF assms(6)] i by (simp add: node_keeps_def)
  have hx: "hex_ok (oa_hex (na_obj X))" using assms(1) by (simp add: obj_api_ok_def hex_api_ok_def)
  let ?kb = "secret_bytes (ks_keypair (cn_keystore nd))"
  have id: "nd_id nd1 = keypair_node_id (na_ed X) (NodeKeypair ?kb)" using i keep by (simp add: key_store_node_id_def)
  have "length (node_id_bytes (nd_id nd1)) = 32" using assms(2) by (simp add: id keypair_node_id_def ed25519_ok_def)
  then have "read_node_id (oa_hex (na_obj X)) dd' = Inr (node_id_bytes (nd_id nd1))"
    using read_node_id_display[OF hx assms(3)] i keep by simp
  moreover have "length ?kb = 32"
    by (rule node_new_success[OF assms(5,4)]) (use key_store_new_key(2)[OF _ assms(4)] in auto)
  then have "cli_request (oa_hex (na_obj X)) (na_ed X) stdin dd' [''execute'', sql] =
      Inr (ReqSqlExecute sql (nd_id nd1) (keypair_sign (na_ed X) (NodeKeypair ?kb) (str_bytes sql)))"
    using i by (simp add: cli_request_def load_keypair_def id)
  moreover have "identity_verify (na_ed X) (str_bytes sql) (keypair_sign (na_ed X) (NodeKeypair ?kb) (str_bytes sql)) (nd_id nd1)"
    unfolding id by (rule keypair_sign_verifies[OF assms(2)])
  then have "fst (handle_request X nio remote (ReqSqlExecute sql (nd_id nd1) (keypair_sign (na_ed X) (NodeKeypair ?kb) (str_bytes sql))) nd1) \<noteq> RespError 403 msg" for msg
    by (auto split: prod.splits sum.splits)
  ultimately show ?thesis by auto
qed

section \<open>A session\<close>

definition demo_json :: json_api where
  "demo_json = \<lparr>js_print = \<lambda>_. ''d'', js_parse = \<lambda>t. if t = ''d'' then Inr config_default else Inl ''error'',
     js_data_dir = \<lambda>t. if t = ''d'' then Some ''data'' else None\<rparr>"

definition demo_cid :: cid where "demo_cid = Cid (sum_hash [7])"

definition demo_req_card :: "rpc_request postcard" where
  "demo_req_card = \<lparr>pc_encode = \<lambda>m. if m = ReqStorePut [7] then Some [1] else if m = ReqStoreGet demo_cid then Some [2] else None,
     pc_decode = \<lambda>b. if b = [1] then Some (ReqStorePut [7]) else if b = [2] then Some (ReqStoreGet demo_cid) else None\<rparr>"

definition demo_resp_card :: "rpc_response postcard" where
  "demo_resp_card = \<lparr>pc_encode = \<lambda>m. if m = RespStorePut demo_cid then Some [1] else if m = RespStoreGet (Some [7]) then Some [2] else None,
     pc_decode = \<lambda>b. if b = [1] then Some (RespStorePut demo_cid) else if b = [2] then Some (RespStoreGet (Some [7])) else None\<rparr>"

definition demo_cli :: cli_api where
  "demo_cli = \<lparr>ca_json = demo_json, ca_hex = oa_hex demo_api, ca_ed = demo_ed, ca_req = demo_req_card, ca_resp = demo_resp_card\<rparr>"

definition demo_cli_node :: "(bytes list, cid \<Rightarrow> bytes option, cid \<times> u32 \<Rightarrow> bytes option, unit) node" where
  "demo_cli_node = demo_node\<lparr>nd_id := NodeId (replicate 32 1)\<rparr>"

definition demo_world_cli :: cli_world where
  "demo_world_cli = \<lparr>cw_env = Map.empty, cw_config = Some ''d'',
     cw_dirs = \<lambda>_. demo_dir\<lparr>dd_id := Some (node_id_display (oa_hex demo_api) (NodeId (replicate 32 1)))\<rparr>, cw_stdin = Some [7]\<rparr>"

lemma demo_hex_plain: "hex_plain (oa_hex demo_api)"
proof -
  have p: "\<forall>c \<in> set ''0123456789abcdef''. \<not> is_space c" by (simp add: is_space_def)
  have "\<not> is_space (hex_digit n)" if "n < 16" for n
    unfolding hex_digit_def by (rule bspec[OF p], rule nth_mem) (use that in simp)
  moreover have "unat (b :: u8) div 16 < 16" for b using unat_lt2p[of b] by simp
  ultimately show ?thesis by (auto simp: hex_plain_def demo_api_def hex_enc_def hex2_def)
qed

lemma demo_hex_ok: "hex_ok (oa_hex demo_api)"
  using demo_api_ok by (simp add: obj_api_ok_def hex_api_ok_def)

theorem cli_node_agreement_witness:
  "node_configuration demo_json \<lparr>fi_read_ok = True, fi_write_ok = True\<rparr> Map.empty None = (Inr config_default, Some ''d'') \<and>
   cli_data_dir demo_json Map.empty (Some ''d'') = ''data''"
proof -
  have j: "json_ok demo_json" by (simp add: json_ok_def demo_json_def config_default_def)
  have n: "node_configuration demo_json \<lparr>fi_read_ok = True, fi_write_ok = True\<rparr> Map.empty None = (Inr config_default, Some ''d'')"
    by (simp add: node_configuration_def load_or_create_config_def config_save_def demo_json_def apply_env_overrides_def)
  show ?thesis using cli_node_agreement[OF j n] n by (simp add: config_default_def)
qed

definition demo_network :: "(bytes list, cid \<Rightarrow> bytes option, cid \<times> u32 \<Rightarrow> bytes option, unit) node conn_state network" where
  "demo_network = node_network demo_req_card demo_resp_card demo_node_api demo_node_io (NodeId [2]) 4433 (demo_event [])"

theorem cli_store_roundtrip_witness:
  "\<exists>st1 st2. run_cli demo_cli demo_network demo_world_cli [''store'', ''put''] (demo_conn demo_cli_node) =
       (Inr (OutLines [cid_display (oa_hex demo_api) demo_cid]), st1) \<and>
     run_cli demo_cli demo_network demo_world_cli [''store'', ''get'', cid_display (oa_hex demo_api) demo_cid] st1 = (Inr (OutBytes [7]), st2)"
proof -
  let ?st = "demo_conn demo_cli_node"
  have a: "ca_hex demo_cli = oa_hex demo_api" "ca_req demo_cli = demo_req_card" "ca_resp demo_cli = demo_resp_card" by (simp_all add: demo_cli_def)
  have st: "cs_app ?st = demo_cli_node" "nd_id demo_cli_node = NodeId (replicate 32 1)" "nd_store demo_cli_node = nd_store demo_node"
    by (simp_all add: demo_conn_def demo_cli_node_def nd_store_def)
  have p: "postcard_ok (ca_req demo_cli)" "postcard_ok (ca_resp demo_cli)"
    by (auto simp: a postcard_ok_def demo_req_card_def demo_resp_card_def split: if_splits)
  have h: "hex_ok (ca_hex demo_cli)" by (simp add: a demo_hex_ok)
  have r: "read_node_id (ca_hex demo_cli) (cw_dirs demo_world_cli (cli_data_dir (ca_json demo_cli) (cw_env demo_world_cli) (cw_config demo_world_cli))) =
      Inr (node_id_bytes (nd_id (cs_app ?st)))"
    unfolding a st by (rule read_node_id_display[OF demo_hex_ok demo_hex_plain]) (simp_all add: demo_world_cli_def)
  have c: "store_clean (na_obj demo_node_api) (nd_store (cs_app ?st))" "obj_lookup (na_obj demo_node_api) (nd_store (cs_app ?st)) demo_cid \<in> {None, Some [7]}"
    using demo_node_store_clean by (simp_all add: st demo_node_def demo_boot_api demo_cid_def)
  have f: "fits (ca_req demo_cli) (ReqStorePut [7])" "fits (ca_resp demo_cli) (RespStorePut demo_cid)" "fits (ca_req demo_cli) (ReqStoreGet demo_cid)"
      "fits (ca_resp demo_cli) (RespStoreGet (Some [7]))"
    by (simp_all add: fits_def a demo_req_card_def demo_resp_card_def MAX_RPC_BYTES_def FRAME_HEADER_SIZE_def)
  have d: "cw_stdin demo_world_cli = Some [7]" "demo_cid = cid_from_data (oa_b3 (na_obj demo_node_api)) [7]"
    by (simp_all add: demo_world_cli_def demo_cid_def demo_boot_api)
  have n: "demo_network = node_network (ca_req demo_cli) (ca_resp demo_cli) demo_node_api demo_node_io (NodeId [2])
      (cli_listen_port (cw_env demo_world_cli)) (demo_event [])"
    by (simp add: demo_network_def a cli_listen_port_def demo_world_cli_def)
  have io: "flt_write (ni_put demo_node_io) = None" "flt_rename (ni_put demo_node_io) = None" "flt_read (ni_get demo_node_io demo_cid) = None"
    by (simp_all add: demo_node_io_def no_faults_def)
  from cli_store_roundtrip[OF p h r c(1) d io c(2) f n] show ?thesis unfolding a .
qed

definition demo_ed32 :: ed25519 where
  "demo_ed32 = \<lparr>ed_public = \<lambda>sk. take 32 (sk @ replicate 32 0), ed_sign = \<lambda>sk m. m, ed_key_ok = \<lambda>_. True, ed_verify = \<lambda>_ m s. m = s\<rparr>"

theorem cli_execute_authorized_witness:
  "\<exists>(nd :: (bytes list, cid \<Rightarrow> bytes option, cid \<times> u32 \<Rightarrow> bytes option, unit, nat) craftec_node) dd' sig.
     node_new (demo_node_api\<lparr>na_ed := demo_ed32\<rparr>) demo_lru () demo_boot config_default demo_dir = Some (Inr nd, dd') \<and>
     cli_request (oa_hex demo_api) demo_ed32 None dd' [''execute'', ''a''] = Inr (ReqSqlExecute ''a'' (nd_id (cn_node nd)) sig)"
proof -
  let ?X = "demo_node_api\<lparr>na_ed := demo_ed32\<rparr>"
  have X: "na_obj ?X = demo_api" "na_ed ?X = demo_ed32" "na_engine ?X = demo_engine" by (simp_all add: demo_boot_api) (simp add: demo_node_api_def)
  have "\<exists>(nd :: (bytes list, cid \<Rightarrow> bytes option, cid \<times> u32 \<Rightarrow> bytes option, unit, nat) craftec_node) dd'.
      node_new ?X demo_lru () demo_boot config_default demo_dir = Some (Inr nd, dd')"
    by (rule node_new_succeeds) (use demo_boot_fine in \<open>simp_all add: X demo_node_api_def\<close>)
  then obtain nd :: "(bytes list, cid \<Rightarrow> bytes option, cid \<times> u32 \<Rightarrow> bytes option, unit, nat) craftec_node" and dd'
    where n: "node_new ?X demo_lru () demo_boot config_default demo_dir = Some (Inr nd, dd')" by blast
  have e: "ed25519_ok (na_ed ?X)" by (auto simp: X ed25519_ok_def demo_ed32_def min_def)
  have "obj_api_ok (na_obj ?X)" "hex_plain (oa_hex (na_obj ?X))" by (simp_all add: X demo_api_ok demo_hex_plain)
  from cli_execute_authorized[OF this(1) e this(2) demo_boot_api(2) n rtranclp.rtrancl_refl, of None "''a''"] n show ?thesis
    by (auto simp: X)
qed

end
