(* ===== verification/Running.thy ===== *)
theory Running
  imports Startup
begin

text \<open>
  The node as a whole (CraftecNode::run of craftec-node/src/node.rs): the background tasks that a started node
  runs, interleaved in any order.  The tasks share the components of the node, which the code holds in
  reference-counted pointers: what one task does to the store, the tables, the membership, the clock or
  the connection pool, the others see.  The step relation has one rule for each kind of work of a task,
  and each rule applies the operation of the component that does it.
\<close>

section \<open>The state of a running node\<close>

text \<open>
  The scanner hands its requests to the repair executor through a bounded channel, one after the other:
  \<open>rn_requests\<close> is the channel and \<open>rn_submitting\<close> what the scanner has still to send of its last cycle.
\<close>

definition REPAIR_CHANNEL_CAPACITY :: nat where "REPAIR_CHANNEL_CAPACITY = 128"

record ('b, 'c, 'p, 'g, 'k) running =
  rn_node :: "('b, 'c, 'p, 'g, 'k) craftec_node"
  rn_now :: nat
  rn_probes :: "probe list"
  rn_dispatching :: bool
  rn_read :: nat
  rn_encodings :: "encode_task list"
  rn_scanner :: health_scanner
  rn_submitting :: "repair_request list"
  rn_requests :: "repair_request list"
  rn_next_request :: u64

definition run_new :: "('b, 'c, 'p, 'g, 'k) craftec_node \<Rightarrow> nat \<Rightarrow> ('b, 'c, 'p, 'g, 'k) running" where
  "run_new cn now =
     \<lparr>rn_node = cn, rn_now = now, rn_probes = [], rn_dispatching = True, rn_read = 0, rn_encodings = [],
      rn_scanner = scanner_new (1000 * unat (cf_health_scan_cycle_secs (cn_config cn))) (ep_id (cn_endpoint cn)), rn_submitting = [], rn_requests = [], rn_next_request = 0\<rparr>"

text \<open>The handlers and the endpoint share one membership table.\<close>

definition run_set_node :: "('b, 'c, 'p, 'g) node \<Rightarrow> ('b, 'c, 'p, 'g, 'k) running \<Rightarrow> ('b, 'c, 'p, 'g, 'k) running" where
  "run_set_node nd rn = rn\<lparr>rn_node := (rn_node rn)\<lparr>cn_node := nd\<rparr>\<rparr>"

definition run_set_endpoint :: "'k endpoint \<Rightarrow> ('b, 'c, 'p, 'g, 'k) running \<Rightarrow> ('b, 'c, 'p, 'g, 'k) running" where
  "run_set_endpoint ep rn = rn\<lparr>rn_node := (rn_node rn)\<lparr>cn_endpoint := ep, cn_node := (cn_node (rn_node rn))\<lparr>nd_swim := ep_swim ep\<rparr>\<rparr>\<rparr>"

text \<open>What the reader of one stream works on, and what it leaves.\<close>

definition conn_view :: "('b, 'c, 'p, 'g, 'k) running \<Rightarrow> ('b, 'c, 'p, 'g) node conn_state" where
  "conn_view rn = (let ep = cn_endpoint (rn_node rn)
     in \<lparr>cs_swim = ep_swim ep, cs_hlc = ep_hlc ep, cs_app = cn_node (rn_node rn), cs_written = []\<rparr>)"

definition conn_update :: "('b, 'c, 'p, 'g) node conn_state \<Rightarrow> ('b, 'c, 'p, 'g, 'k) running \<Rightarrow> ('b, 'c, 'p, 'g, 'k) running" where
  "conn_update st rn =
     run_set_endpoint ((cn_endpoint (rn_node rn))\<lparr>ep_swim := cs_swim st, ep_hlc := cs_hlc st\<rparr>) (run_set_node (cs_app st) rn)"

text \<open>The loop and the probe tasks of the membership protocol.\<close>

definition swim_view :: "('b, 'c, 'p, 'g, 'k) running \<Rightarrow> swim_sys" where
  "swim_view rn = \<lparr>sy_swim = ep_swim (cn_endpoint (rn_node rn)), sy_probes = rn_probes rn, sy_now = rn_now rn\<rparr>"

definition swim_update :: "swim_sys \<Rightarrow> ('b, 'c, 'p, 'g, 'k) running \<Rightarrow> ('b, 'c, 'p, 'g, 'k) running" where
  "swim_update y rn =
     (run_set_endpoint ((cn_endpoint (rn_node rn))\<lparr>ep_swim := sy_swim y\<rparr>) rn)\<lparr>rn_probes := sy_probes y, rn_now := sy_now y\<rparr>"

text \<open>The dispatch loop and the encoding tasks.\<close>

definition dispatch_view :: "('b, 'c, 'p, 'g, 'k) running \<Rightarrow> ('b, 'c, 'p, 'g) node_sys" where
  "dispatch_view rn = \<lparr>ns_node = cn_node (rn_node rn), ns_read = rn_read rn, ns_tasks = rn_encodings rn, ns_sent = []\<rparr>"

definition dispatch_update :: "('b, 'c, 'p, 'g) node_sys \<Rightarrow> ('b, 'c, 'p, 'g, 'k) running \<Rightarrow> ('b, 'c, 'p, 'g, 'k) running" where
  "dispatch_update y rn = (run_set_node (ns_node y) rn)\<lparr>rn_read := ns_read y, rn_encodings := ns_tasks y\<rparr>"

text \<open>The repair executor, with the index of coded pieces as its lookup.\<close>

definition repair_api_of ::
  "('b, 'c, 'g) node_api \<Rightarrow> (node_id list \<Rightarrow> node_id) \<Rightarrow> (node_id \<Rightarrow> wire_message \<Rightarrow> bool) \<Rightarrow> ('b, 'c, 'p, 'g) node \<Rightarrow> ('b, 'c, 'g) repair_api" where
  "repair_api_of X choice sends nd = \<lparr>ra_obj = na_obj X, ra_rng = na_rng X, ra_decode = na_decode_piece X,
     ra_lookup = coded_index_get (nd_index nd), ra_choose = choice, ra_sends = sends\<rparr>"

definition repair_view :: "('b, 'c, 'p, 'g, 'k) running \<Rightarrow> ('b, 'c, 'g) repair_executor" where
  "repair_view rn = (let nd = cn_node (rn_node rn)
     in \<lparr>re_store = nd_store nd, re_metrics = nd_metrics nd, re_rng = nd_rng nd, re_node_id = nd_id nd, re_next_request_id = rn_next_request rn\<rparr>)"

definition repair_update :: "('b, 'c, 'g) repair_executor \<Rightarrow> ('b, 'c, 'p, 'g, 'k) running \<Rightarrow> ('b, 'c, 'p, 'g, 'k) running" where
  "repair_update re rn =
     (run_set_node ((set_store (re_store re) (cn_node (rn_node rn)))\<lparr>nd_metrics := re_metrics re, nd_rng := re_rng re\<rparr>) rn)
       \<lparr>rn_next_request := re_next_request_id re\<rparr>"

text \<open>The host state of a program that runs, and the calls it makes.\<close>

definition host_view :: "bytes \<Rightarrow> u32 \<Rightarrow> ('b, 'c, 'p, 'g, 'k) running \<Rightarrow> ('b, 'c, 'p) host_state" where
  "host_view scratch signs rn = (let nd = cn_node (rn_node rn)
     in \<lparr>hs_store = nd_store nd, hs_database = Some (nd_db nd), hs_keystore = cn_scheduler_keys (rn_node rn),
         hs_scratch = scratch, hs_sign_count = signs\<rparr>)"

definition host_update :: "('b, 'c, 'p) host_state \<Rightarrow> ('b, 'c, 'p, 'g, 'k) running \<Rightarrow> ('b, 'c, 'p, 'g, 'k) running" where
  "host_update h rn =
     run_set_node (set_store (hs_store h) ((cn_node (rn_node rn))\<lparr>nd_db := (case hs_database h of Some db \<Rightarrow> db | None \<Rightarrow> nd_db (cn_node (rn_node rn)))\<rparr>)) rn"

definition host_api_of :: "('b, 'c, 'g) node_api \<Rightarrow> (column_value list list \<Rightarrow> bytes option) \<Rightarrow> ('b, 'c) host_api" where
  "host_api_of X enc = \<lparr>ha_obj = na_obj X, ha_ed = na_ed X, ha_engine = na_engine X, ha_encode_rows = enc\<rparr>"

section \<open>The background tasks\<close>

text \<open>
  A message that cannot be sent because its target is no key panics the task that sends it; when this is the
  dispatch loop, no event is dispatched any more.
\<close>

inductive running_step ::
  "('b, 'c, 'g) node_api \<Rightarrow> ('k, 'a) net_api \<Rightarrow> rpc_request postcard \<Rightarrow> rpc_response postcard \<Rightarrow> ('m, 'i, 'v) wasm_api \<Rightarrow>
     ('b, 'c, 'p, 'g, 'k) running \<Rightarrow> ('b, 'c, 'p, 'g, 'k) running \<Rightarrow> bool"
  for X N Q R W where
  bootstrapping: "bootstrap N clk (cf_bootstrap_peers (cn_config (rn_node rn))) (cn_endpoint (rn_node rn)) = Some (r, acts, ep) \<Longrightarrow>
    running_step X N Q R W rn (run_set_endpoint ep rn)"
| accepting: "accept_connection True now alpn remote k (cn_endpoint (rn_node rn)) = (h, ep) \<Longrightarrow>
    running_step X N Q R W rn (run_set_endpoint ep rn)"
| peer_stream: "craftec_stream (ne_msg N) (node_handle_message X io) remote ev (conn_view rn) = (go, st) \<Longrightarrow>
    running_step X N Q R W rn (conn_update st rn)"
| swim_stream: "swim_stream (ne_msg N) ev (conn_view rn) = (go, st) \<Longrightarrow> running_step X N Q R W rn (conn_update st rn)"
| outbound_stream: "outbound_stream (ne_msg N) ev (conn_view rn) = (go, st) \<Longrightarrow> running_step X N Q R W rn (conn_update st rn)"
| rpc_stream: "rpc_serve Q R (handle_request X io) remote ev (conn_view rn) = (out, st) \<Longrightarrow> running_step X N Q R W rn (conn_update st rn)"
| sending: "send_message N clk peer msg (cn_endpoint (rn_node rn)) = Some (r, acts, ep) \<Longrightarrow>
    running_step X N Q R W rn (run_set_endpoint ep rn)"
| membership: "swim_step (swim_view rn) y \<Longrightarrow> running_step X N Q R W rn (swim_update y rn)"
| scanning: "rn_submitting rn = [] \<Longrightarrow> scan_cycle (nd_tracker (cn_node (rn_node rn))) (rn_scanner rn) = (reqs, sc) \<Longrightarrow>
    running_step X N Q R W rn (rn\<lparr>rn_scanner := sc, rn_submitting := reqs\<rparr>)"
| submitting: "rn_submitting rn = req # rest \<Longrightarrow> length (rn_requests rn) < REPAIR_CHANNEL_CAPACITY \<Longrightarrow>
    running_step X N Q R W rn (rn\<lparr>rn_submitting := rest, rn_requests := rn_requests rn @ [req]\<rparr>)"
| repairing: "rn_requests rn = req # rest \<Longrightarrow> nd = cn_node (rn_node rn) \<Longrightarrow>
    execute_repair (repair_api_of X choice sends nd) flt (nd_tracker nd) (nd_swim nd) req (repair_view rn) = (r, out, re) \<Longrightarrow>
    running_step X N Q R W rn ((repair_update re rn)\<lparr>rn_requests := rest\<rparr>)"
| dispatching: "node_step X (dispatch_view rn) y \<Longrightarrow> rn_dispatching rn \<or> ns_read y = rn_read rn \<Longrightarrow>
    send_each N clk (ns_sent y) (cn_endpoint (rn_node rn)) = Some ep \<Longrightarrow>
    running_step X N Q R W rn (run_set_endpoint ep (dispatch_update y rn))"
| dispatch_panics: "node_step X (dispatch_view rn) y \<Longrightarrow> rn_dispatching rn \<Longrightarrow>
    send_each N clk (ns_sent y) (cn_endpoint (rn_node rn)) = None \<Longrightarrow>
    running_step X N Q R W rn (rn\<lparr>rn_dispatching := False\<rparr>)"
| departed: "rn_dispatching rn \<Longrightarrow> sw_events (nd_swim (cn_node (rn_node rn))) = Some es \<Longrightarrow> PeerDisconnected n \<in> set es \<Longrightarrow>
    running_step X N Q R W rn (run_set_node (dispatch_peer_disconnected n (cn_node (rn_node rn))) rn)"
| prune_pending: "running_step X N Q R W rn (run_set_node (prune_pending_tick now (cn_node (rn_node rn))) rn)"
| prune_providers: "running_step X N Q R W rn (run_set_node (prune_dht_tick now (cn_node (rn_node rn))) rn)"
| scheduling: "running_step X N Q R W rn (rn\<lparr>rn_node := (rn_node rn)\<lparr>cn_scheduler := sched_do W a (cn_scheduler (rn_node rn))\<rparr>\<rparr>)"
| program: "host_step (host_api_of X enc) call mem (host_view scratch signs rn) = Some (r, mem', h) \<Longrightarrow>
    running_step X N Q R W rn (host_update h rn)"

section \<open>What the tasks keep\<close>

definition running_inv :: "('b, 'c, 'g) node_api \<Rightarrow> ('b, 'c, 'p, 'g, 'k) running \<Rightarrow> bool" where
  "running_inv X rn \<longleftrightarrow>
     (let nd = cn_node (rn_node rn); ep = cn_endpoint (rn_node rn); s = ep_swim ep
      in node_wf X nd \<and> sched_inv (cn_scheduler (rn_node rn)) \<and> nd_swim nd = s \<and> db_owner (nd_db nd) = nd_id nd \<and> ep_id ep = nd_id nd \<and>
         sw_local s = nd_id nd \<and> nd_id nd \<notin> fst ` set (sw_members s) \<and> distinct (map fst (sw_members s)) \<and>
         pool_inv (unat (cf_max_connections (cn_config (rn_node rn)))) (ep_pool ep) \<and> length (rn_requests rn) \<le> REPAIR_CHANNEL_CAPACITY)"

text \<open>What no task changes: the keys, the configuration, the identity, the owner of the database, and the marks of pieces.\<close>

definition running_keeps :: "('b, 'c, 'p, 'g, 'k) running \<Rightarrow> ('b, 'c, 'p, 'g, 'k) running \<Rightarrow> bool" where
  "running_keeps rn rn' \<longleftrightarrow> node_keeps (cn_node (rn_node rn)) (cn_node (rn_node rn')) \<and> cn_keystore (rn_node rn') = cn_keystore (rn_node rn) \<and>
     cn_scheduler_keys (rn_node rn') = cn_scheduler_keys (rn_node rn) \<and> cn_config (rn_node rn') = cn_config (rn_node rn)"

lemma running_keeps_refl: "running_keeps rn rn"
  by (simp add: running_keeps_def node_keeps_def)

lemma running_keeps_trans: "running_keeps rn rn' \<Longrightarrow> running_keeps rn' rn'' \<Longrightarrow> running_keeps rn rn''"
  using node_handlers.keeps_trans by (auto simp: running_keeps_def)

text \<open>A change of the node alone, and one of the endpoint alone.\<close>

lemma run_set_node_ok:
  assumes "running_inv X rn" "node_wf X nd \<and> node_keeps (cn_node (rn_node rn)) nd" "nd_swim nd = nd_swim (cn_node (rn_node rn))"
  shows "running_inv X (run_set_node nd rn) \<and> running_keeps rn (run_set_node nd rn)"
  using assms by (auto simp: running_inv_def running_keeps_def run_set_node_def node_keeps_def Let_def)

lemma node_wf_swim [simp]: "node_wf X (nd\<lparr>nd_swim := s\<rparr>) = node_wf X nd"
  by (simp add: node_wf_def nd_store_def)

lemma node_keeps_swim [simp]: "node_keeps nd (nd'\<lparr>nd_swim := s\<rparr>) = node_keeps nd nd'"
  by (simp add: node_keeps_def)

lemma run_set_endpoint_ok:
  assumes "running_inv X rn" "ep_id ep = ep_id (cn_endpoint (rn_node rn))" "swim_ext (ep_swim (cn_endpoint (rn_node rn))) (ep_swim ep)"
    and "pool_inv m (ep_pool (cn_endpoint (rn_node rn))) \<longrightarrow> pool_inv m (ep_pool ep)" "m = unat (cf_max_connections (cn_config (rn_node rn)))"
  shows "running_inv X (run_set_endpoint ep rn) \<and> running_keeps rn (run_set_endpoint ep rn)"
  using assms by (auto simp: running_inv_def running_keeps_def run_set_endpoint_def node_keeps_def Let_def swim_ext_def)

lemma conn_update_ok:
  assumes "running_inv X rn" "node_wf X (cs_app st) \<and> node_keeps (cn_node (rn_node rn)) (cs_app st)"
    and "swim_ext (ep_swim (cn_endpoint (rn_node rn))) (cs_swim st)"
  shows "running_inv X (conn_update st rn) \<and> running_keeps rn (conn_update st rn)"
  using assms by (auto simp: running_inv_def running_keeps_def conn_update_def run_set_endpoint_def run_set_node_def node_keeps_def Let_def swim_ext_def)

text \<open>Sending changes the clock and the pool only.\<close>

definition sends_only :: "'k endpoint \<Rightarrow> 'k endpoint \<Rightarrow> bool" where
  "sends_only ep ep' \<longleftrightarrow> ep_id ep' = ep_id ep \<and> ep_swim ep' = ep_swim ep \<and> (\<forall>m. pool_inv m (ep_pool ep) \<longrightarrow> pool_inv m (ep_pool ep'))"

lemma sends_only_refl: "sends_only ep ep"
  by (simp add: sends_only_def)

lemma sends_only_trans: "sends_only ep ep' \<Longrightarrow> sends_only ep' ep'' \<Longrightarrow> sends_only ep ep''"
  by (simp add: sends_only_def)

lemma pool_get_inv: "pool_inv m p \<Longrightarrow> pool_inv m (snd (pool_get now n p))"
  by (auto simp: pool_get_def pool_inv_def distinct_update length_alist_update map_of_eq_None_iff split: option.splits
      dest: map_of_SomeD intro: rev_image_eqI)

lemma send_message_only: "send_message N clk n msg ep = Some (r, acts, ep') \<Longrightarrow> sends_only ep ep'"
proof -
  assume s: "send_message N clk n msg ep = Some (r, acts, ep')"
  obtain k pool where g: "pool_get (nc_instant clk) n (ep_pool ep) = (k, pool)" by (cases "pool_get (nc_instant clk) n (ep_pool ep)")
  have "pool_inv m pool" if "pool_inv m (ep_pool ep)" for m
    using pool_get_inv[OF that, of "nc_instant clk" n] g by simp
  then show ?thesis using s
    by (auto simp: send_message_def g Let_def sends_only_def intro!: pool_insert_inv split: sum.splits prod.splits option.splits if_splits)
qed

lemma send_each_only: "send_each N clk ms ep = Some ep' \<Longrightarrow> sends_only ep ep'"
proof (induction N clk ms ep rule: send_each.induct)
  case (2 N clk n msg ms ep)
  then show ?case using send_message_only sends_only_trans by (fastforce split: option.splits)
qed (simp add: sends_only_refl)

lemma bootstrap_loop_only: "bootstrap_loop N clk ps j acts ep = Some (j', acts', ep') \<Longrightarrow> sends_only ep ep'"
proof (induction N clk ps j acts ep rule: bootstrap_loop.induct)
  case (2 N clk p ps joined acts ep)
  show ?case
  proof (cases "\<exists>n addr k. parse_peer N p = Some (n, addr) \<and> connect N n addr = Inr k")
    case True
    then obtain n addr k where c: "parse_peer N p = Some (n, addr)" "connect N n addr = Inr k" by blast
    let ?ep = "ep\<lparr>ep_pool := pool_insert (nc_instant (clk 0)) n k (ep_pool ep)\<rparr>"
    obtain r acts1 ep1 where s: "send_message N (clk 0) n (SwimJoin (ep_id ep) 0) ?ep = Some (r, acts1, ep1)"
      using "2.prems" c by (auto split: option.splits)
    have "sends_only ep ?ep" by (simp add: sends_only_def pool_insert_inv)
    moreover have "sends_only ep1 ep'" using "2.IH"(3)[OF c(1) refl c(2) s refl refl] "2.prems" c s by simp
    ultimately show ?thesis using send_message_only[OF s] sends_only_trans by blast
  next
    case False
    then show ?thesis using "2.IH"(1,2) "2.prems" by (auto split: option.splits sum.splits)
  qed
qed (simp add: sends_only_refl)

lemma bootstrap_only: "bootstrap N clk peers ep = Some (r, acts, ep') \<Longrightarrow> sends_only ep ep'"
  by (auto simp: bootstrap_def sends_only_refl dest: bootstrap_loop_only split: if_splits option.splits)

lemma sends_only_ok:
  "running_inv X rn \<Longrightarrow> sends_only (cn_endpoint (rn_node rn)) ep \<Longrightarrow>
   running_inv X (run_set_endpoint ep rn) \<and> running_keeps rn (run_set_endpoint ep rn)"
  by (rule run_set_endpoint_ok) (simp_all add: sends_only_def)

text \<open>The dispatch loop and the encoding tasks.\<close>

lemma task_swim:
  "nd_swim (snd (task_start X flt c nd)) = nd_swim nd" "nd_swim (snd (task_store X flt p pcids nd)) = nd_swim nd"
  "nd_swim (task_finish now c pcids nd) = nd_swim nd"
  by (auto simp: task_start_def task_store_def task_finish_def set_store_def Let_def split: sum.splits option.splits prod.splits)

lemma dispatch_cid_written_node: "ns_node (dispatch_cid_written X c y) = ns_node y"
  by (simp add: dispatch_cid_written_def Let_def)

lemma node_step_wf:
  assumes "node_step X y y'" "node_wf X (ns_node y)"
  shows "node_wf X (ns_node y') \<and> node_keeps (ns_node y) (ns_node y') \<and> nd_swim (ns_node y') = nd_swim (ns_node y)"
  using assms
proof (induction rule: node_step.induct)
  case (start i y c flt t nd)
  then show ?case using task_wf(1)[of X "ns_node y" flt c] task_swim(1)[of X flt c "ns_node y"] by simp
next
  case (store i y c p ps pcids flt pcids' nd)
  then show ?case using task_wf(2)[of X "ns_node y" flt p pcids] task_swim(2)[of X flt p pcids "ns_node y"] by simp
next
  case (finish i y c pcids now)
  then show ?case using task_wf(3)[of X "ns_node y" now c pcids] by (simp add: task_swim(3))
qed (simp_all add: dispatch_cid_written_node node_keeps_def)

lemma dispatch_update_ok:
  assumes "running_inv X rn" "node_step X (dispatch_view rn) y"
  shows "running_inv X (dispatch_update y rn) \<and> running_keeps rn (dispatch_update y rn) \<and>
    cn_endpoint (rn_node (dispatch_update y rn)) = cn_endpoint (rn_node rn)"
proof -
  have "node_wf X (ns_node (dispatch_view rn))" using assms(1) by (simp add: running_inv_def dispatch_view_def Let_def)
  note w = node_step_wf[OF assms(2) this]
  then have "running_inv X (run_set_node (ns_node y) rn) \<and> running_keeps rn (run_set_node (ns_node y) rn)"
    using run_set_node_ok[OF assms(1), of "ns_node y"] by (simp add: dispatch_view_def)
  then show ?thesis by (simp add: dispatch_update_def running_inv_def running_keeps_def run_set_node_def Let_def)
qed

text \<open>Repairs and programs use the store through its operations.\<close>

lemma load_loop_inv: "store_inv (ra_obj Y) s \<Longrightarrow> store_inv (ra_obj Y) (snd (load_loop Y flt pcs ps s))"
proof (induction pcs arbitrary: ps s)
  case (Cons pc pcs)
  obtain r s' where g: "get (ra_obj Y) (flt pc) s pc = (r, s')" by (cases "get (ra_obj Y) (flt pc) s pc")
  have "store_inv (ra_obj Y) s'" using get_inv[OF Cons.prems, of "flt pc" pc] g by simp
  then show ?case using Cons g by (auto split: sum.splits option.splits)
qed simp

lemma execute_repair_inv:
  assumes "store_inv (ra_obj Y) (re_store re)"
  shows "store_inv (ra_obj Y) (re_store (snd (snd (execute_repair Y flt t sw req re))))"
proof -
  have "store_inv (ra_obj Y) (snd (load_local_pieces Y flt c (re_store re)))" for c
    using load_loop_inv[OF assms, of flt] assms by (auto simp: load_local_pieces_def case_prod_beta Let_def split: option.splits)
  then have "store_inv (ra_obj Y) s" if "load_local_pieces Y flt c (re_store re) = (r, s)" for c r s using that by (metis snd_conv)
  then show ?thesis using assms
    by (auto simp: execute_repair_def Let_def split: sum.splits prod.splits)
qed

lemma craft_store_get_effect:
  assumes "craft_store_get H flt mem p l h = Some (r, h')"
  shows "hs_database h' = hs_database h \<and> (hs_store h' = hs_store h \<or> (\<exists>c. hs_store h' = snd (get (ha_obj H) flt (hs_store h) c)))"
proof (cases mem)
  case (Some md)
  let ?a = "i32_as_usize p" and ?b = "saturating_add64 (i32_as_usize p) (i32_as_usize l)"
  show ?thesis
  proof (cases "unat ?b > length md \<or> l \<noteq> 32")
    case False
    then obtain bs where bs: "slice_usize md ?a ?b = Some bs" "length bs = 32"
      using assms Some by (auto simp: craft_store_get_def Let_def bind_eq_Some_conv split: if_splits)
    obtain x s where g: "get (ha_obj H) flt (hs_store h) (Cid bs) = (x, s)" by (cases "get (ha_obj H) flt (hs_store h) (Cid bs)")
    have "hs_database h' = hs_database h \<and> hs_store h' = snd (get (ha_obj H) flt (hs_store h) (Cid bs))"
      using assms False by (auto simp: craft_store_get_def Some Let_def bs g split: sum.splits option.splits)
    then show ?thesis by blast
  qed (use assms Some in \<open>auto simp: craft_store_get_def Let_def\<close>)
qed (use assms in \<open>simp add: craft_store_get_def\<close>)

lemma craft_store_put_effect:
  assumes "craft_store_put H flt mem p l h = Some (r, h')"
  shows "hs_database h' = hs_database h \<and> (hs_store h' = hs_store h \<or> (\<exists>d. hs_store h' = snd (put (ha_obj H) flt (hs_store h) d)))"
proof (cases mem)
  case (Some md)
  let ?a = "i32_as_usize p" and ?b = "saturating_add64 (i32_as_usize p) (i32_as_usize l)"
  show ?thesis
  proof (cases "unat ?b > length md")
    case False
    then obtain d where d: "slice_usize md ?a ?b = Some d"
      using assms Some by (auto simp: craft_store_put_def Let_def bind_eq_Some_conv split: if_splits)
    obtain x s where g: "put (ha_obj H) flt (hs_store h) d = (x, s)" by (cases "put (ha_obj H) flt (hs_store h) d")
    have "hs_database h' = hs_database h \<and> hs_store h' = snd (put (ha_obj H) flt (hs_store h) d)"
      using assms False by (auto simp: craft_store_put_def Some Let_def d g split: sum.splits)
    then show ?thesis by blast
  qed (use assms Some in \<open>auto simp: craft_store_put_def Let_def\<close>)
qed (use assms in \<open>simp add: craft_store_put_def\<close>)

lemma craft_sql_query_effect:
  assumes "craft_sql_query H mem p l h = Some (r, h')"
  shows "hs_store h' = hs_store h \<and> (hs_database h' = hs_database h \<or>
    (\<exists>sql db. hs_database h = Some db \<and> hs_database h' = Some (snd (database_query (ha_engine H) sql db))))"
proof (cases mem)
  case (Some md)
  let ?a = "i32_as_usize p" and ?b = "saturating_add64 (i32_as_usize p) (i32_as_usize l)"
  show ?thesis
  proof (cases "unat ?b > length md")
    case False
    then obtain bs where bs: "slice_usize md ?a ?b = Some bs"
      using assms Some by (auto simp: craft_sql_query_def Let_def bind_eq_Some_conv split: if_splits)
    show ?thesis
    proof (cases "from_utf8 bs = None \<or> hs_database h = None")
      case True
      then show ?thesis using assms False by (auto simp: craft_sql_query_def Some Let_def bs split: option.splits)
    next
      case False
      then obtain sql db where q: "from_utf8 bs = Some sql" "hs_database h = Some db" by auto
      obtain x db' where d: "database_query (ha_engine H) sql db = (x, db')" by (cases "database_query (ha_engine H) sql db")
      have "hs_store h' = hs_store h \<and> hs_database h' = Some (snd (database_query (ha_engine H) sql db))"
        using assms \<open>\<not> length md < unat ?b\<close> by (auto simp: craft_sql_query_def Some Let_def bs q d split: sum.splits option.splits)
      then show ?thesis using q(2) by blast
    qed
  qed (use assms Some in \<open>auto simp: craft_sql_query_def Let_def\<close>)
qed (use assms in \<open>simp add: craft_sql_query_def\<close>)

lemma database_query_file: "\<exists>file. snd (database_query E sql db) = db\<lparr>db_file := file\<rparr>"
  by (auto simp: database_query_def split: sum.splits prod.splits option.splits intro: exI[of _ "db_file db"])

lemma host_step_inv:
  assumes "host_step H call mem h = Some (r, mem', h')" "store_inv (ha_obj H) (hs_store h)" "hs_database h = Some db"
  shows "store_inv (ha_obj H) (hs_store h') \<and> (\<exists>file. hs_database h' = Some (db\<lparr>db_file := file\<rparr>))"
proof -
  have same: "\<exists>file. db = db\<lparr>db_file := file\<rparr>" by (rule exI[of _ "db_file db"]) simp
  show ?thesis
  proof (cases call)
    case (CallStoreGet flt p l)
    then show ?thesis using assms craft_store_get_effect[of H flt mem p l h r h'] get_inv[OF assms(2)] same by auto
  next
    case (CallStorePut flt p l)
    then show ?thesis using assms craft_store_put_effect[of H flt mem p l h r h'] put_inv[OF assms(2)] same by auto
  next
    case (CallSqlQuery p l)
    then have e: "hs_store h' = hs_store h" "hs_database h' = Some db \<or> (\<exists>sql. hs_database h' = Some (snd (database_query (ha_engine H) sql db)))"
      using assms(1,3) craft_sql_query_effect[of H mem p l h r h'] by auto
    then have "\<exists>file. hs_database h' = Some (db\<lparr>db_file := file\<rparr>)"
      using same database_query_file[of "ha_engine H" _ db] by metis
    then show ?thesis using e(1) assms(2) by simp
  next
    case (CallSign p l)
    then show ?thesis using assms same
      by (auto simp: craft_sign_def Let_def bind_eq_Some_conv split: option.splits if_splits)
  qed (use assms same in auto)
qed

lemma host_update_ok:
  assumes "running_inv X rn" "host_step (host_api_of X enc) call mem (host_view scratch signs rn) = Some (r, mem', h)"
  shows "running_inv X (host_update h rn) \<and> running_keeps rn (host_update h rn)"
proof -
  let ?nd = "cn_node (rn_node rn)"
  have "node_wf X ?nd" using assms(1) by (simp add: running_inv_def Let_def)
  then have inv: "store_inv (na_obj X) (nd_store ?nd)" "tracker_inv (nd_tracker ?nd)" "dht_inv (nd_dht ?nd)" by (simp_all add: node_wf_def)
  then obtain "file" where h: "store_inv (na_obj X) (hs_store h)" "hs_database h = Some ((nd_db ?nd)\<lparr>db_file := file\<rparr>)"
    using host_step_inv[OF assms(2)] by (auto simp: host_api_of_def host_view_def Let_def)
  have "running_inv X (run_set_node (set_store (hs_store h) (?nd\<lparr>nd_db := (nd_db ?nd)\<lparr>db_file := file\<rparr>\<rparr>)) rn) \<and>
      running_keeps rn (run_set_node (set_store (hs_store h) (?nd\<lparr>nd_db := (nd_db ?nd)\<lparr>db_file := file\<rparr>\<rparr>)) rn)"
    by (rule run_set_node_ok[OF assms(1)]) (use h(1) inv in \<open>simp_all add: set_store_def node_wf_def node_keeps_def nd_store_def\<close>)
  then show ?thesis by (simp add: host_update_def h(2))
qed

lemma repair_update_ok:
  assumes "running_inv X rn" "nd = cn_node (rn_node rn)"
    and "execute_repair (repair_api_of X choice sends nd) flt t sw req (repair_view rn) = (r, out, re)"
  shows "running_inv X (repair_update re rn) \<and> running_keeps rn (repair_update re rn)"
proof -
  have "node_wf X nd" using assms(1,2) by (simp add: running_inv_def Let_def)
  then have inv: "store_inv (na_obj X) (nd_store nd)" "tracker_inv (nd_tracker nd)" "dht_inv (nd_dht nd)" by (simp_all add: node_wf_def)
  then have s: "store_inv (na_obj X) (re_store re)"
    using execute_repair_inv[of "repair_api_of X choice sends nd" "repair_view rn" flt t sw req] assms(2,3)
    by (simp add: repair_api_of_def repair_view_def Let_def)
  have "running_inv X (run_set_node ((set_store (re_store re) nd)\<lparr>nd_metrics := re_metrics re, nd_rng := re_rng re\<rparr>) rn) \<and>
      running_keeps rn (run_set_node ((set_store (re_store re) nd)\<lparr>nd_metrics := re_metrics re, nd_rng := re_rng re\<rparr>) rn)"
    by (rule run_set_node_ok[OF assms(1)]) (use s inv assms(2) in \<open>simp_all add: set_store_def node_wf_def node_keeps_def nd_store_def\<close>)
  then show ?thesis by (simp add: repair_update_def assms(2) running_inv_def running_keeps_def run_set_node_def Let_def)
qed

lemma swim_update_ok:
  assumes "running_inv X rn" "swim_step (swim_view rn) y"
  shows "running_inv X (swim_update y rn) \<and> running_keeps rn (swim_update y rn)"
proof -
  have "swim_ext (ep_swim (cn_endpoint (rn_node rn))) (sy_swim y)" using swim_step_ext[OF assms(2)] by (simp add: swim_view_def)
  then have "running_inv X (run_set_endpoint ((cn_endpoint (rn_node rn))\<lparr>ep_swim := sy_swim y\<rparr>) rn) \<and>
      running_keeps rn (run_set_endpoint ((cn_endpoint (rn_node rn))\<lparr>ep_swim := sy_swim y\<rparr>) rn)"
    by (intro run_set_endpoint_ok[OF assms(1)]) simp_all
  then show ?thesis by (simp add: swim_update_def running_inv_def running_keeps_def run_set_endpoint_def Let_def)
qed

lemma swim_stream_app: "cs_app (snd (swim_stream P ev st)) = cs_app st"
proof -
  have "cs_app st1 = cs_app st" if "admit ev ts st = (go, st1)" for ts go st1 using admit_fields(2)[of ev ts st] that by simp
  then show ?thesis
    by (auto simp: swim_stream_def process_swim_app split: stream_read.splits option.splits sum.splits prod.splits bool.splits)
qed

lemma rpc_serve_swim: "cs_swim (snd (rpc_serve Q R h remote ev st)) = cs_swim st"
  by (auto simp: rpc_serve_def Let_def case_prod_beta split: stream_read.splits option.splits sum.splits)

lemma running_step_ok:
  "running_step X N Q R W rn rn' \<Longrightarrow> running_inv X rn \<Longrightarrow> running_inv X rn' \<and> running_keeps rn rn'"
proof (induction rule: running_step.induct)
  case (bootstrapping clk rn r acts ep)
  then show ?case using sends_only_ok bootstrap_only by blast
next
  case (accepting now alpn remote k rn h ep)
  have "sends_only (cn_endpoint (rn_node rn)) ep"
    using accepting.hyps by (auto simp: accept_connection_def sends_only_def intro: pool_insert_inv split: if_splits)
  then show ?case using sends_only_ok accepting.prems by blast
next
  case (peer_stream io remote ev rn go st)
  have "node_wf X (cs_app (conn_view rn))" using peer_stream.prems by (simp add: running_inv_def conn_view_def Let_def)
  from node_handlers.stream_law[OF this, of "ne_msg N" io remote ev] stream_ext(3)[of "conn_view rn" "ne_msg N" "node_handle_message X io" remote ev]
  show ?case using conn_update_ok[OF peer_stream.prems, of st] peer_stream.hyps by (simp add: conn_view_def Let_def)
next
  case (swim_stream ev rn go st)
  have "cs_app st = cn_node (rn_node rn)" using swim_stream_app[of "ne_msg N" ev "conn_view rn"] swim_stream.hyps by (simp add: conn_view_def Let_def)
  then show ?case
    using conn_update_ok[OF swim_stream.prems, of st] stream_ext(1)[of "conn_view rn" "ne_msg N" ev] swim_stream.hyps swim_stream.prems
    by (simp add: conn_view_def running_inv_def node_keeps_def Let_def)
next
  case (outbound_stream ev rn go st)
  have "cs_app st = cn_node (rn_node rn)" using outbound_stream_app[of "ne_msg N" ev "conn_view rn"] outbound_stream.hyps by (simp add: conn_view_def Let_def)
  then show ?case
    using conn_update_ok[OF outbound_stream.prems, of st] stream_ext(2)[of "conn_view rn" "ne_msg N" ev] outbound_stream.hyps outbound_stream.prems
    by (simp add: conn_view_def running_inv_def node_keeps_def Let_def)
next
  case (rpc_stream io remote ev rn out st)
  have "node_wf X (cs_app (conn_view rn))" using rpc_stream.prems by (simp add: running_inv_def conn_view_def Let_def)
  from node_handlers.serve_law[OF this, of Q R io remote ev] rpc_serve_swim[of Q R "handle_request X io" remote ev "conn_view rn"]
  show ?case using conn_update_ok[OF rpc_stream.prems, of st] rpc_stream.hyps by (simp add: conn_view_def Let_def)
next
  case (sending clk peer msg rn r acts ep)
  then show ?case using sends_only_ok send_message_only by blast
next
  case (membership rn y)
  then show ?case using swim_update_ok by blast
next
  case (scanning rn reqs sc)
  then show ?case using running_keeps_refl by (simp add: running_inv_def running_keeps_def)
next
  case (submitting rn req rest)
  then show ?case using running_keeps_refl by (simp add: running_inv_def running_keeps_def)
next
  case (repairing rn req rest nd choice sends flt r out re)
  have "running_inv X (repair_update re rn) \<and> running_keeps rn (repair_update re rn)"
    by (rule repair_update_ok[OF repairing.prems repairing.hyps(2,3)])
  moreover have "length rest \<le> REPAIR_CHANNEL_CAPACITY" using repairing.prems repairing.hyps(1) by (simp add: running_inv_def Let_def)
  ultimately show ?case by (auto simp: running_inv_def running_keeps_def Let_def)
next
  case (dispatching rn y clk ep)
  note d = dispatch_update_ok[OF dispatching.prems dispatching.hyps(1)]
  then have "running_inv X (run_set_endpoint ep (dispatch_update y rn)) \<and> running_keeps (dispatch_update y rn) (run_set_endpoint ep (dispatch_update y rn))"
    using sends_only_ok[of X "dispatch_update y rn" ep] send_each_only[OF dispatching.hyps(3)] by simp
  then show ?case using d running_keeps_trans by blast
next
  case (dispatch_panics rn y clk)
  then show ?case by (simp add: running_inv_def running_keeps_def node_keeps_def)
next
  case (departed rn es n)
  then show ?case
    by (intro run_set_node_ok disconnected_wf) (simp_all add: running_inv_def dispatch_peer_disconnected_def Let_def)
next
  case (prune_pending rn now)
  then show ?case
    by (intro run_set_node_ok) (simp_all add: running_inv_def prune_pending_tick_def node_wf_def node_keeps_def nd_store_def Let_def)
next
  case (prune_providers rn now)
  then show ?case
    by (intro run_set_node_ok) (simp_all add: running_inv_def prune_dht_tick_def provider_index.inv_expire node_wf_def node_keeps_def nd_store_def Let_def)
next
  case (scheduling rn a)
  then show ?case by (simp add: running_inv_def running_keeps_def node_keeps_def Let_def sched_do_inv)
next
  case (program enc call mem scratch signs rn r mem' h)
  then show ?case using host_update_ok by blast
qed

lemma running_steps_ok:
  "(running_step X N Q R W)\<^sup>*\<^sup>* rn rn' \<Longrightarrow> running_inv X rn \<Longrightarrow> running_inv X rn' \<and> running_keeps rn rn'"
proof (induction rule: rtranclp_induct)
  case base
  then show ?case by (simp add: running_keeps_refl)
next
  case (step rn1 rn2)
  then show ?case using running_step_ok running_keeps_trans by blast
qed

section \<open>From the start on\<close>

lemma node_new_endpoint:
  assumes "node_new X P g io cfg dd = Some (Inr cn, dd')"
  shows "\<exists>n wall. cn_endpoint cn = (endpoint_new n (unat (cf_max_connections cfg)) wall)\<lparr>ep_swim := swim_set_event_sender (swim_new n)\<rparr> \<and>
    nd_swim (cn_node cn) = swim_set_event_sender (swim_new n) \<and> cn_config cn = cfg"
  using assms
  by (auto simp: node_new_def boot_endpoint_def endpoint_new_def Let_def bind_eq_Some_conv split: if_splits option.splits sum.splits prod.splits)

lemma run_new_inv:
  assumes "obj_api_ok (na_obj X)" "length (bo_entropy io) = 32" "node_new X P g io cfg dd = Some (Inr cn, dd')"
  shows "running_inv X (run_new cn now)"
proof -
  obtain n wall where e: "cn_endpoint cn = (endpoint_new n (unat (cf_max_connections cfg)) wall)\<lparr>ep_swim := swim_set_event_sender (swim_new n)\<rparr>"
      "nd_swim (cn_node cn) = swim_set_event_sender (swim_new n)" "cn_config cn = cfg"
    using node_new_endpoint[OF assms(3)] by blast
  note i = node_new_identity[OF assms]
  then have "nd_id (cn_node cn) = n" by (auto simp: Let_def e(1) endpoint_new_def)
  then show ?thesis using i
    by (simp add: running_inv_def run_new_def e Let_def endpoint_new_def swim_set_event_sender_def swim_new_def pool_inv_def pool_with_capacity_def)
qed

section \<open>The end of the dispatch loop\<close>

lemma dead_dispatch:
  "running_step X N Q R W rn rn' \<Longrightarrow> \<not> rn_dispatching rn \<Longrightarrow>
   \<not> rn_dispatching rn' \<and> rn_read rn' = rn_read rn \<and> length (rn_encodings rn') = length (rn_encodings rn)"
proof (induction rule: running_step.induct)
  case (dispatching rn y clk ep)
  have "length (ns_tasks y) = length (rn_encodings rn)"
    using dispatching.hyps(1,2) dispatching.prems
    by (auto simp: dispatch_view_def elim: node_stepE)
  then show ?case using dispatching.hyps(2) dispatching.prems by (simp add: run_set_endpoint_def dispatch_update_def run_set_node_def)
qed (simp_all add: run_set_endpoint_def run_set_node_def conn_update_def swim_update_def repair_update_def host_update_def)

lemma dead_dispatch_forever:
  "(running_step X N Q R W)\<^sup>*\<^sup>* rn rn' \<Longrightarrow> \<not> rn_dispatching rn \<Longrightarrow>
   \<not> rn_dispatching rn' \<and> rn_read rn' = rn_read rn \<and> length (rn_encodings rn') = length (rn_encodings rn)"
  by (induction rule: rtranclp_induct) (auto dest: dead_dispatch)

text \<open>A join that arrives on an inbound connection enters its identifier into the shared table.\<close>

lemma forged_join_enters:
  assumes "se_read ev = StreamBytes b" "decode_framed_with_hlc (ne_msg N) b = Some (Inr (SwimJoin n port, 0))"
  shows "\<exists>st. craftec_stream (ne_msg N) (node_handle_message X io) remote ev (conn_view rn) = (fst (craftec_stream (ne_msg N) (node_handle_message X io) remote ev (conn_view rn)), st) \<and>
    conn_update st rn = run_set_endpoint ((cn_endpoint (rn_node rn))\<lparr>ep_swim := mark_alive n 0 (ep_swim (cn_endpoint (rn_node rn)))\<rparr>) rn"
proof -
  let ?st = "snd (craftec_stream (ne_msg N) (node_handle_message X io) remote ev (conn_view rn))"
  have "cs_swim ?st = mark_alive n 0 (cs_swim (conn_view rn))" "cs_hlc ?st = cs_hlc (conn_view rn)" "cs_app ?st = cs_app (conn_view rn)"
    by (auto simp: craftec_stream_def assms admit_def process_swim_def send_swim_reply_def Let_def split: sum.splits)
  then have "conn_update ?st rn = run_set_endpoint ((cn_endpoint (rn_node rn))\<lparr>ep_swim := mark_alive n 0 (ep_swim (cn_endpoint (rn_node rn)))\<rparr>) rn"
    by (simp add: conn_update_def conn_view_def run_set_endpoint_def run_set_node_def Let_def)
  then show ?thesis by (metis prod.collapse)
qed

lemma dispatch_panics_at:
  assumes "rn_dispatching rn" "rn_read rn < length (event_log (cn_node (rn_node rn)))" "c = event_log (cn_node (rn_node rn)) ! rn_read rn"
    and "send_each N clk (announce_cid_to_peers X c (cn_node (rn_node rn))) (cn_endpoint (rn_node rn)) = None"
  shows "running_step X N Q R W rn (rn\<lparr>rn_dispatching := False\<rparr>)"
proof -
  let ?y = "(dispatch_cid_written X c (dispatch_view rn))\<lparr>ns_read := rn_read rn + 1\<rparr>"
  have "node_step X (dispatch_view rn) ?y" using node_step.dispatch[of "dispatch_view rn" X] assms(2,3) by (simp add: dispatch_view_def)
  moreover have "ns_sent ?y = announce_cid_to_peers X c (cn_node (rn_node rn))"
    by (simp add: dispatch_cid_written_def dispatch_view_def Let_def)
  ultimately show ?thesis using running_step.dispatch_panics[of X rn ?y N clk Q R W] assms(1,4) by simp
qed

text \<open>A node with one event that is not yet dispatched.\<close>

definition demo_running :: "(bytes list, cid \<Rightarrow> bytes option, cid \<times> u32 \<Rightarrow> bytes option, unit, nat) running" where
  "demo_running = (let k = \<lparr>ks_keypair = NodeKeypair (replicate 32 1)\<rparr>
     in run_new \<lparr>cn_config = config_default, cn_keystore = k, cn_node = set_store ((nd_store demo_node)\<lparr>st_event_tx := Some [Cid [5]]\<rparr>) demo_node,
       cn_endpoint = demo_endpoint, cn_runtime = \<lparr>cr_fuel_limit = 1\<rparr>, cn_scheduler = system_new, cn_scheduler_keys = k\<rparr> 0)"

end
