(* ===== verification/Replication.thy ===== *)
theory Replication
  imports Running
begin

text \<open>
  What becomes of redundancy between nodes: the announcement of an object (craftec-net/src/dht.rs, the dispatch
  loop of craftec-node/src/node.rs and handler.rs), the repair of an object (craftec-health/src, engine.rs and
  handler.rs), and the pieces of an object that a peer asks for, each followed from the node where it starts to the
  node where it arrives.
\<close>

section \<open>No fetch is ever pending\<close>

text \<open>
  A fetch is registered by a task that waits for a piece.  No task of the running node does, so the table
  of waiters is empty from the start on, and the handlers change it no more than they change an empty table.
\<close>

definition idle_fetches :: "('b, 'c, 'p, 'g) node \<Rightarrow> bool" where
  "idle_fetches nd \<longleftrightarrow> pf_waiters (nd_pending nd) = []"

lemma resolve_idle: "pf_waiters s = [] \<Longrightarrow> foldl (\<lambda>s p. resolve_piece (cid p) p s) s ps = s"
  by (induction ps) (simp_all add: resolve_piece_def)

lemma message_idle: "idle_fetches nd \<Longrightarrow> nd_pending (snd (node_handle_message X io n msg nd)) = nd_pending nd"
proof (cases msg)
  case (PieceRequest c idx rid)
  then show ?thesis by (auto simp: handle_piece_request_def set_store_def split: prod.splits sum.splits option.splits)
next
  case (SignedWrite payload sig writer ts)
  then show ?thesis by (auto simp: handle_wire_write_def Let_def split: option.splits prod.splits)
qed (simp_all add: idle_fetches_def resolve_idle)

lemma request_idle: "nd_pending (snd (handle_request X io n req nd)) = nd_pending nd"
  by (cases req) (auto simp: set_store_def split: prod.splits sum.splits)

interpretation idle_handlers: connection_handlers "node_handle_message X" "handle_request X" idle_fetches "\<lambda>nd nd'. nd_pending nd' = nd_pending nd" for X
proof (unfold_locales, goal_cases)
  case (1 s io n msg)
  then show ?case using message_idle[OF 1, of X io n msg] by (simp add: idle_fetches_def)
next
  case (2 s io n req)
  then show ?case using request_idle[of X io n req s] by (simp add: idle_fetches_def)
qed simp_all

lemma task_idle:
  "nd_pending (snd (task_start X flt c nd)) = nd_pending nd" "nd_pending (snd (task_store X flt p pcids nd)) = nd_pending nd"
  "nd_pending (task_finish now c pcids nd) = nd_pending nd"
  by (auto simp: task_start_def task_store_def task_finish_def set_store_def Let_def split: sum.splits option.splits prod.splits)

lemma node_step_idle: "node_step X y y' \<Longrightarrow> nd_pending (ns_node y') = nd_pending (ns_node y)"
proof (induction rule: node_step.induct)
  case (start i y c flt t nd)
  then show ?case using task_idle(1)[of X flt c "ns_node y"] by simp
next
  case (store i y c p ps pcids flt pcids' nd)
  then show ?case using task_idle(2)[of X flt p pcids "ns_node y"] by simp
qed (simp_all add: dispatch_cid_written_node task_idle(3))

lemma run_update_idle:
  "nd_pending (cn_node (rn_node (run_set_endpoint ep rn))) = nd_pending (cn_node (rn_node rn))"
  "nd_pending (cn_node (rn_node (run_set_node nd rn))) = nd_pending nd"
  "nd_pending (cn_node (rn_node (conn_update st rn))) = nd_pending (cs_app st)"
  "nd_pending (cn_node (rn_node (swim_update y rn))) = nd_pending (cn_node (rn_node rn))"
  "nd_pending (cn_node (rn_node (dispatch_update y' rn))) = nd_pending (ns_node y')"
  "nd_pending (cn_node (rn_node (repair_update re rn))) = nd_pending (cn_node (rn_node rn))"
  "nd_pending (cn_node (rn_node (host_update h rn))) = nd_pending (cn_node (rn_node rn))"
  by (simp_all add: run_set_endpoint_def run_set_node_def conn_update_def swim_update_def dispatch_update_def repair_update_def host_update_def set_store_def)

lemma running_step_idle:
  "running_step X N Q R W rn rn' \<Longrightarrow> idle_fetches (cn_node (rn_node rn)) \<Longrightarrow> idle_fetches (cn_node (rn_node rn'))"
  unfolding idle_fetches_def
proof (induction rule: running_step.induct)
  case (peer_stream io remote ev rn go st)
  then show ?case
    using idle_handlers.stream_law[where st = "conn_view rn" and X = X and P = "ne_msg N" and io = io and remote = remote and ev = ev]
    by (simp add: run_update_idle idle_fetches_def) (simp add: conn_view_def Let_def)
next
  case (swim_stream ev rn go st)
  then show ?case using swim_stream_app[of "ne_msg N" ev "conn_view rn"] by (simp add: run_update_idle) (simp add: conn_view_def Let_def)
next
  case (outbound_stream ev rn go st)
  then show ?case using outbound_stream_app[of "ne_msg N" ev "conn_view rn"] by (simp add: run_update_idle) (simp add: conn_view_def Let_def)
next
  case (rpc_stream io remote ev rn out st)
  then show ?case
    using idle_handlers.serve_law[where st = "conn_view rn" and X = X and Q = Q and R = R and io = io and remote = remote and ev = ev]
    by (simp add: run_update_idle idle_fetches_def) (simp add: conn_view_def Let_def)
next
  case (dispatching rn y clk ep)
  then show ?case using node_step_idle[of X "dispatch_view rn" y] by (simp add: run_update_idle dispatch_view_def)
qed (simp_all add: run_update_idle dispatch_peer_disconnected_def prune_pending_tick_def prune_dht_tick_def pending_prune_stale_def retain_records_def)

lemma running_idle:
  assumes "node_new X P g io cfg dd = Some (Inr cn, dd')" "(running_step X N Q R W)\<^sup>*\<^sup>* (run_new cn now) rn"
  shows "idle_fetches (cn_node (rn_node rn))"
  using assms(2)
proof (induction rule: rtranclp_induct)
  case base
  have "nd_pending (cn_node cn) = pending_new"
    using assms(1) by (auto simp: node_new_def boot_endpoint_def Let_def bind_eq_Some_conv split: if_splits option.splits sum.splits prod.splits)
  then show ?case by (simp add: idle_fetches_def run_new_def pending_new_def)
next
  case (step rn1 rn2)
  then show ?case using running_step_idle by blast
qed

section \<open>Repairs\<close>

lemma piece_response_ignored: "idle_fetches nd \<Longrightarrow> node_handle_message X io n (PieceResponse ps rid) nd = (None, nd)"
  by (simp add: idle_fetches_def resolve_idle)

lemma piece_response_stream:
  assumes "se_read ev = StreamBytes b" "decode_framed_with_hlc P b = Some (Inr (PieceResponse ps rid, ts))" "idle_fetches (cs_app st)"
  shows "cs_app (snd (craftec_stream P (node_handle_message X io) remote ev st)) = cs_app st"
proof -
  obtain go st1 where a: "admit ev ts st = (go, st1)" by (cases "admit ev ts st")
  have "cs_app st1 = cs_app st" using admit_fields(2)[of ev ts st] a by simp
  then show ?thesis using piece_response_ignored[OF assms(3), of X io remote ps rid]
    by (cases go) (simp_all add: craftec_stream_def assms(1,2) a del: node_handle_message.simps)
qed

text \<open>A node that has encoded an object and knows of no other holder counts 80 pieces, and the scanner wants 96.\<close>

lemma encoded_needs_repair:
  assumes "length pcids = 80" "get_holders (nd_tracker nd) c = []" "get_k (nd_tracker nd) c \<in> {None, Some 32}"
  shows "evaluate_cid (nd_tracker (task_finish t c pcids nd)) c = Some (Normal c 80 96)"
proof -
  let ?t = "nd_tracker (task_finish t c pcids nd)"
  have a: "available_count ?t c = 80"
    using assms(1,2) by (simp add: task_finish_def available_count_def record_piece_def get_holders_def update_conv')
  have "get_k ?t c = get_k (nd_tracker nd) c" by (simp add: task_finish_def get_k_def record_piece_def)
  moreover have "target_piece_count 32 = 96" using scanner_target_exact by blast
  ultimately show ?thesis using assms(3) a by (auto simp: evaluate_cid_def Let_def DEFAULT_K_def)
qed

lemma repair_sends_response: "execute_repair Y flt t sw req re = (r, Some (n, msg), re') \<Longrightarrow> \<exists>ps rid. msg = PieceResponse ps rid"
  by (auto simp: execute_repair_def Let_def split: if_splits sum.splits prod.splits)

text \<open>
  C32. Repair does not converge.  When an object has been encoded and no other holder is known, its 80 pieces
  are below the target of the scanner, which is 96, so a repair is requested.  The repair leaves the
  request standing: the tracker counts no piece more.  What a repair sends is a piece response; and a running
  node that receives one, whatever it has done since its start, stays exactly as it was, because no task of
  a node waits for pieces: the piece is neither stored nor counted.
\<close>

theorem repairs_never_converge:
  fixes ev :: stream_event
  assumes "node_new X P g bio cfg dd = Some (Inr cn, dd')" "(running_step X N Q R W)\<^sup>*\<^sup>* (run_new cn now) rn" "nd = cn_node (rn_node rn)"
    and "length pcids = 80" "get_holders (nd_tracker nd) c = []" "get_k (nd_tracker nd) c \<in> {None, Some 32}"
    and "rn' = run_set_node (task_finish t c pcids nd) rn" "nd' = cn_node (rn_node rn')"
  shows "evaluate_cid (nd_tracker nd') c = Some (Normal c 80 96) \<and>
    (execute_repair (repair_api_of X choice sends nd') flt (nd_tracker nd') (nd_swim nd') (Normal c 80 96) (repair_view rn') = (r, out, re) \<longrightarrow>
       evaluate_cid (nd_tracker (cn_node (rn_node (repair_update re rn')))) c = Some (Normal c 80 96) \<and>
       (out = None \<or> (\<exists>n ps rid. out = Some (n, PieceResponse ps rid)))) \<and>
    (se_read ev = StreamBytes b \<and> decode_framed_with_hlc (ne_msg N) b = Some (Inr (PieceResponse ps rid, ts)) \<longrightarrow>
       cs_app (snd (craftec_stream (ne_msg N) (node_handle_message X io) remote ev (conn_view rn))) = nd)"
proof -
  have e: "evaluate_cid (nd_tracker nd') c = Some (Normal c 80 96)"
    using encoded_needs_repair[OF assms(4-6), of t] by (simp add: assms(7,8) run_set_node_def)
  have "nd_tracker (cn_node (rn_node (repair_update re rn'))) = nd_tracker nd'"
    by (simp add: repair_update_def run_set_node_def set_store_def assms(8))
  moreover have "out = None \<or> (\<exists>n ps rid. out = Some (n, PieceResponse ps rid))"
    if "execute_repair (repair_api_of X choice sends nd') flt (nd_tracker nd') (nd_swim nd') (Normal c 80 96) (repair_view rn') = (r, out, re)"
    using that repair_sends_response by (cases out) (auto, blast)
  moreover have "cs_app (snd (craftec_stream (ne_msg N) (node_handle_message X io) remote ev (conn_view rn))) = nd"
    if "se_read ev = StreamBytes b" "decode_framed_with_hlc (ne_msg N) b = Some (Inr (PieceResponse ps rid, ts))"
    using piece_response_stream[OF that, of "conn_view rn" X io remote] running_idle[OF assms(1,2)] by (simp add: conn_view_def Let_def assms(3))
  ultimately show ?thesis using e by simp
qed

theorem repairs_never_converge_witness:
  "\<exists>(cn :: (bytes list, cid \<Rightarrow> bytes option, cid \<times> u32 \<Rightarrow> bytes option, unit, nat) craftec_node) dd'.
     node_new demo_node_api demo_lru () demo_boot config_default demo_dir = Some (Inr cn, dd') \<and>
     evaluate_cid (nd_tracker (cn_node (rn_node (run_set_node (task_finish 0 (Cid [5]) (replicate 80 (Cid [9])) (cn_node cn)) (run_new cn 0))))) (Cid [5]) =
       Some (Normal (Cid [5]) 80 96) \<and>
     cs_app (snd (craftec_stream fetch_card (node_handle_message demo_node_api demo_node_io) (NodeId [2]) (demo_event (frame (type_tag fetch_reply) 0 [2]))
       (conn_view (run_new cn 0)))) = cn_node cn"
proof -
  let ?none = "\<lparr>pc_encode = \<lambda>_. None, pc_decode = \<lambda>_. None\<rparr>" and ?f = "frame (type_tag fetch_reply) 0 [2]"
  obtain cn :: "(bytes list, cid \<Rightarrow> bytes option, cid \<times> u32 \<Rightarrow> bytes option, unit, nat) craftec_node" and dd'
    where n: "node_new demo_node_api demo_lru () demo_boot config_default demo_dir = Some (Inr cn, dd')"
    using demo_boot_succeeds by blast
  have t: "nd_tracker (cn_node cn) = tracker_new" by (rule node_new_success[OF n demo_boot_api(2)])
  have f: "decode_framed_with_hlc fetch_card ?f = Some (Inr (fetch_reply, 0))"
    using decode_framed_frame[OF fetch_card_facts(1), of fetch_reply "[2]" "type_tag fetch_reply" 0 "[]"] fetch_card_facts(3) by simp
  let ?rn = "run_new cn 0"
  have v: "cn_node (rn_node ?rn) = cn_node cn" by (simp add: run_new_def)
  have r: "(running_step demo_node_api (demo_net fetch_card) ?none ?none demo_wasm)\<^sup>*\<^sup>* ?rn ?rn" by simp
  note x = repairs_never_converge[OF n r refl, of "replicate 80 (Cid [9])" "Cid [5]" _ 0, OF _ _ _ refl refl, unfolded v t, where ev = "demo_event ?f" and b = ?f]
  show ?thesis
    using n x[where io = demo_node_io and remote = "NodeId [2]"] f
    by (auto simp: get_holders_def get_k_def tracker_new_def demo_net_def demo_event_def fetch_reply_def v)
qed

section \<open>Announcements\<close>

lemma get_providers_announce:
  "set (get_providers (announce_provider now c n d) c') = (if c' = c then insert n (set (get_providers d c)) else set (get_providers d c'))"
  by (auto simp: get_providers_def announce_provider_def table_get_update keys_upsert simp flip: set_map)

lemma announce_stream:
  assumes "se_read ev = StreamBytes b" "decode_framed_with_hlc P b = Some (Inr (ProviderAnnounce c n, ts))" "observe_check ts (se_wall ev) = Inr ()"
  shows "cs_app (snd (craftec_stream P (node_handle_message X io) remote ev st)) =
    (cs_app st)\<lparr>nd_dht := announce_provider (ni_now io) c n (nd_dht (cs_app st))\<rparr>"
  using craftec_stream_admitted[OF assms(1,2), where h = "node_handle_message X io" and remote = remote and st = st] assms(3) by simp

text \<open>
  C31. From a written object to the provider table of a peer.  When the event of a written object is the next
  one of the dispatch loop and the peer is its announcement target, the running node dispatches the event: it
  sends the peer one frame and, unless the object is itself a coded piece, starts its encoding.  A running peer whose clock
  admits the frame then lists exactly one provider more for the object, the one the frame names, and
  none for other objects.  The peer does not compare it with the authenticated sender, so this
  holds whoever delivers the frame.
\<close>

theorem announcement_recorded:
  fixes ev :: stream_event
  assumes "postcard_ok (ne_msg N)" "nd = cn_node (rn_node rn)" "ep = cn_endpoint (rn_node rn)"
    and "rn_dispatching rn" "rn_read rn < length (event_log nd)" "c = event_log nd ! rn_read rn"
    and "announce_cid_to_peers X c nd = [(peer, ProviderAnnounce c (nd_id nd))]"
    and "send_message N clk peer (ProviderAnnounce c (nd_id nd)) ep = Some (Inr (), acts, ep')" "Wrote k b \<in> set acts" "length b < 2 ^ 32"
    and "ne_msg N' = ne_msg N" "se_read ev = StreamBytes b" "observe_check (ep_hlc ep') (se_wall ev) = Inr ()"
    and "rn2' = conn_update (snd (craftec_stream (ne_msg N') (node_handle_message X' io) remote ev (conn_view rn2))) rn2"
  shows "(\<exists>rn'. running_step X N Q R W rn rn' \<and> rn_read rn' = rn_read rn + 1 \<and> cn_endpoint (rn_node rn') = ep' \<and>
      rn_encodings rn' = rn_encodings rn @ (if is_piece_cid (nd_index nd) c then [] else [TaskStart c])) \<and>
    running_step X' N' Q' R' W' rn2 rn2' \<and>
    set (get_providers (nd_dht (cn_node (rn_node rn2'))) c') =
      (if c' = c then {nd_id nd} else {}) \<union> set (get_providers (nd_dht (cn_node (rn_node rn2))) c')"
proof -
  let ?y = "(dispatch_cid_written X c (dispatch_view rn))\<lparr>ns_read := rn_read rn + 1\<rparr>"
  have "node_step X (dispatch_view rn) ?y"
    using node_step.dispatch[of "dispatch_view rn" X] assms(2,5,6) by (simp add: dispatch_view_def)
  moreover have "send_each N (\<lambda>_. clk) (ns_sent ?y) (cn_endpoint (rn_node rn)) = Some ep'"
    using assms(2,3,7,8) by (simp add: dispatch_cid_written_def dispatch_view_def Let_def)
  ultimately have "running_step X N Q R W rn (run_set_endpoint ep' (dispatch_update ?y rn))"
    using running_step.dispatching[of X rn ?y N "\<lambda>_. clk" ep' Q R W] assms(4) by simp
  moreover have "rn_encodings (run_set_endpoint ep' (dispatch_update ?y rn)) = rn_encodings rn @ (if is_piece_cid (nd_index nd) c then [] else [TaskStart c])"
    by (simp add: run_set_endpoint_def dispatch_update_def run_set_node_def dispatch_cid_written_def dispatch_view_def Let_def assms(2))
  moreover have "rn_read (run_set_endpoint ep' (dispatch_update ?y rn)) = rn_read rn + 1" "cn_endpoint (rn_node (run_set_endpoint ep' (dispatch_update ?y rn))) = ep'"
    by (simp_all add: run_set_endpoint_def dispatch_update_def run_set_node_def)
  ultimately have one: "\<exists>rn'. running_step X N Q R W rn rn' \<and> rn_read rn' = rn_read rn + 1 \<and> cn_endpoint (rn_node rn') = ep' \<and>
      rn_encodings rn' = rn_encodings rn @ (if is_piece_cid (nd_index nd) c then [] else [TaskStart c])" by blast
  obtain k' b' where f: "encode_framed_with_hlc (ne_msg N) (ProviderAnnounce c (nd_id nd)) (ep_hlc ep') = Inr b'" "Wrote k b \<in> {Reader k' peer, Wrote k' b'}"
    using send_message_sent[OF assms(8)] assms(9) by (auto split: if_splits)
  then have "decode_framed_with_hlc (ne_msg N') b = Some (Inr (ProviderAnnounce c (nd_id nd), ep_hlc ep'))"
    using framed_decodes[OF assms(1) f(1)] assms(10,11) by simp
  note app = announce_stream[OF assms(12) this assms(13), of X' io remote "conn_view rn2"]
  have "nd_dht (cn_node (rn_node rn2')) = announce_provider (ni_now io) c (nd_id nd) (nd_dht (cn_node (rn_node rn2)))"
    by (simp add: assms(14) conn_update_def run_set_endpoint_def run_set_node_def app) (simp add: conn_view_def Let_def)
  then have p: "set (get_providers (nd_dht (cn_node (rn_node rn2'))) c') =
      (if c' = c then {nd_id nd} else {}) \<union> set (get_providers (nd_dht (cn_node (rn_node rn2))) c')"
    by (simp add: get_providers_announce)
  have "running_step X' N' Q' R' W' rn2 rn2'"
    unfolding assms(14) by (rule running_step.peer_stream) (rule prod.collapse[symmetric])
  then show ?thesis using one p by blast
qed

lemma demo_targets: "announce_cid_to_peers demo_node_api (Cid [5]) (cn_node (rn_node demo_running)) = [(NodeId [2], ProviderAnnounce (Cid [5]) (NodeId [1]))]"
proof -
  have "ln 2 \<le> (1 :: real)" using ln_le_minus_one[of 2] by simp
  then have "\<lceil>ln (2 :: real)\<rceil> = 1" by (intro ceiling_unique) simp_all
  then have "announce_count 2 = 1" by (simp add: announce_count_def)
  then show ?thesis
    by (simp add: announce_cid_to_peers_def demo_running_def run_new_def demo_node_def set_store_def demo_swim_def swim_new_def alive_members_def
        demo_node_api_def Let_def numeral_2_eq_2)
qed

theorem announcement_recorded_witness:
  "\<exists>b. set (get_providers (nd_dht (cn_node (rn_node (conn_update (snd (craftec_stream join_card (node_handle_message demo_node_api demo_node_io) (NodeId [1])
      (demo_event b) (conn_view demo_running))) demo_running)))) (Cid [5])) = {NodeId [1]}"
proof -
  let ?m = "ProviderAnnounce (Cid [5]) (NodeId [1])"
  let ?b = "frame (type_tag ?m) 1 [2]" and ?none = "\<lparr>pc_encode = \<lambda>_. None, pc_decode = \<lambda>_. None\<rparr>"
  let ?ep = "demo_endpoint\<lparr>ep_hlc := 1, ep_pool := pool_insert 0 (NodeId [2]) 1 (pool_with_capacity 4)\<rparr>"
  have ok: "postcard_ok join_card" by (auto simp: postcard_ok_def join_card_def)
  have e: "encode_framed_with_hlc join_card ?m 1 = Inr ?b" by (simp add: encode_framed_with_hlc_def join_card_def)
  have s: "send_message (demo_net join_card) demo_clock (NodeId [2]) ?m demo_endpoint = Some (Inr (), [Reader 1 (NodeId [2]), Wrote 1 ?b], ?ep)"
    by (rule demo_send[OF e]) simp
  have v: "cn_endpoint (rn_node demo_running) = demo_endpoint" "event_log (cn_node (rn_node demo_running)) = [Cid [5]]" "nd_id (cn_node (rn_node demo_running)) = NodeId [1]"
    "rn_dispatching demo_running" "rn_read demo_running = 0" "nd_dht (cn_node (rn_node demo_running)) = dht_new"
    by (simp_all add: demo_running_def run_new_def event_log_def nd_store_def set_store_def demo_node_def Let_def)
  have n: "ne_msg (demo_net join_card) = join_card" by (simp add: demo_net_def)
  have f: "postcard_ok (ne_msg (demo_net join_card))" "rn_read demo_running < length (event_log (cn_node (rn_node demo_running)))"
    "Cid [5] = event_log (cn_node (rn_node demo_running)) ! rn_read demo_running"
    "announce_cid_to_peers demo_node_api (Cid [5]) (cn_node (rn_node demo_running)) = [(NodeId [2], ProviderAnnounce (Cid [5]) (nd_id (cn_node (rn_node demo_running))))]"
    "send_message (demo_net join_card) demo_clock (NodeId [2]) (ProviderAnnounce (Cid [5]) (nd_id (cn_node (rn_node demo_running)))) demo_endpoint =
      Some (Inr (), [Reader 1 (NodeId [2]), Wrote 1 ?b], ?ep)"
    by (simp_all only: v n ok s demo_targets list.size nth_Cons_0)
  have g: "Wrote 1 ?b \<in> set [Reader 1 (NodeId [2]), Wrote 1 ?b]" "length ?b < 2 ^ 32" "se_read (demo_event ?b) = StreamBytes ?b"
    "observe_check (ep_hlc ?ep) (se_wall (demo_event ?b)) = Inr ()"
    by (simp_all add: demo_event_def demo_clock_facts frame_def)
  note r = announcement_recorded[OF f(1) refl v(1)[symmetric] v(4) f(2-5) g(1,2) refl g(3,4) refl, where ?rn2.0 = demo_running and X' = demo_node_api
      and io = demo_node_io and remote = "NodeId [1]" and c' = "Cid [5]" and Q = ?none and R = ?none and W = demo_wasm and Q' = ?none and R' = ?none and W' = demo_wasm]
  show ?thesis by (rule exI[of _ ?b]) (use conjunct2[OF conjunct2[OF r]] in \<open>simp add: n v get_providers_def dht_new_def\<close>)
qed

section \<open>Objects\<close>

lemma valid_pieces_decode:
  assumes "encoder_new B d k = Inr e" "list_all (valid_piece B c (piece_size e) (original_pieces e)) ps"
  shows "if pieces_span k ps
    then decode_body m k (piece_size e) ps = (Inr (d @ replicate (k * piece_size e - length d) 0), m\<lparr>decodes := decodes m + 1\<rparr>)
    else \<exists>r < k. decode_body m k (piece_size e) ps = (Inl (InsufficientPieces r k), m)"
proof -
  note e = encoder_new_cases[OF assms(1)]
  have S: "length (original_pieces e) = k" "all_len (piece_size e) (original_pieces e)"
    using e(1,2) by (auto simp: encoder_wf_def)
  have a: "\<forall>p \<in> set ps. fits_dims k (piece_size e) p \<and> agrees k (piece_size e) (original_pieces e) (\<lambda>j. to_gf ((coding_vector p @ data p) ! j))"
    using assms(2) valid_piece_agrees[OF _ S(2)] S(1) unfolding list_all_iff fits_dims_def by blast
  then have "filter (fits_dims k (piece_size e)) ps = ps" by (simp add: filter_id_conv)
  with decode_body_cases[OF S, of ps m] a e(4) show ?thesis by simp
qed



end
