(* ===== verification/Event_Bus.thy ===== *)
theory Event_Bus
  imports Types
begin

text \<open>
  The event bus of the node (\<open>craftec-node/src/event_bus.rs\<close>), a wrapper of the broadcast channel of \<open>tokio\<close>,
  which is a parameter.  The documented laws of the channel are stated on the events sent so far and on
  the position of each receiver in them.  What a subscriber of the bus receives is then exactly what was
  published since it subscribed, in order, except for the oldest events when it is further behind than
  the channel can hold.
\<close>

section \<open>The broadcast channel\<close>

text \<open>What receiving gives: an event, the number of events lost, or nothing yet.\<close>

datatype recv = Received event | Lagged nat | Waits

record 's broadcast =
  bc_channel :: "nat \<Rightarrow> 's"
  bc_send :: "'s \<Rightarrow> event \<Rightarrow> nat option \<times> 's"
  bc_subscribe :: "'s \<Rightarrow> nat \<times> 's"
  bc_recv :: "'s \<Rightarrow> nat \<Rightarrow> recv \<times> 's"
  bc_receiver_count :: "'s \<Rightarrow> nat"

text \<open>The observations on which the laws are stated: what was sent, where each receiver is, and how much is held.\<close>

record 's channel_view =
  cv_sent :: "'s \<Rightarrow> event list"
  cv_pos :: "'s \<Rightarrow> nat \<rightharpoonup> nat"
  cv_cap :: "'s \<Rightarrow> nat"

definition broadcast_ok :: "'s broadcast \<Rightarrow> 's channel_view \<Rightarrow> bool" where
  "broadcast_ok B V \<longleftrightarrow>
     (\<forall>n. 0 < n \<longrightarrow> cv_sent V (bc_channel B n) = [] \<and> cv_pos V (bc_channel B n) = Map.empty \<and> n \<le> cv_cap V (bc_channel B n)) \<and>
     (\<forall>s e. let (r, s') = bc_send B s e
        in cv_pos V s' = cv_pos V s \<and> cv_cap V s' = cv_cap V s \<and>
           (if cv_pos V s = Map.empty then r = None \<and> cv_sent V s' = cv_sent V s
            else r = Some (card (dom (cv_pos V s))) \<and> cv_sent V s' = cv_sent V s @ [e])) \<and>
     (\<forall>s. let (i, s') = bc_subscribe B s
        in cv_pos V s i = None \<and> cv_pos V s' = (cv_pos V s)(i \<mapsto> length (cv_sent V s)) \<and> cv_sent V s' = cv_sent V s \<and> cv_cap V s' = cv_cap V s) \<and>
     (\<forall>s i p. cv_pos V s i = Some p \<longrightarrow>
        (let (r, s') = bc_recv B s i; n = length (cv_sent V s); m = n - cv_cap V s
         in cv_sent V s' = cv_sent V s \<and> cv_cap V s' = cv_cap V s \<and>
            (if p = n then r = Waits \<and> cv_pos V s' = cv_pos V s
             else if p < m then r = Lagged (m - p) \<and> cv_pos V s' = (cv_pos V s)(i \<mapsto> m)
             else r = Received (cv_sent V s ! p) \<and> cv_pos V s' = (cv_pos V s)(i \<mapsto> p + 1)))) \<and>
     (\<forall>s i p. cv_pos V s i = Some p \<longrightarrow> p \<le> length (cv_sent V s)) \<and>
     (\<forall>s. bc_receiver_count B s = card (dom (cv_pos V s)))"

section \<open>The bus\<close>

record 's event_bus =
  eb_sender :: 's

definition bus_new :: "'s broadcast \<Rightarrow> nat \<Rightarrow> 's event_bus" where
  "bus_new B capacity = \<lparr>eb_sender = bc_channel B capacity\<rparr>"

text \<open>An event that nobody receives is dropped with a warning.\<close>

definition publish :: "'s broadcast \<Rightarrow> event \<Rightarrow> 's event_bus \<Rightarrow> 's event_bus" where
  "publish B e bus =
     (case bc_send B (eb_sender bus) e of
        (Some receivers, s) \<Rightarrow> bus\<lparr>eb_sender := s\<rparr>
      | (None, s) \<Rightarrow> bus\<lparr>eb_sender := s\<rparr>)"

definition subscribe :: "'s broadcast \<Rightarrow> 's event_bus \<Rightarrow> nat \<times> 's event_bus" where
  "subscribe B bus = (case bc_subscribe B (eb_sender bus) of (i, s) \<Rightarrow> (i, bus\<lparr>eb_sender := s\<rparr>))"

definition receiver_count :: "'s broadcast \<Rightarrow> 's event_bus \<Rightarrow> nat" where
  "receiver_count B bus = bc_receiver_count B (eb_sender bus)"

text \<open>A task that publishes holds a clone of the sender, so its events go the same way.\<close>

fun publish_all :: "'s broadcast \<Rightarrow> event list \<Rightarrow> 's event_bus \<Rightarrow> 's event_bus" where
  "publish_all B [] bus = bus"
| "publish_all B (e # es) bus = publish_all B es (publish B e bus)"

text \<open>A subscriber that receives \<open>n\<close> times, as the dispatch loop does, goes on after a lag.\<close>

fun receive :: "'s broadcast \<Rightarrow> nat \<Rightarrow> nat \<Rightarrow> 's event_bus \<Rightarrow> event list \<times> 's event_bus" where
  "receive B i 0 bus = ([], bus)"
| "receive B i (Suc n) bus =
     (case bc_recv B (eb_sender bus) i of
        (Received e, s) \<Rightarrow> (case receive B i n (bus\<lparr>eb_sender := s\<rparr>) of (es, bus') \<Rightarrow> (e # es, bus'))
      | (Lagged k, s) \<Rightarrow> receive B i n (bus\<lparr>eb_sender := s\<rparr>)
      | (Waits, s) \<Rightarrow> ([], bus\<lparr>eb_sender := s\<rparr>))"

section \<open>What a subscriber receives\<close>

definition bus_sent :: "'s channel_view \<Rightarrow> 's event_bus \<Rightarrow> event list" where
  "bus_sent V bus = cv_sent V (eb_sender bus)"

definition bus_pos :: "'s channel_view \<Rightarrow> 's event_bus \<Rightarrow> nat \<rightharpoonup> nat" where
  "bus_pos V bus = cv_pos V (eb_sender bus)"

definition bus_cap :: "'s channel_view \<Rightarrow> 's event_bus \<Rightarrow> nat" where
  "bus_cap V bus = cv_cap V (eb_sender bus)"

lemma publish_effect:
  assumes "broadcast_ok B V"
  shows "bus_pos V (publish B e bus) = bus_pos V bus" "bus_cap V (publish B e bus) = bus_cap V bus"
    and "bus_sent V (publish B e bus) = (if bus_pos V bus = Map.empty then bus_sent V bus else bus_sent V bus @ [e])"
proof -
  obtain r s where b: "bc_send B (eb_sender bus) e = (r, s)" by (cases "bc_send B (eb_sender bus) e")
  have "let (r, s') = bc_send B (eb_sender bus) e
        in cv_pos V s' = cv_pos V (eb_sender bus) \<and> cv_cap V s' = cv_cap V (eb_sender bus) \<and>
           (if cv_pos V (eb_sender bus) = Map.empty then r = None \<and> cv_sent V s' = cv_sent V (eb_sender bus)
            else r = Some (card (dom (cv_pos V (eb_sender bus)))) \<and> cv_sent V s' = cv_sent V (eb_sender bus) @ [e])"
    using assms unfolding broadcast_ok_def by blast
  then have "cv_pos V s = cv_pos V (eb_sender bus)" "cv_cap V s = cv_cap V (eb_sender bus)"
    "cv_sent V s = (if cv_pos V (eb_sender bus) = Map.empty then cv_sent V (eb_sender bus) else cv_sent V (eb_sender bus) @ [e])"
    by (auto simp: b split: if_splits)
  moreover have "eb_sender (publish B e bus) = s" by (simp add: publish_def b split: option.split)
  ultimately show "bus_pos V (publish B e bus) = bus_pos V bus" "bus_cap V (publish B e bus) = bus_cap V bus"
    "bus_sent V (publish B e bus) = (if bus_pos V bus = Map.empty then bus_sent V bus else bus_sent V bus @ [e])"
    by (simp_all add: bus_pos_def bus_cap_def bus_sent_def)
qed

lemma subscribe_effect:
  assumes "broadcast_ok B V" "subscribe B bus = (i, bus')"
  shows "bus_pos V bus i = None" "bus_pos V bus' = (bus_pos V bus)(i \<mapsto> length (bus_sent V bus))"
    and "bus_sent V bus' = bus_sent V bus" "bus_cap V bus' = bus_cap V bus"
proof -
  obtain s where b: "bc_subscribe B (eb_sender bus) = (i, s)" "bus' = bus\<lparr>eb_sender := s\<rparr>"
    using assms(2) by (auto simp: subscribe_def split: prod.splits)
  have "let (i, s') = bc_subscribe B (eb_sender bus) in cv_pos V (eb_sender bus) i = None \<and>
      cv_pos V s' = (cv_pos V (eb_sender bus))(i \<mapsto> length (cv_sent V (eb_sender bus))) \<and>
      cv_sent V s' = cv_sent V (eb_sender bus) \<and> cv_cap V s' = cv_cap V (eb_sender bus)"
    using assms(1) unfolding broadcast_ok_def by blast
  then show "bus_pos V bus i = None" "bus_pos V bus' = (bus_pos V bus)(i \<mapsto> length (bus_sent V bus))"
    "bus_sent V bus' = bus_sent V bus" "bus_cap V bus' = bus_cap V bus"
    by (simp_all add: b bus_pos_def bus_sent_def bus_cap_def)
qed

lemma recv_effect:
  assumes "broadcast_ok B V" "bus_pos V bus i = Some p" "bc_recv B (eb_sender bus) i = (r, s)"
  shows "bus_sent V (bus\<lparr>eb_sender := s\<rparr>) = bus_sent V bus" "bus_cap V (bus\<lparr>eb_sender := s\<rparr>) = bus_cap V bus"
    and "let n = length (bus_sent V bus); m = n - bus_cap V bus
      in if p = n then r = Waits \<and> bus_pos V (bus\<lparr>eb_sender := s\<rparr>) = bus_pos V bus
         else if p < m then r = Lagged (m - p) \<and> bus_pos V (bus\<lparr>eb_sender := s\<rparr>) i = Some m
         else r = Received (bus_sent V bus ! p) \<and> bus_pos V (bus\<lparr>eb_sender := s\<rparr>) i = Some (p + 1)"
proof -
  let ?s = "eb_sender bus"
  have "let (r, s') = bc_recv B ?s i; n = length (cv_sent V ?s); m = n - cv_cap V ?s
         in cv_sent V s' = cv_sent V ?s \<and> cv_cap V s' = cv_cap V ?s \<and>
            (if p = n then r = Waits \<and> cv_pos V s' = cv_pos V ?s
             else if p < m then r = Lagged (m - p) \<and> cv_pos V s' = (cv_pos V ?s)(i \<mapsto> m)
             else r = Received (cv_sent V ?s ! p) \<and> cv_pos V s' = (cv_pos V ?s)(i \<mapsto> p + 1))"
    using assms(1,2) unfolding broadcast_ok_def bus_pos_def by blast
  then show "bus_sent V (bus\<lparr>eb_sender := s\<rparr>) = bus_sent V bus" "bus_cap V (bus\<lparr>eb_sender := s\<rparr>) = bus_cap V bus"
    "let n = length (bus_sent V bus); m = n - bus_cap V bus
      in if p = n then r = Waits \<and> bus_pos V (bus\<lparr>eb_sender := s\<rparr>) = bus_pos V bus
         else if p < m then r = Lagged (m - p) \<and> bus_pos V (bus\<lparr>eb_sender := s\<rparr>) i = Some m
         else r = Received (bus_sent V bus ! p) \<and> bus_pos V (bus\<lparr>eb_sender := s\<rparr>) i = Some (p + 1)"
    by (auto simp: assms(3) bus_sent_def bus_cap_def bus_pos_def Let_def split: if_splits)
qed

lemma receive_kept_up:
  "broadcast_ok B V \<Longrightarrow> bus_pos V bus i = Some p \<Longrightarrow> p \<le> length (bus_sent V bus) \<Longrightarrow> length (bus_sent V bus) - bus_cap V bus \<le> p \<Longrightarrow>
   fst (receive B i n bus) = take n (drop p (bus_sent V bus))"
proof (induction n arbitrary: bus p)
  case (Suc n)
  obtain r s where r: "bc_recv B (eb_sender bus) i = (r, s)" by (cases "bc_recv B (eb_sender bus) i")
  note e = recv_effect[OF Suc.prems(1,2) r]
  show ?case
  proof (cases "p = length (bus_sent V bus)")
    case True
    then show ?thesis using e(3) by (simp add: r Let_def)
  next
    case False
    then have x: "r = Received (bus_sent V bus ! p)" "bus_pos V (bus\<lparr>eb_sender := s\<rparr>) i = Some (p + 1)" using e(3) Suc.prems(4) by (simp_all add: Let_def)
    have "fst (receive B i n (bus\<lparr>eb_sender := s\<rparr>)) = take n (drop (p + 1) (bus_sent V bus))"
      using Suc.IH[OF Suc.prems(1) x(2)] False Suc.prems(3,4) e(1,2) by simp
    then show ?thesis using False Suc.prems(3)
      by (simp add: r x(1) case_prod_beta Cons_nth_drop_Suc[symmetric])
  qed
qed simp

lemma publish_all_effect:
  assumes "broadcast_ok B V" "bus_pos V bus i = Some p"
  shows "bus_pos V (publish_all B es bus) = bus_pos V bus \<and> bus_cap V (publish_all B es bus) = bus_cap V bus \<and>
    bus_sent V (publish_all B es bus) = bus_sent V bus @ es"
  using assms(2)
proof (induction es arbitrary: bus)
  case (Cons e es)
  have "bus_pos V bus \<noteq> Map.empty" using Cons.prems by auto
  then show ?case using Cons.IH[of "publish B e bus"] Cons.prems publish_effect[OF assms(1), of e bus] by simp
qed simp

text \<open>
  A subscriber that receives after a burst gets the burst without its oldest events: as many are lost as the
  burst exceeds what the channel holds.  A lag costs one more attempt.
\<close>

lemma burst_received:
  assumes "broadcast_ok B V" "subscribe B bus = (i, bus')" "length es < n"
  shows "fst (receive B i n (publish_all B es bus')) = drop (length es - bus_cap V bus) es"
proof -
  note s = subscribe_effect[OF assms(1,2)]
  let ?b = "publish_all B es bus'" and ?p = "length (bus_sent V bus)"
  have b: "bus_pos V ?b i = Some ?p" "bus_cap V ?b = bus_cap V bus" "bus_sent V ?b = bus_sent V bus @ es"
    using publish_all_effect[OF assms(1), of bus' i ?p es] s by simp_all
  show ?thesis
  proof (cases "length es \<le> bus_cap V bus")
    case True
    then show ?thesis using receive_kept_up[OF assms(1) b(1), of n] b assms(3) by simp
  next
    case False
    let ?m = "length (bus_sent V ?b) - bus_cap V bus"
    obtain n' where n: "n = Suc n'" using assms(3) by (cases n) simp_all
    obtain r s' where r: "bc_recv B (eb_sender ?b) i = (r, s')" by (cases "bc_recv B (eb_sender ?b) i")
    note e = recv_effect[OF assms(1) b(1) r]
    have "es \<noteq> []" using False by auto
    then have c: "?p \<noteq> length (bus_sent V bus @ es)" "?p < ?m" using False by (auto simp: b(3))
    then have x: "r = Lagged (?m - ?p)" "bus_pos V (?b\<lparr>eb_sender := s'\<rparr>) i = Some ?m" using e(3) b(2,3) by (auto simp: Let_def)
    have "fst (receive B i n ?b) = take n' (drop ?m (bus_sent V ?b))"
      using receive_kept_up[OF assms(1) x(2), of n'] e(1,2) b(2) by (simp add: n r x(1))
    also have "drop ?m (bus_sent V ?b) = drop (length es - bus_cap V bus) es" using False by (simp add: b(3))
    finally show ?thesis using assms(3) n by simp
  qed
qed

section \<open>A concrete channel\<close>

text \<open>A list of events with a list of positions, which has the documented laws.\<close>

record list_channel =
  ch_cap :: nat
  ch_sent :: "event list"
  ch_pos :: "nat list"

definition list_pos :: "list_channel \<Rightarrow> nat \<rightharpoonup> nat" where
  "list_pos s i = (if i < length (ch_pos s) then Some (min (ch_pos s ! i) (length (ch_sent s))) else None)"

definition list_view :: "list_channel channel_view" where
  "list_view = \<lparr>cv_sent = ch_sent, cv_pos = list_pos, cv_cap = ch_cap\<rparr>"

definition list_recv :: "list_channel \<Rightarrow> nat \<Rightarrow> recv \<times> list_channel" where
  "list_recv s i =
     (case list_pos s i of
        None \<Rightarrow> (Waits, s)
      | Some p \<Rightarrow>
          let n = length (ch_sent s); m = n - ch_cap s
          in if p = n then (Waits, s)
             else if p < m then (Lagged (m - p), s\<lparr>ch_pos := (ch_pos s)[i := m]\<rparr>)
             else (Received (ch_sent s ! p), s\<lparr>ch_pos := (ch_pos s)[i := p + 1]\<rparr>))"

definition list_broadcast :: "list_channel broadcast" where
  "list_broadcast = \<lparr>bc_channel = \<lambda>n. \<lparr>ch_cap = n, ch_sent = [], ch_pos = []\<rparr>,
     bc_send = \<lambda>s e. if ch_pos s = [] then (None, s)
       else (Some (length (ch_pos s)), s\<lparr>ch_sent := ch_sent s @ [e], ch_pos := map (min (length (ch_sent s))) (ch_pos s)\<rparr>),
     bc_subscribe = \<lambda>s. (length (ch_pos s), s\<lparr>ch_pos := ch_pos s @ [length (ch_sent s)]\<rparr>),
     bc_recv = list_recv, bc_receiver_count = \<lambda>s. length (ch_pos s)\<rparr>"

lemma dom_list_pos: "dom (list_pos s) = {..<length (ch_pos s)}"
  by (auto simp: list_pos_def dom_def)

lemma list_pos_empty: "list_pos s = Map.empty \<longleftrightarrow> ch_pos s = []"
  using dom_list_pos[of s] by (metis dom_eq_empty_conv length_0_conv lessThan_empty_iff)

lemma list_broadcast_ok: "broadcast_ok list_broadcast list_view"
  unfolding broadcast_ok_def
proof (intro conjI)
  show "\<forall>s e. let (r, s') = bc_send list_broadcast s e
        in cv_pos list_view s' = cv_pos list_view s \<and> cv_cap list_view s' = cv_cap list_view s \<and>
           (if cv_pos list_view s = Map.empty then r = None \<and> cv_sent list_view s' = cv_sent list_view s
            else r = Some (card (dom (cv_pos list_view s))) \<and> cv_sent list_view s' = cv_sent list_view s @ [e])"
    by (auto simp: list_broadcast_def list_view_def list_pos_empty dom_list_pos) (auto simp: list_pos_def fun_eq_iff)
  show "\<forall>s. let (i, s') = bc_subscribe list_broadcast s
        in cv_pos list_view s i = None \<and> cv_pos list_view s' = (cv_pos list_view s)(i \<mapsto> length (cv_sent list_view s)) \<and>
           cv_sent list_view s' = cv_sent list_view s \<and> cv_cap list_view s' = cv_cap list_view s"
    by (auto simp: list_broadcast_def list_view_def list_pos_def fun_eq_iff nth_append)
  show "\<forall>s i p. cv_pos list_view s i = Some p \<longrightarrow>
        (let (r, s') = bc_recv list_broadcast s i; n = length (cv_sent list_view s); m = n - cv_cap list_view s
         in cv_sent list_view s' = cv_sent list_view s \<and> cv_cap list_view s' = cv_cap list_view s \<and>
            (if p = n then r = Waits \<and> cv_pos list_view s' = cv_pos list_view s
             else if p < m then r = Lagged (m - p) \<and> cv_pos list_view s' = (cv_pos list_view s)(i \<mapsto> m)
             else r = Received (cv_sent list_view s ! p) \<and> cv_pos list_view s' = (cv_pos list_view s)(i \<mapsto> p + 1)))"
    by (auto simp: list_broadcast_def list_view_def list_recv_def Let_def) (auto simp: list_pos_def fun_eq_iff nth_list_update split: if_splits)
qed (auto simp: list_broadcast_def list_view_def dom_list_pos list_pos_def fun_eq_iff split: if_splits)

end
