(* ===== verification/Shutdown.thy ===== *)
theory Shutdown
  imports Running Event_Bus
begin

text \<open>
  The end of a run (\<open>craftec-node/src/shutdown.rs\<close> and the end of \<open>CraftecNode::run\<close> in \<open>node.rs\<close>): the node
  waits for a signal of the operating system, tells its background tasks to stop, waits for them for at
  most five seconds, aborts those that are left, and removes the lock.  The eight tasks that \<open>run\<close>
  has put into its join set are modelled by where they are in their loops; a task notices the
  shutdown only where it selects between its work and the shutdown channel.
\<close>

section \<open>The signal\<close>

datatype os_signal = SIGINT | SIGTERM | OtherSignal

text \<open>\<open>None\<close> is the panic when a handler cannot be installed, \<open>Some None\<close> that no signal has come yet.\<close>

definition wait_for_shutdown :: "bool \<Rightarrow> bool \<Rightarrow> os_signal list \<Rightarrow> os_signal option option" where
  "wait_for_shutdown ctrl_c_ok terminate_ok sigs =
     (if \<not> ctrl_c_ok \<or> \<not> terminate_ok then None else Some (find (\<lambda>s. s \<in> {SIGINT, SIGTERM}) sigs))"

section \<open>The background tasks while they stop\<close>

datatype bg_task = StorageBootstrap | AcceptLoop | SwimLoop | ScanLoop | RepairExecutor | DispatchLoop | PendingPruner | ProviderPruner

text \<open>
  A task sleeps or waits inside its \<open>select!\<close>, where it also hears the shutdown, or works in the body of a
  branch, where it does not.  The accept loop is itself a branch, so it can always be interrupted.
\<close>

datatype phase = InSleep nat | InSelect | InBody | Over

definition SHUTDOWN_TIMEOUT :: nat where "SHUTDOWN_TIMEOUT = 5000"

text \<open>How long a task sleeps between two rounds, in milliseconds.\<close>

fun task_period :: "node_config \<Rightarrow> bg_task \<Rightarrow> nat" where
  "task_period cfg SwimLoop = DEFAULT_PROTOCOL_PERIOD"
| "task_period cfg ScanLoop = 1000 * unat (cf_health_scan_cycle_secs cfg)"
| "task_period cfg StorageBootstrap = 1000"
| "task_period cfg PendingPruner = 60000"
| "task_period cfg ProviderPruner = 60000"
| "task_period cfg _ = 0"

text \<open>
  The counts are the batches that the first announcements have left, the requests that the scanner has to
  send and those in the channel, and the events before the \<open>ShutdownSignal\<close> on the bus.  \<open>sp_returned\<close> is
  set when the waiting ends, to whether tasks had to be aborted.
\<close>

record stopping =
  sp_elapsed :: nat
  sp_phase :: "bg_task \<Rightarrow> phase"
  sp_batches :: nat
  sp_submitting :: nat
  sp_requests :: nat
  sp_events :: nat
  sp_returned :: "bool option"

definition sleep_less :: "phase \<Rightarrow> phase" where
  "sleep_less p = (case p of InSleep (Suc n) \<Rightarrow> InSleep n | _ \<Rightarrow> p)"

definition set_bg :: "bg_task \<Rightarrow> phase \<Rightarrow> stopping \<Rightarrow> stopping" where
  "set_bg t p s = s\<lparr>sp_phase := (sp_phase s)(t := p)\<rparr>"

text \<open>Sending the requests of a scan, and stopping when the executor has dropped its end of the channel.\<close>

definition submit_request :: "stopping \<Rightarrow> stopping option" where
  "submit_request s =
     (if sp_phase s RepairExecutor = Over then Some (set_bg ScanLoop Over s)
      else if sp_requests s < REPAIR_CHANNEL_CAPACITY
      then Some (s\<lparr>sp_submitting := sp_submitting s - 1, sp_requests := sp_requests s + 1\<rparr>)
      else None)"

inductive task_step :: "node_config \<Rightarrow> stopping \<Rightarrow> stopping \<Rightarrow> bool" for cfg where
  hears: "sp_phase s t = InSelect \<or> sp_phase s t = InSleep n \<Longrightarrow> task_step cfg s (set_bg t Over s)"
| panics: "sp_phase s t = InBody \<Longrightarrow> task_step cfg s (set_bg t Over s)"
| wakes: "t \<in> {SwimLoop, PendingPruner, ProviderPruner} \<Longrightarrow> sp_phase s t = InSleep 0 \<Longrightarrow> task_step cfg s (set_bg t InBody s)"
| rests: "t \<in> {SwimLoop, PendingPruner, ProviderPruner} \<Longrightarrow> sp_phase s t = InBody \<Longrightarrow> task_step cfg s (set_bg t (InSleep (task_period cfg t)) s)"
| scans: "sp_phase s ScanLoop = InSleep 0 \<Longrightarrow> task_step cfg s ((set_bg ScanLoop InBody s)\<lparr>sp_submitting := m\<rparr>)"
| submits: "sp_phase s ScanLoop = InBody \<Longrightarrow> 0 < sp_submitting s \<Longrightarrow> submit_request s = Some s' \<Longrightarrow> task_step cfg s s'"
| scanned: "sp_phase s ScanLoop = InBody \<Longrightarrow> sp_submitting s = 0 \<Longrightarrow> task_step cfg s (set_bg ScanLoop (InSleep (task_period cfg ScanLoop)) s)"
| repairs: "sp_phase s RepairExecutor = InSelect \<Longrightarrow> 0 < sp_requests s \<Longrightarrow>
    task_step cfg s ((set_bg RepairExecutor InBody s)\<lparr>sp_requests := sp_requests s - 1\<rparr>)"
| repaired: "sp_phase s RepairExecutor = InBody \<Longrightarrow> task_step cfg s (set_bg RepairExecutor InSelect s)"
| dispatches: "sp_phase s DispatchLoop = InSelect \<Longrightarrow> 0 < sp_events s \<Longrightarrow>
    task_step cfg s ((set_bg DispatchLoop InBody s)\<lparr>sp_events := sp_events s - 1\<rparr>)"
| lags: "sp_phase s DispatchLoop = InSelect \<Longrightarrow> k < sp_events s \<Longrightarrow> task_step cfg s (s\<lparr>sp_events := k\<rparr>)"
| dispatched: "sp_phase s DispatchLoop = InBody \<Longrightarrow> task_step cfg s (set_bg DispatchLoop InSelect s)"
| signalled: "sp_phase s DispatchLoop = InSelect \<Longrightarrow> sp_events s = 0 \<Longrightarrow> task_step cfg s (set_bg DispatchLoop Over s)"
| announced: "sp_phase s StorageBootstrap = InBody \<Longrightarrow>
    task_step cfg s (set_bg StorageBootstrap (if sp_batches s = 0 then Over else InSleep (task_period cfg StorageBootstrap)) s)"
| announces: "sp_phase s StorageBootstrap = InSleep 0 \<Longrightarrow> task_step cfg s ((set_bg StorageBootstrap InBody s)\<lparr>sp_batches := sp_batches s - 1\<rparr>)"

inductive_cases task_stepE: "task_step cfg s s'"

text \<open>What \<open>run\<close> does meanwhile: it waits until all tasks are joined or the time is over.\<close>

inductive stop_step :: "node_config \<Rightarrow> stopping \<Rightarrow> stopping \<Rightarrow> bool" for cfg where
  task: "sp_returned s = None \<Longrightarrow> task_step cfg s s' \<Longrightarrow> stop_step cfg s s'"
| tick: "sp_returned s = None \<Longrightarrow> sp_elapsed s < SHUTDOWN_TIMEOUT \<Longrightarrow>
    stop_step cfg s (s\<lparr>sp_elapsed := sp_elapsed s + 1, sp_phase := \<lambda>t. sleep_less (sp_phase s t)\<rparr>)"
| joined: "sp_returned s = None \<Longrightarrow> \<forall>t. sp_phase s t = Over \<Longrightarrow> stop_step cfg s (s\<lparr>sp_returned := Some False\<rparr>)"
| timed_out: "sp_returned s = None \<Longrightarrow> sp_elapsed s = SHUTDOWN_TIMEOUT \<Longrightarrow> sp_phase s t \<noteq> Over \<Longrightarrow>
    stop_step cfg s (s\<lparr>sp_returned := Some True\<rparr>)"

text \<open>The lock is removed after the waiting.\<close>

definition run_end :: "bool \<Rightarrow> stopping \<Rightarrow> data_dir \<Rightarrow> data_dir option" where
  "run_end remove_ok s dd = (if sp_returned s = None then None else Some (node_shutdown remove_ok dd))"

section \<open>Every shutdown ends\<close>

text \<open>
  A round of a task that sleeps needs time, the events before the signal and the requests are finitely many,
  and a scan comes before the requests it makes.
\<close>

fun phase_rank :: "phase \<Rightarrow> nat" where
  "phase_rank Over = 0"
| "phase_rank InSelect = 1"
| "phase_rank (InSleep (Suc n)) = 1"
| "phase_rank InBody = 2"
| "phase_rank (InSleep 0) = 3"

definition other_ranks :: "stopping \<Rightarrow> nat" where
  "other_ranks s = sum_list (map (\<lambda>t. phase_rank (sp_phase s t)) [StorageBootstrap, AcceptLoop, SwimLoop, RepairExecutor, DispatchLoop, PendingPruner, ProviderPruner])"

definition stop_measure :: "stopping \<Rightarrow> nat \<times> nat \<times> nat \<times> nat" where
  "stop_measure s = (SHUTDOWN_TIMEOUT - sp_elapsed s, phase_rank (sp_phase s ScanLoop), sp_submitting s,
     3 * sp_requests s + 3 * sp_events s + other_ranks s)"

definition stop_order :: "((nat \<times> nat \<times> nat \<times> nat) \<times> nat \<times> nat \<times> nat \<times> nat) set" where
  "stop_order = less_than <*lex*> less_than <*lex*> less_than <*lex*> less_than"

lemma rank_sleeping: "0 < n \<Longrightarrow> phase_rank (InSleep n) = 1"
  by (cases n) simp_all

lemma rank_pos: "p \<noteq> Over \<Longrightarrow> 0 < phase_rank p"
  by (cases p rule: phase_rank.cases) simp_all

lemma set_bg_less:
  assumes "phase_rank p < phase_rank (sp_phase s t)"
  shows "(stop_measure (set_bg t p s), stop_measure s) \<in> stop_order"
  using assms by (cases t) (simp_all add: stop_measure_def stop_order_def set_bg_def other_ranks_def)

lemma task_step_less:
  assumes "task_step cfg s s'" "0 < cf_health_scan_cycle_secs cfg"
  shows "(stop_measure s', stop_measure s) \<in> stop_order"
  using assms(1)
proof cases
  case (hears t n)
  then show ?thesis using rank_pos[of "sp_phase s t"] by (auto intro!: set_bg_less)
next
  case (submits)
  then show ?thesis
    by (auto simp: submit_request_def stop_measure_def stop_order_def set_bg_def split: if_splits)
next
  case (scans m)
  then show ?thesis by (simp add: stop_measure_def stop_order_def set_bg_def)
next
  case (repairs)
  then show ?thesis by (simp add: stop_measure_def stop_order_def set_bg_def other_ranks_def)
next
  case (dispatches)
  then show ?thesis by (simp add: stop_measure_def stop_order_def set_bg_def other_ranks_def)
next
  case (lags k)
  then show ?thesis by (simp add: stop_measure_def stop_order_def other_ranks_def)
next
  case (announces)
  then show ?thesis by (simp add: stop_measure_def stop_order_def set_bg_def other_ranks_def)
qed (use assms(2) in \<open>auto simp: word_gt_0 unat_gt_0 DEFAULT_PROTOCOL_PERIOD_def rank_sleeping intro!: set_bg_less\<close>)

lemma task_step_keeps: "task_step cfg s s' \<Longrightarrow> sp_elapsed s' = sp_elapsed s \<and> sp_returned s' = sp_returned s"
  by (auto simp: set_bg_def submit_request_def split: if_splits elim!: task_stepE)

text \<open>Waiting that has ended takes no more steps; before, there is always one.\<close>

lemma stop_step_less:
  assumes "stop_step cfg s s'" "0 < cf_health_scan_cycle_secs cfg"
  shows "((of_bool (sp_returned s' = None), stop_measure s'), (of_bool (sp_returned s = None), stop_measure s)) \<in> (less_than :: (nat \<times> nat) set) <*lex*> stop_order"
  using assms(1)
proof cases
  case (task)
  have "sp_returned s' = None" using task task_step_keeps by simp
  then show ?thesis using task_step_less[OF task(2) assms(2)] task(1) by simp
next
  case (tick)
  then show ?thesis using diff_less_mono2[of "sp_elapsed s" "Suc (sp_elapsed s)" SHUTDOWN_TIMEOUT] by (simp add: stop_measure_def stop_order_def)
qed simp_all

lemma stop_step_enabled: "sp_returned s = None \<Longrightarrow> sp_elapsed s \<le> SHUTDOWN_TIMEOUT \<Longrightarrow> \<exists>s'. stop_step cfg s s'"
  using stop_step.joined[of s] stop_step.timed_out[of s] stop_step.tick[of s] by (cases "sp_elapsed s = SHUTDOWN_TIMEOUT") force+

lemma stop_outcome:
  assumes "(stop_step cfg)\<^sup>*\<^sup>* s0 s" "sp_elapsed s0 = 0" "sp_returned s0 = None"
  shows "sp_elapsed s \<le> SHUTDOWN_TIMEOUT \<and> (\<forall>ab. sp_returned s = Some ab \<longrightarrow>
    (if ab then sp_elapsed s = SHUTDOWN_TIMEOUT \<and> (\<exists>t. sp_phase s t \<noteq> Over) else \<forall>t. sp_phase s t = Over))"
  using assms(1)
proof (induction rule: rtranclp_induct)
  case (step s s')
  from step.hyps(2) step.IH show ?case
    by cases (auto dest: task_step_keeps)
qed (simp add: assms)

lemma stop_step_wf: "0 < cf_health_scan_cycle_secs cfg \<Longrightarrow> wf {(s', s). stop_step cfg s s'}"
proof (rule wf_subset)
  let ?m = "\<lambda>s. (of_bool (sp_returned s = None) :: nat, stop_measure s)"
  show "wf (inv_image (less_than <*lex*> stop_order) ?m)" by (simp add: stop_order_def wf_lex_prod)
  show "0 < cf_health_scan_cycle_secs cfg \<Longrightarrow> {(s', s). stop_step cfg s s'} \<subseteq> inv_image (less_than <*lex*> stop_order) ?m"
    by (rule subsetI) (simp only: inv_image_def mem_Collect_eq split_paired_all prod.case stop_step_less)
qed

text \<open>The signal comes behind the events that the dispatch loop has not read.\<close>

lemma shutdown_signal_last:
  assumes "broadcast_ok B V" "bus_pos V bus i = Some p" "p \<le> length (bus_sent V bus)" "length (bus_sent V bus) + 1 - bus_cap V bus \<le> p"
  shows "fst (receive B i (length (bus_sent V bus) - p + 1) (publish B ShutdownSignal bus)) = drop p (bus_sent V bus) @ [ShutdownSignal]"
proof -
  have e: "bus_sent V (publish B ShutdownSignal bus) = bus_sent V bus @ [ShutdownSignal]" using publish_effect(3)[OF assms(1), of ShutdownSignal bus] assms(2) by auto
  show ?thesis
    using receive_kept_up[OF assms(1), of "publish B ShutdownSignal bus" i p] publish_effect(1,2)[OF assms(1), of ShutdownSignal bus] assms(2-4)
    by (simp add: e del: receive.simps)
qed


definition demo_stopping :: stopping where
  "demo_stopping = \<lparr>sp_elapsed = 0, sp_phase = \<lambda>t. if t = DispatchLoop then InSelect else Over, sp_batches = 0, sp_submitting = 0, sp_requests = 0,
     sp_events = 0, sp_returned = None\<rparr>"


end
