(* ===== verification/Spec2Isabelle.thy ===== *)
theory Spec2Isabelle
  imports Put_Race Obj_Cache Vfs_Failure Programs Cli Replication Shutdown
begin

text \<open>
  Verification of Craftec, a peer-to-peer node for storage, databases and WebAssembly programs written
  in Rust.  The sources are the crates under src/crates; file names below are relative to it.

  \<^bold>\<open>The program.\<close>  A node keeps objects under the hash of their contents (craftec-obj).  A database file is
  cut into pages that are stored as such objects, with an index of pages that is an object too; the
  identifier of the index is the root of the database (craftec-vfs, craftec-sql).  Every object that is
  written is encoded into coded pieces by random linear network coding over GF(2^8) (craftec-rlnc), whose
  tags can be combined like the pieces (craftec-crypto).  Nodes find each other with a membership protocol,
  announce what they hold and send frames with hybrid logical time stamps (craftec-net, craftec-types).  A
  scanner looks for objects with too few pieces and an elected node sends a recoded one (craftec-health).
  Programs run under a scheduler and reach the node through host functions (craftec-com).  craftec-node
  starts all this, dispatches events and messages, and has the command line client.

  \<^bold>\<open>Method.\<close>  Pure code is a function; stateful code takes and returns a record; an error is \<open>Inl\<close>; a panic is
  \<open>None\<close> of an option; integers are words of the width of the source, and wrap where the source does.
  Concurrent code is an inductive step relation whose steps are what the code does between two points where
  it waits.  Concurrent hash maps are association lists in an arbitrary order.  What is not in the sources is
  an argument: BLAKE3, Ed25519, hexadecimal text, the serializers postcard and serde_json, the lru crate, the channels of tokio,
  libsql, Wasmtime, the QUIC library iroh, the random generator, the clocks, and the outcome of every
  operation on files and the network.  What a theorem needs of them is a hypothesis (for instance
  \<open>obj_api_ok\<close>, \<open>postcard_ok\<close>, \<open>json_ok\<close>, \<open>repair_api_ok\<close>), and its witness shows a model of it.

  \<^bold>\<open>Shared theories.\<close>  Prelude: machine types, byte orders, slices that can fail, chunks.  LinAlg: combinations of
  byte vectors.  F64: double-precision arithmetic by exact rounding of rationals.  Tables: tables of records
  with time stamps and the interface \<open>timed_index\<close>, which the provider table and the piece tracker
  interpret.

  \<^bold>\<open>Coding.\<close>  GF256 (craftec-rlnc/src/gf256.rs): the tables are computed by the loops of the source; the product
  is that of the field.  Three products occur in the sources, and the interface \<open>byte_product\<close> covers them.
  HomMac (craftec-crypto/src/hommac.rs), Rlnc_Encoder, Rlnc_Decoder, Rlnc_Recoder, Rlnc_Engine
  (craftec-rlnc/src/encoder.rs, decoder.rs, recoder.rs, engine.rs): tags are homomorphic; the decoder keeps an
  echelon form and decodes exactly when the coding vectors span the space; a recoded piece is valid; the
  engine returns the data that was encoded, and counts and bounds its operations.  The interface
  \<open>progressive_decoder\<close> gives the loop that feeds a decoder until it can decode.

  \<^bold>\<open>Types and wire.\<close>  Types (craftec-types/src/cid.rs, identity.rs, piece.rs, error.rs, event.rs), Hlc (hlc.rs): the
  clock under concurrent compare-and-exchange loops is strictly monotone while 48 bits of milliseconds
  last.  Wire (wire.rs): frames round-trip, and no decoder indexes out of range.  Crypto
  (craftec-crypto/src/hash.rs, sign.rs): the Merkle root and the key file.

  \<^bold>\<open>Storage.\<close>  ObjStore (craftec-obj/src): the store over a file system with injected faults refines a map, and
  never returns other contents than asked for, whatever happens to the files.  Obj_Cache (cache.rs) derives what the
  store assumes of its cache from the laws of the lru crate, and bounds the cache.  The store is the interface
  \<open>content_store\<close> for Page_Index and Vfs (craftec-vfs/src), which refine a map of pages with a buffer.
  Put_Race and Vfs_Failure show two behaviours outside of these contracts: concurrent puts of one
  object, and a commit that fails half way.  Sql (craftec-sql/src): committing a database file stores its
  pages; signed writes are checked, but the check and the write are not one step.

  \<^bold>\<open>Network.\<close>  Swim (craftec-net/src/swim.rs): the member table, the protocol tick and the probe tasks; entries
  change along allowed transitions only.  Net_Tables (dht.rs, pending.rs, pool.rs).  Endpoint (endpoint.rs):
  dialling, sending, the readers of the three kinds of connections, and bootstrapping; what is delivered,
  what is admitted, what is lost.  The traits of connection.rs are the interface \<open>connection_handlers\<close>, which
  the handlers of the node interpret.

  \<^bold>\<open>Health.\<close>  Tracker, Scanner, Coordinator, Repair (craftec-health/src/tracker.rs, scanner.rs, coordinator.rs,
  repair.rs): the tracker agrees with its history, the scanner reaches every identifier, and a repair sends a
  valid piece exactly when this node is elected and can.

  \<^bold>\<open>Programs.\<close>  Host (craftec-com/src/host.rs, runtime.rs): each host function on all arguments, including negative
  and overflowing addresses.  Scheduler (scheduler.rs): the tables, tasks and back-off under any
  interleaving.  Programs (agent.rs, scheduler.rs): the descriptors of agents and the listing of programs.

  \<^bold>\<open>The node.\<close>  Node (craftec-node/src/piece_store.rs, handler.rs, rpc.rs, and the dispatch loop of node.rs): every message
  and request; the cascade of encodings ends.  Startup (node.rs, main.rs, craftec-types/src/config.rs): the start over
  explicit files.  Cli (craftec-node/src/cli.rs): the client, down to the answer of the node.  Running (CraftecNode::run
  of node.rs): all background tasks on their shared state.  Event_Bus (event_bus.rs): what a subscriber receives, and
  what it loses when it lags.  Shutdown (shutdown.rs and the end of CraftecNode::run): the tasks stop or are aborted in
  time.  Replication follows an object, an announcement and a repair from one node to another.  This theory has the properties
  of the whole: the invariant of a running node from its start on, and the end of its dispatch loop by a
  forged message.

  \<^bold>\<open>Bounds.\<close>  No definition has fuel: every loop of the source that is modelled by recursion terminates by a
  measure, and loops that run until shutdown are step relations or run over the list of what arrives.
  Hypotheses bound what the width of the code bounds: payloads below 4 GiB, clocks below 48 bits, page
  numbers below 2^32 - 1, memories of at most 4 GiB.  The arithmetic of F64 leaves out subnormal numbers and overflow,
  which the values that occur do not reach; the logarithm of the announcement count is the real one.
  A shutdown ends only if the scanner sleeps between its rounds, so its configured period is not zero there.

  \<^bold>\<open>Not modelled.\<close>  Logging, metrics for display and the texts of errors beyond their kind.  The waiting itself:
  timers appear as steps that may happen, so outside of the shutdown nothing is said about real time.  A dispatch loop
  that lags may lose any events in Node, and loses exactly the oldest in Event_Bus.  Accessors that return a field,
  derived trait implementations, the set-up of logging and the trait declarations of connection.rs.  The
  internals of the parameters named above, so neither the security of the signatures and hashes nor SQL or
  WebAssembly semantics.  craftec-tests contains tests only.
\<close>

section \<open>The running node\<close>



section \<open>A forged join\<close>

text \<open>
  C30. A single message of any peer can end the dispatch of events for good.  The identifier of a join is
  not compared with the authenticated sender and need not be a public key; one that is no key becomes an
  alive member, and when it is among the targets of the next announcement, sending to it panics in the
  dispatch loop.  From then on, whatever else happens to the running node, no event is read and no encoding
  task is started.
\<close>

theorem forged_join_stops_dispatch:
  fixes rn :: "('b, 'c, 'p, 'g, 'k) running" and ev :: stream_event
  assumes "se_read ev = StreamBytes b" "decode_framed_with_hlc (ne_msg N) b = Some (Inr (SwimJoin n port, 0))"
    and "s = ep_swim (cn_endpoint (rn_node rn))" "s' = mark_alive n 0 s" "n \<noteq> sw_local s" "map_of (sw_members s) n = None"
    and "\<not> ne_key_ok N (node_id_bytes n)" "map_of (pool_connections (ep_pool (cn_endpoint (rn_node rn)))) n = None"
    and "rn_dispatching rn" "rn_read rn < length (event_log (cn_node (rn_node rn)))" "c = event_log (cn_node (rn_node rn)) ! rn_read rn"
    and "pc_encode (ne_msg N) (ProviderAnnounce c (nd_id (cn_node (rn_node rn)))) \<noteq> None"
    and "n \<in> set (na_pick X (min (announce_count (length (alive_members s'))) (length (alive_members s'))) (alive_members s'))"
  shows "\<exists>rn1 rn2. running_step X N Q R W rn rn1 \<and> n \<in> set (alive_members (nd_swim (cn_node (rn_node rn1)))) \<and> running_step X N Q R W rn1 rn2 \<and>
    (\<forall>rn3. (running_step X N Q R W)\<^sup>*\<^sup>* rn2 rn3 \<longrightarrow>
       \<not> rn_dispatching rn3 \<and> rn_read rn3 = rn_read rn \<and> length (rn_encodings rn3) = length (rn_encodings rn))"
proof -
  let ?rn1 = "run_set_endpoint ((cn_endpoint (rn_node rn))\<lparr>ep_swim := s'\<rparr>) rn"
  let ?nd = "cn_node (rn_node ?rn1)" and ?ep = "cn_endpoint (rn_node ?rn1)"
  have f: "nd_swim ?nd = s'" "event_log ?nd = event_log (cn_node (rn_node rn))" "nd_id ?nd = nd_id (cn_node (rn_node rn))"
    "ep_pool ?ep = ep_pool (cn_endpoint (rn_node rn))" "rn_dispatching ?rn1 = rn_dispatching rn" "rn_read ?rn1 = rn_read rn" "rn_encodings ?rn1 = rn_encodings rn"
    by (simp_all add: run_set_endpoint_def event_log_def nd_store_def)
  have one: "running_step X N Q R W rn ?rn1"
  proof -
    obtain st where st: "craftec_stream (ne_msg N) (node_handle_message X demo_node_io) n ev (conn_view rn) =
          (fst (craftec_stream (ne_msg N) (node_handle_message X demo_node_io) n ev (conn_view rn)), st)" "conn_update st rn = ?rn1"
      using forged_join_enters[OF assms(1,2), of X demo_node_io n rn] unfolding assms(3,4) by blast
    show ?thesis using running_step.peer_stream[OF st(1), of Q R W] unfolding st(2) .
  qed
  have a: "n \<in> set (alive_members s')" using mark_alive_new[OF assms(5,6)] by (simp add: assms(4))
  then have "alive_members s' \<noteq> []" by auto
  then have "announce_cid_to_peers X c ?nd = map (\<lambda>t. (t, ProviderAnnounce c (nd_id ?nd)))
      (na_pick X (min (announce_count (length (alive_members s'))) (length (alive_members s'))) (alive_members s'))"
    by (simp add: announce_cid_to_peers_def f Let_def)
  then have "send_each N clk (announce_cid_to_peers X c ?nd) ?ep = None" for clk
    using send_each_panics[of n "announce_cid_to_peers X c ?nd" N ?ep clk] assms(7,8,12,13) by (force simp: f)
  then have two: "running_step X N Q R W ?rn1 (?rn1\<lparr>rn_dispatching := False\<rparr>)"
    by (intro dispatch_panics_at[where c = c]) (simp_all add: f assms(9-11))
  show ?thesis
    using one two a dead_dispatch_forever[of X N Q R W "?rn1\<lparr>rn_dispatching := False\<rparr>"] f
    by (intro exI[of _ ?rn1] exI[of _ "?rn1\<lparr>rn_dispatching := False\<rparr>"]) auto
qed

theorem forged_join_stops_dispatch_witness:
  "\<exists>rn1 rn2. running_step demo_node_api (demo_net join_card) \<lparr>pc_encode = \<lambda>_. None, pc_decode = \<lambda>_. None\<rparr> \<lparr>pc_encode = \<lambda>_. None, pc_decode = \<lambda>_. None\<rparr> demo_wasm
       demo_running rn1 \<and>
     running_step demo_node_api (demo_net join_card) \<lparr>pc_encode = \<lambda>_. None, pc_decode = \<lambda>_. None\<rparr> \<lparr>pc_encode = \<lambda>_. None, pc_decode = \<lambda>_. None\<rparr> demo_wasm rn1 rn2 \<and>
     \<not> rn_dispatching rn2 \<and> rn_read rn2 = 0 \<and> rn_encodings rn2 = []"
proof -
  let ?b = "frame 256 0 [1]" and ?s = "mark_alive (NodeId [0]) 0 (swim_new (NodeId [1]))" and ?none = "\<lparr>pc_encode = \<lambda>_. None, pc_decode = \<lambda>_. None\<rparr>"
  have ok: "postcard_ok join_card" by (auto simp: postcard_ok_def join_card_def)
  have d: "decode_framed_with_hlc join_card ?b = Some (Inr (SwimJoin (NodeId [0]) 0, 0))"
    using decode_framed_frame[OF ok, of "SwimJoin (NodeId [0]) 0" "[1]" 256 0 "[]"] by (simp add: join_card_def)
  have one: "alive_members ?s = [NodeId [0]]" by (simp add: mark_alive_def upsert_def send_event_def swim_new_def alive_members_def)
  have v: "cn_endpoint (rn_node demo_running) = demo_endpoint" "event_log (cn_node (rn_node demo_running)) = [Cid [5]]"
    "nd_id (cn_node (rn_node demo_running)) = NodeId [1]" "rn_dispatching demo_running" "rn_read demo_running = 0" "rn_encodings demo_running = []"
    by (simp_all add: demo_running_def run_new_def event_log_def nd_store_def set_store_def demo_node_def Let_def)
  have n: "ne_msg (demo_net join_card) = join_card" "ep_swim demo_endpoint = swim_new (NodeId [1])" by (simp_all add: demo_net_def demo_endpoint_def)
  have "\<exists>rn1 rn2. running_step demo_node_api (demo_net join_card) ?none ?none demo_wasm demo_running rn1 \<and>
      NodeId [0] \<in> set (alive_members (nd_swim (cn_node (rn_node rn1)))) \<and>
      running_step demo_node_api (demo_net join_card) ?none ?none demo_wasm rn1 rn2 \<and>
      (\<forall>rn3. (running_step demo_node_api (demo_net join_card) ?none ?none demo_wasm)\<^sup>*\<^sup>* rn2 rn3 \<longrightarrow>
         \<not> rn_dispatching rn3 \<and> rn_read rn3 = rn_read demo_running \<and> length (rn_encodings rn3) = length (rn_encodings demo_running))"
    by (rule forged_join_stops_dispatch[where ev = "demo_event ?b" and b = ?b and port = 0 and s = "swim_new (NodeId [1])" and s' = ?s and c = "Cid [5]"])
      (simp_all add: demo_event_def d one v n, simp_all add: demo_net_def demo_endpoint_def swim_new_def pool_with_capacity_def join_card_def demo_node_api_def announce_count_def)
  then show ?thesis using v(5,6) by (metis length_0_conv rtranclp.rtrancl_refl)
qed

end
